(* ===== verification/Prelude.thy ===== *)
theory Prelude imports Main "HOL-Library.AList" "HOL-Library.Word" begin

text \<open>
  Shared vocabulary of the development: bytes and typed-array reads and writes, the integer
  conversions of the language, the insertion-ordered \<open>Map\<close> of the language, the errors the
  modelled code raises, and the lemma collections the component theories use.
\<close>

unbundle bit_operations_syntax

named_theorems seq_simps \<open>sequence-number arithmetic brought to \<open>mod 65536\<close>\<close>
named_theorems size_simps \<open>lengths of encoded pieces\<close>
named_theorems inv_intros \<open>operations that preserve a component invariant\<close>

type_synonym byte = "8 word"

text \<open>Every exception the modelled code throws, one constructor per throw site.\<close>

datatype js_error =
    RangeError
  | SackLengthError nat
  | ExtBitsLengthError nat
  | ConnClosedError
  | NotInCloseWait
  | AssertionError
  | ListenerClosed
  | InvalidPort int
  | InvalidHostname string
  | InvalidAddr
  | TypeError
  | OsError string

text \<open>Sequencing of computations that may throw: the first error wins.\<close>

definition err_bind :: "js_error + 'a \<Rightarrow> ('a \<Rightarrow> js_error + 'b) \<Rightarrow> js_error + 'b" where
  "err_bind m f = (case m of Inl e \<Rightarrow> Inl e | Inr x \<Rightarrow> f x)"

lemma err_bind_simps [simp]: "err_bind (Inl e) f = Inl e" "err_bind (Inr x) f = f x"
  by (simp_all add: err_bind_def)

lemma err_bind_cong [fundef_cong]:
  "m = m' \<Longrightarrow> (\<And>x. m' = Inr x \<Longrightarrow> f x = f' x) \<Longrightarrow> err_bind m f = err_bind m' f'"
  by (cases m') simp_all

lemma err_bind_InrE [elim!]:
  assumes "err_bind m f = Inr y"
  obtains x where "m = Inr x" "f x = Inr y"
  using assms by (cases m) simp_all

subsection \<open>Integer conversions\<close>

text \<open>
  The bitwise operators of the language convert their operands with ToInt32. Only integers
  reach them in this program.
\<close>

definition to_int32 :: "int \<Rightarrow> int" where
  "to_int32 x = signed_take_bit 31 x"

definition js_and :: "int \<Rightarrow> int \<Rightarrow> int" where
  "js_and a b = to_int32 a AND to_int32 b"

definition js_or :: "int \<Rightarrow> int \<Rightarrow> int" where
  "js_or a b = to_int32 a OR to_int32 b"

definition js_shl :: "int \<Rightarrow> nat \<Rightarrow> int" where
  "js_shl a n = to_int32 (push_bit n (to_int32 a))"

definition js_shr :: "int \<Rightarrow> nat \<Rightarrow> int" where
  "js_shr a n = drop_bit n (to_int32 a)"

lemma to_int32_id: "- 2147483648 \<le> x \<Longrightarrow> x < 2147483648 \<Longrightarrow> to_int32 x = x"
  by (simp add: to_int32_def signed_take_bit_int_eq_self)

lemma to_int32_take_bit: "n \<le> 31 \<Longrightarrow> take_bit n (to_int32 x) = take_bit n x"
  by (simp add: to_int32_def take_bit_signed_take_bit)

lemma js_and_mask16: "js_and x 65535 = x mod 65536"
proof -
  have m: "(65535::int) = mask 16" by (simp add: mask_eq_exp_minus_1)
  have "to_int32 65535 = (65535::int)" by (simp add: to_int32_def signed_take_bit_int_eq_self)
  then have "js_and x 65535 = to_int32 x AND mask 16" by (simp only: js_and_def m)
  also have "\<dots> = take_bit 16 (to_int32 x)" by (simp add: take_bit_eq_mask)
  also have "\<dots> = take_bit 16 x" by (rule to_int32_take_bit) simp
  also have "\<dots> = x mod 65536" by (simp add: take_bit_eq_mod)
  finally show ?thesis .
qed

text \<open>Writing an integer into a \<open>Uint8\<close>/\<open>Uint16\<close>/\<open>Uint32\<close> slot keeps its low bits, big-endian.\<close>

definition put_uint8 :: "int \<Rightarrow> byte list" where
  "put_uint8 n = [word_of_int n]"

definition put_uint16 :: "int \<Rightarrow> byte list" where
  "put_uint16 n = [word_of_int (n div 256), word_of_int n]"

definition put_uint32 :: "int \<Rightarrow> byte list" where
  "put_uint32 n = [word_of_int (n div 16777216), word_of_int (n div 65536),
                   word_of_int (n div 256), word_of_int n]"

text \<open>Reading: a read that passes the end of the buffer raises \<open>RangeError\<close>.\<close>

definition get_uint8 :: "byte list \<Rightarrow> nat \<Rightarrow> js_error + int" where
  "get_uint8 bs i = (if i < length bs then Inr (uint (bs ! i)) else Inl RangeError)"

definition get_uint16 :: "byte list \<Rightarrow> nat \<Rightarrow> js_error + int" where
  "get_uint16 bs i =
     (if i + 1 < length bs then Inr (uint (bs ! i) * 256 + uint (bs ! (i + 1)))
      else Inl RangeError)"

definition get_uint32 :: "byte list \<Rightarrow> nat \<Rightarrow> js_error + int" where
  "get_uint32 bs i =
     (if i + 3 < length bs
      then Inr (uint (bs ! i) * 16777216 + uint (bs ! (i + 1)) * 65536
                + uint (bs ! (i + 2)) * 256 + uint (bs ! (i + 3)))
      else Inl RangeError)"

definition js_slice :: "byte list \<Rightarrow> nat \<Rightarrow> nat \<Rightarrow> byte list" where
  "js_slice bs i j = take (j - i) (drop i bs)"

lemma length_put_uint [simp, size_simps]:
  "length (put_uint8 n) = 1" "length (put_uint16 n) = 2" "length (put_uint32 n) = 4"
  by (simp_all add: put_uint8_def put_uint16_def put_uint32_def)

lemma uint_byte_of_int: "uint (word_of_int n :: byte) = n mod 256"
  by (simp add: uint_word_of_int)

lemma uint_byte_bounds [simp]: "0 \<le> uint (b :: byte)" "uint (b :: byte) < 256"
  using uint_lt2p [of b] by simp_all

lemma get_uint8_nonneg: "get_uint8 bs i = Inr n \<Longrightarrow> 0 \<le> n \<and> n < 256"
  by (auto simp: get_uint8_def split: if_splits)

lemma mod_div_digits2: "(n div 256 mod 256) * 256 + n mod 256 = n mod (65536::int)"
  using mod_mult2_eq' [of n 256 256] zmod_zmult2_eq [of 256 n 256] by simp

lemma mod_div_digits4:
  "(n div 16777216 mod 256) * 16777216 + (n div 65536 mod 256) * 65536
   + (n div 256 mod 256) * 256 + n mod 256 = n mod (4294967296::int)"
proof -
  have a: "n mod 4294967296 = 65536 * (n div 65536 mod 65536) + n mod 65536"
    using zmod_zmult2_eq [of 65536 n 65536] by simp
  have b: "n div 65536 mod 65536 = 256 * (n div 16777216 mod 256) + n div 65536 mod 256"
    using zmod_zmult2_eq [of 256 "n div 65536" 256] by (simp add: zdiv_zmult2_eq [symmetric])
  from a b mod_div_digits2 [of n] show ?thesis by simp
qed

subsection \<open>The insertion-ordered map of the language\<close>

text \<open>
  A \<open>Map\<close> iterates in insertion order; \<open>set\<close> on a present key keeps its place, \<open>delete\<close>
  removes it. That is an association list with distinct keys and the library's
  \<open>AList.update\<close> and \<open>AList.delete\<close>.
\<close>

type_synonym ('k, 'v) js_map = "('k \<times> 'v) list"

definition jm_get :: "('k, 'v) js_map \<Rightarrow> 'k \<Rightarrow> 'v option" where
  "jm_get m k = map_of m k"

definition jm_set :: "'k \<Rightarrow> 'v \<Rightarrow> ('k, 'v) js_map \<Rightarrow> ('k, 'v) js_map" where
  "jm_set k v m = AList.update k v m"

definition jm_del :: "'k \<Rightarrow> ('k, 'v) js_map \<Rightarrow> ('k, 'v) js_map" where
  "jm_del k m = AList.delete k m"

definition jm_has :: "('k, 'v) js_map \<Rightarrow> 'k \<Rightarrow> bool" where
  "jm_has m k = (jm_get m k \<noteq> None)"

definition jm_keys :: "('k, 'v) js_map \<Rightarrow> 'k list" where
  "jm_keys m = map fst m"

definition jm_wf :: "('k, 'v) js_map \<Rightarrow> bool" where
  "jm_wf m = distinct (jm_keys m)"

lemma jm_get_set: "jm_get (jm_set k v m) k' = (if k' = k then Some v else jm_get m k')"
  by (simp add: jm_get_def jm_set_def update_conv')

lemma jm_get_del: "jm_get (jm_del k m) k' = (if k' = k then None else jm_get m k')"
  by (simp add: jm_get_def jm_del_def delete_conv')

lemma jm_get_Nil [simp]: "jm_get [] k = None"
  by (simp add: jm_get_def)

lemma jm_keys_Nil [simp]: "jm_keys [] = []"
  by (simp add: jm_keys_def)

lemma jm_wf_Nil [simp]: "jm_wf []"
  by (simp add: jm_wf_def)

lemma jm_keys_length [simp]: "length (jm_keys m) = length m"
  by (simp add: jm_keys_def)

lemma jm_keys_dom: "k \<in> set (jm_keys m) \<longleftrightarrow> jm_get m k \<noteq> None"
  by (auto simp: jm_keys_def jm_get_def map_of_eq_None_iff image_iff)

lemma jm_keys_set: "jm_keys (jm_set k v m) = (if k \<in> set (jm_keys m) then jm_keys m else jm_keys m @ [k])"
  by (simp add: jm_keys_def jm_set_def update_keys)

lemma jm_keys_del: "jm_keys (jm_del k m) = filter (\<lambda>k'. k' \<noteq> k) (jm_keys m)"
  by (simp add: jm_keys_def jm_del_def delete_keys removeAll_filter_not_eq eq_commute)

lemma jm_set_keys_set [simp]: "set (jm_keys (jm_set k v m)) = insert k (set (jm_keys m))"
  by (auto simp: jm_keys_set)

lemma jm_set_keys_del [simp]: "set (jm_keys (jm_del k m)) = set (jm_keys m) - {k}"
  by (auto simp: jm_keys_del)

lemma jm_wf_set [simp, inv_intros]: "jm_wf m \<Longrightarrow> jm_wf (jm_set k v m)"
  by (simp add: jm_wf_def jm_keys_def jm_set_def distinct_update)

lemma jm_wf_del [simp, inv_intros]: "jm_wf m \<Longrightarrow> jm_wf (jm_del k m)"
  by (simp add: jm_wf_def jm_keys_del)

lemma jm_length_set: "length (jm_set k v m) = (if k \<in> set (jm_keys m) then length m else length m + 1)"
  using jm_keys_set [of k v m] by (metis One_nat_def jm_keys_length length_append_singleton add.right_neutral add_Suc_right)

lemma jm_length_del:
  assumes "jm_wf m"
  shows "length (jm_del k m) = (if k \<in> set (jm_keys m) then length m - 1 else length m)"
proof -
  have d: "distinct (jm_keys (jm_del k m))" "distinct (jm_keys m)"
    using assms jm_wf_del [of m k] by (simp_all add: jm_wf_def)
  have "length (jm_del k m) = card (set (jm_keys m) - {k})"
    using distinct_card [OF d(1)] by simp
  also have "\<dots> = (if k \<in> set (jm_keys m) then card (set (jm_keys m)) - 1 else card (set (jm_keys m)))"
    by (simp add: card_Diff_singleton_if)
  finally show ?thesis using distinct_card [OF d(2)] by simp
qed

lemma jm_length_del_le: "length (jm_del k m) \<le> length m"
  by (simp add: jm_del_def length_delete_le)

lemma jm_set_fresh: "k \<notin> set (jm_keys m) \<Longrightarrow> jm_set k v m = m @ [(k, v)]"
  by (induction m) (auto simp: jm_set_def jm_keys_def)

lemma jm_del_filter: "jm_del k m = filter (\<lambda>e. fst e \<noteq> k) m"
  by (simp add: jm_del_def AList.delete_eq split_def eq_commute)

lemma jm_del_absent: "k \<notin> set (jm_keys m) \<Longrightarrow> jm_del k m = m"
  by (simp add: jm_del_def jm_keys_def delete_id)

subsection \<open>Loops that change a state and produce outputs\<close>

text \<open>
  \<open>thread f xs s\<close> is the loop \<open>for (const x of xs)\<close> whose body \<open>f\<close> changes the state and emits
  outputs; the outputs of the iterations are concatenated in order.
\<close>

fun thread :: "('a \<Rightarrow> 's \<Rightarrow> 's \<times> 'r list) \<Rightarrow> 'a list \<Rightarrow> 's \<Rightarrow> 's \<times> 'r list" where
  "thread f [] s = (s, [])"
| "thread f (x # xs) s =
     (let (s1, r1) = f x s; (s2, r2) = thread f xs s1 in (s2, r1 @ r2))"

lemma thread_Cons:
  "thread f (x # xs) s = (fst (thread f xs (fst (f x s))), snd (f x s) @ snd (thread f xs (fst (f x s))))"
  by (simp add: split_beta)

declare thread.simps(2) [simp del]

lemma thread_invariant:
  "(\<And>x s. x \<in> set xs \<Longrightarrow> P s \<Longrightarrow> P (fst (f x s))) \<Longrightarrow> P s \<Longrightarrow> P (fst (thread f xs s))"
  by (induction xs arbitrary: s) (simp_all add: thread_Cons)

lemma thread_frame:
  "(\<And>x s. x \<in> set xs \<Longrightarrow> g (fst (f x s)) = g s) \<Longrightarrow> g (fst (thread f xs s)) = g s"
  by (induction xs arbitrary: s) (simp_all add: thread_Cons)

text \<open>
  The contract of an operation that releases pending requests: it keeps the well-formedness of
  the state, and what it releases is the front of the pending queue.
\<close>

locale fifo_release =
  fixes pend :: "'s \<Rightarrow> 'r list"
    and ok :: "'s \<Rightarrow> bool"
    and step :: "'a \<Rightarrow> 's \<Rightarrow> 's \<times> 'r list"
  assumes step_ok: "ok s \<Longrightarrow> ok (fst (step a s))"
    and step_fifo: "pend s = snd (step a s) @ pend (fst (step a s))"
begin

lemma thread_ok: "ok s \<Longrightarrow> ok (fst (thread step as s))"
  by (rule thread_invariant) (simp_all add: step_ok)

lemma thread_fifo: "pend s = snd (thread step as s) @ pend (fst (thread step as s))"
proof (induction as arbitrary: s)
  case Nil
  then show ?case by simp
next
  case (Cons a as)
  have "pend s = snd (step a s) @ pend (fst (step a s))" by (rule step_fifo)
  also have "pend (fst (step a s))
      = snd (thread step as (fst (step a s))) @ pend (fst (thread step as (fst (step a s))))"
    by (rule Cons.IH)
  finally show ?case by (simp add: thread_Cons)
qed

lemma thread_pend_mono: "length (pend (fst (thread step as s))) \<le> length (pend s)"
  using arg_cong [OF thread_fifo [of s as], of length] by simp

end

end
