(* ===== verification/Seq16.thy ===== *)
theory Seq16 imports Prelude begin

text \<open>
  The sequence-number arithmetic of \<open>src/utilt.ts\<close> (the object \<open>Seq\<close>): addition, forward
  distance and the wrap-safe comparisons, on unbounded integers masked with \<open>& 0xFFFF\<close> as in
  the source. \<open>u16\<close> is the range the protocol keeps its numbers in.
\<close>

definition seq_add :: "int \<Rightarrow> int \<Rightarrow> int" where
  "seq_add a n = js_and (a + n) 65535"

definition seq_diff :: "int \<Rightarrow> int \<Rightarrow> int" where
  "seq_diff a b = js_and (a - b) 65535"

definition seq_lt :: "int \<Rightarrow> int \<Rightarrow> bool" where
  "seq_lt a b \<longleftrightarrow> a \<noteq> b \<and> js_and (b - a) 65535 < 32768"

definition seq_le :: "int \<Rightarrow> int \<Rightarrow> bool" where
  "seq_le a b \<longleftrightarrow> a = b \<or> seq_lt a b"

definition seq_gt :: "int \<Rightarrow> int \<Rightarrow> bool" where
  "seq_gt a b \<longleftrightarrow> seq_lt b a"

definition seq_ge :: "int \<Rightarrow> int \<Rightarrow> bool" where
  "seq_ge a b \<longleftrightarrow> a = b \<or> seq_gt a b"

definition u16 :: "int \<Rightarrow> bool" where
  "u16 x \<longleftrightarrow> 0 \<le> x \<and> x < 65536"

lemma seq_add_mod [seq_simps]: "seq_add a n = (a + n) mod 65536"
  by (simp add: seq_add_def js_and_mask16)

lemma seq_diff_mod [seq_simps]: "seq_diff a b = (a - b) mod 65536"
  by (simp add: seq_diff_def js_and_mask16)

lemma seq_lt_mod [seq_simps]: "seq_lt a b \<longleftrightarrow> a \<noteq> b \<and> (b - a) mod 65536 < 32768"
  by (simp add: seq_lt_def js_and_mask16)

lemma seq_add_u16 [simp]: "u16 (seq_add a n)"
  by (simp add: seq_simps u16_def)

lemma seq_diff_u16 [simp]: "u16 (seq_diff a b)"
  by (simp add: seq_simps u16_def)

lemma u16_mod [simp]: "u16 x \<Longrightarrow> x mod 65536 = x"
  by (simp add: u16_def)

lemma u16_modI [simp]: "u16 (x mod 65536)"
  by (simp add: u16_def)

lemma seq_add_0 [simp]: "u16 a \<Longrightarrow> seq_add a 0 = a"
  by (simp add: seq_simps)

lemma seq_add_add: "seq_add (seq_add a m) n = seq_add a (m + n)"
  by (simp add: seq_simps mod_add_left_eq add.assoc)

lemma seq_diff_add: "seq_diff (seq_add a n) a = n mod 65536"
  by (simp add: seq_simps mod_diff_left_eq)

lemma seq_add_diff: "u16 b \<Longrightarrow> seq_add a (seq_diff b a) = b"
  by (simp add: seq_simps mod_add_right_eq)

lemma seq_diff_self [simp]: "seq_diff a a = 0"
  by (simp add: seq_simps)

lemma seq_diff_eq_0: "u16 a \<Longrightarrow> u16 b \<Longrightarrow> seq_diff a b = 0 \<longleftrightarrow> a = b"
  using seq_add_diff [of a b] by auto

lemma seq_diff_inj: "u16 a \<Longrightarrow> u16 b \<Longrightarrow> seq_diff a c = seq_diff b c \<longleftrightarrow> a = b"
  by (metis seq_add_diff)

lemma seq_diff_bounds: "0 \<le> seq_diff a b" "seq_diff a b < 65536"
  by (simp_all add: seq_simps)

lemma seq_lt_diff: "seq_lt a b \<longleftrightarrow> a \<noteq> b \<and> seq_diff b a < 32768"
  by (simp add: seq_simps)

lemma seq_ge_diff: "u16 a \<Longrightarrow> u16 b \<Longrightarrow> seq_ge a b \<longleftrightarrow> seq_diff a b < 32768"
  using seq_diff_eq_0 [of a b] by (auto simp: seq_ge_def seq_gt_def seq_lt_diff)

lemma seq_diff_swap:
  assumes "seq_diff a b \<noteq> 0"
  shows "seq_diff b a = 65536 - seq_diff a b"
proof -
  have "(b - a) mod 65536 = (- (a - b)) mod 65536" by simp
  also have "\<dots> = 65536 - (a - b) mod 65536"
    using assms zmod_zminus1_eq_if [of "a - b" 65536] by (simp add: seq_simps)
  finally show ?thesis by (simp add: seq_simps)
qed

lemma seq_lt_irrefl [simp]: "\<not> seq_lt a a"
  by (simp add: seq_lt_def)

lemma seq_lt_asym: "u16 a \<Longrightarrow> u16 b \<Longrightarrow> seq_lt a b \<Longrightarrow> \<not> seq_lt b a"
  using seq_diff_swap [of b a] seq_diff_eq_0 [of b a] by (auto simp: seq_lt_diff)

lemma seq_lt_succ: "u16 a \<Longrightarrow> seq_lt a (seq_add a 1)"
  using seq_diff_add [of a 1] by (force simp: seq_lt_diff)

lemma seq_lt_add_iff:
  assumes "u16 a"
  shows "seq_lt a (seq_add a n) \<longleftrightarrow> 0 < n mod 65536 \<and> n mod 65536 < 32768"
proof -
  have "a = seq_add a n \<longleftrightarrow> n mod 65536 = 0"
    using seq_diff_eq_0 [of "seq_add a n" a] assms by (auto simp: seq_diff_add)
  moreover have "0 \<le> n mod 65536" by simp
  ultimately show ?thesis by (auto simp: seq_lt_diff seq_diff_add)
qed

lemma seq_diff_chain: "seq_diff c a = (seq_diff c b + seq_diff b a) mod 65536"
  by (simp add: seq_simps mod_add_eq)

lemma seq_lt_trans_window:
  assumes "u16 a" "u16 b" "u16 c" "seq_lt a b" "seq_lt b c"
    and w: "seq_diff b a + seq_diff c b < 32768"
  shows "seq_lt a c"
proof -
  have "seq_diff c a = seq_diff c b + seq_diff b a"
    using seq_diff_chain [of c a b] seq_diff_bounds [of c b] seq_diff_bounds [of b a] w by simp
  moreover have "seq_diff c b \<noteq> 0" using assms seq_diff_eq_0 [of c b] by auto
  ultimately show ?thesis
    using seq_diff_bounds [of c b] seq_diff_bounds [of b a] w seq_diff_eq_0 [of c a] assms
    by (auto simp: seq_lt_diff)
qed

lemma seq_lt_shift:
  assumes "u16 a" "u16 b"
  shows "seq_lt (seq_add a n) (seq_add b n) \<longleftrightarrow> seq_lt a b"
proof -
  have d: "seq_diff (seq_add b n) (seq_add a n) = seq_diff b a"
    by (simp add: seq_simps mod_diff_eq)
  moreover have "seq_add a n = seq_add b n \<longleftrightarrow> a = b"
    using assms d seq_diff_eq_0 [of "seq_add b n" "seq_add a n"] seq_diff_eq_0 [of b a] by auto
  ultimately show ?thesis by (simp add: seq_lt_diff)
qed

lemma word16_of_int: "uint (word_of_int x :: 16 word) = x mod 65536"
  by (simp add: uint_word_of_int)

lemma mod_shift_half:
  "(x + 32768) mod 65536 = (if x mod 65536 < 32768 then x mod 65536 + 32768 else x mod 65536 - (32768::int))"
proof -
  define d where "d = x mod 65536"
  have d: "0 \<le> d" "d < 65536" by (simp_all add: d_def)
  have "(x + 32768) mod 65536 = (d + 32768) mod 65536"
    unfolding d_def by (rule mod_add_left_eq [symmetric])
  also have "\<dots> = (if d < 32768 then d + 32768 else d - 32768)"
  proof (cases "d < 32768")
    case True
    then show ?thesis using d by simp
  next
    case False
    then have "(d - 32768 + 65536) mod 65536 = d - 32768"
      using d by (subst mod_add_self2) simp
    then show ?thesis using False by (simp add: add.commute)
  qed
  finally show ?thesis by (simp only: d_def)
qed

lemma word16_positive: "0 < sint (word_of_int x :: 16 word) \<longleftrightarrow> 0 < x mod 65536 \<and> x mod 65536 < 32768"
proof -
  have "sint (word_of_int x :: 16 word) = signed_take_bit 15 x"
    by (simp add: signed_of_int)
  also have "\<dots> = (x + 32768) mod 65536 - 32768"
    by (simp add: signed_take_bit_eq_take_bit_shift take_bit_eq_mod)
  finally have "0 < sint (word_of_int x :: 16 word) \<longleftrightarrow> 32768 < (x + 32768) mod 65536" by simp
  moreover have "(x + 32768) mod 65536
      = (if x mod 65536 < 32768 then x mod 65536 + 32768 else x mod 65536 - 32768)"
    by (rule mod_shift_half)
  ultimately show ?thesis by auto
qed

text \<open>
  C38. The wrap-safe comparison is 16-bit serial-number order: on protocol sequence numbers
  \<open>Seq.lt a b\<close> holds exactly when the two's complement 16-bit difference \<open>b - a\<close> is positive,
  and \<open>Seq.add\<close> and \<open>Seq.diff\<close> are 16-bit machine addition and subtraction.
\<close>

theorem seq_serial_order:
  assumes "u16 a" and "u16 b"
  shows "(seq_lt a b \<longleftrightarrow> 0 < sint (word_of_int b - word_of_int a :: 16 word))
    \<and> seq_add a n = uint (word_of_int a + word_of_int n :: 16 word)
    \<and> seq_diff a b = uint (word_of_int a - word_of_int b :: 16 word)"
proof (intro conjI)
  have "0 < sint (word_of_int b - word_of_int a :: 16 word)
      \<longleftrightarrow> 0 < (b - a) mod 65536 \<and> (b - a) mod 65536 < 32768"
    using word16_positive [of "b - a"] by simp
  moreover have "seq_diff b a \<noteq> 0 \<longleftrightarrow> a \<noteq> b"
    using seq_diff_eq_0 [of b a] assms by auto
  ultimately show "seq_lt a b \<longleftrightarrow> 0 < sint (word_of_int b - word_of_int a :: 16 word)"
    using seq_diff_bounds(1) [of b a] by (auto simp: seq_simps)
next
  show "seq_add a n = uint (word_of_int a + word_of_int n :: 16 word)"
    using word16_of_int [of "a + n"] by (simp add: seq_simps)
next
  show "seq_diff a b = uint (word_of_int a - word_of_int b :: 16 word)"
    using word16_of_int [of "a - b"] by (simp add: seq_simps)
qed

theorem seq_serial_order_witness:
  "seq_lt 65535 3 \<and> \<not> seq_lt 3 65535 \<and> seq_add 65535 4 = 3 \<and> seq_diff 3 65535 = 4
   \<and> (seq_lt 65535 3 \<longleftrightarrow> 0 < sint (word_of_int 3 - word_of_int 65535 :: 16 word))"
  using seq_serial_order [of 65535 3 4] by (simp add: u16_def seq_simps)

end
