(* ===== verification/Sack.thy ===== *)
theory Sack imports Seq16 begin

text \<open>
  The selective-acknowledgement extension (\<open>src/utp_ext_sack.ts\<close>): building the bit mask from
  the sequence numbers held out of order, reading it back as received and missing numbers, and
  the length check of the parser. The \<open>type\<close> field is the constant 1 and is supplied by the
  packet theory. \<open>toBytes\<close> is the field \<open>sack_bitmask\<close>.
\<close>

record sack =
  sack_base :: int
  sack_bitmask :: "byte list"

definition js_ceil_div :: "int \<Rightarrow> int \<Rightarrow> int" where
  "js_ceil_div a b = - ((- a) div b)"

definition sack_createFromBytes :: "int \<Rightarrow> byte list \<Rightarrow> js_error + sack" where
  "sack_createFromBytes localAckNr bitmask =
     (if length bitmask mod (32 div 8) \<noteq> 0 then Inl (SackLengthError (length bitmask))
      else Inr \<lparr>sack_base = localAckNr, sack_bitmask = bitmask\<rparr>)"

text \<open>The length computed from the farthest number of the list, as sorted by the source.\<close>

definition sack_bitmaskLength :: "int \<Rightarrow> int list \<Rightarrow> int" where
  "sack_bitmaskLength firstSeq seqNrs =
     (if length seqNrs > 0 then
        (let lastSeq = seqNrs ! (length seqNrs - 1);
             totalLength = seq_diff lastSeq firstSeq + 1;
             bytesLength = js_ceil_div totalLength 8
         in max 4 (js_ceil_div bytesLength 4 * 4))
      else 4)"

definition sack_setBit :: "int \<Rightarrow> int \<Rightarrow> int \<Rightarrow> byte list \<Rightarrow> byte list" where
  "sack_setBit firstSeq bitmaskLength seqNr bitmask =
     (if seq_ge seqNr firstSeq then
        (let bitIndex = seq_diff seqNr firstSeq in
         if bitIndex < bitmaskLength * 8 then
           (let byteIndex = nat (bitIndex div 8); bitPosition = nat (bitIndex mod 8)
            in bitmask[byteIndex := bitmask ! byteIndex OR push_bit bitPosition 1])
         else bitmask)
      else bitmask)"

definition sack_create :: "int \<Rightarrow> int list \<Rightarrow> sack option" where
  "sack_create localAckNr recvRemoteSeqNrs =
     (if length recvRemoteSeqNrs = 0 then None
      else
        (let firstSeq = seq_add localAckNr 2;
             seqNrs = sort_key (\<lambda>s. seq_diff s firstSeq) recvRemoteSeqNrs;
             bitmaskLength = sack_bitmaskLength firstSeq seqNrs;
             bitmask = fold (sack_setBit firstSeq bitmaskLength) seqNrs
                         (replicate (nat bitmaskLength) 0)
         in Some \<lparr>sack_base = localAckNr, sack_bitmask = bitmask\<rparr>))"

text \<open>
  The two readers walk the mask byte by byte and bit by bit, stepping the sequence number at
  every bit and collecting it when the bit is set (\<open>want = True\<close>) or clear (\<open>want = False\<close>).
\<close>

fun sack_byteLoop :: "bool \<Rightarrow> byte \<Rightarrow> nat list \<Rightarrow> int \<Rightarrow> int list \<Rightarrow> int \<times> int list" where
  "sack_byteLoop want b [] seqNr acc = (seqNr, acc)"
| "sack_byteLoop want b (bitOffset # ks) seqNr acc =
     sack_byteLoop want b ks (seq_add seqNr 1)
       (if ((b AND push_bit bitOffset 1) \<noteq> 0) = want then acc @ [seqNr] else acc)"

fun sack_maskLoop :: "bool \<Rightarrow> byte list \<Rightarrow> int \<Rightarrow> int list \<Rightarrow> int list" where
  "sack_maskLoop want [] seqNr acc = acc"
| "sack_maskLoop want (b # bs) seqNr acc =
     (let (seqNr', acc') = sack_byteLoop want b [0..<8] seqNr acc
      in sack_maskLoop want bs seqNr' acc')"

definition sack_getRemoteReceivedSeqNrs :: "sack \<Rightarrow> int list" where
  "sack_getRemoteReceivedSeqNrs k =
     sack_maskLoop True (sack_bitmask k) (seq_add (sack_base k) 2) []"

definition sack_getRemoteNotReceivedSeqNrs :: "sack \<Rightarrow> int list" where
  "sack_getRemoteNotReceivedSeqNrs k =
     sack_maskLoop False (sack_bitmask k) (seq_add (sack_base k) 2) [seq_add (sack_base k) 1]"

subsection \<open>Reading a mask\<close>

definition mask_bit :: "byte list \<Rightarrow> nat \<Rightarrow> bool" where
  "mask_bit bm i \<longleftrightarrow> bit (bm ! (i div 8)) (i mod 8)"

lemma and_push_bit_iff: "((b :: byte) AND 2 ^ k = 0) = (\<not> bit b k)"
  by (simp add: and_exp_eq_0_iff_not_bit)

lemma sack_byteLoop_eq:
  assumes "u16 s" "\<forall>k\<in>set ks. k < 8"
  shows "sack_byteLoop want b ks s acc =
    (seq_add s (int (length ks)),
     acc @ map (\<lambda>i. seq_add s (int i)) (filter (\<lambda>i. bit b (ks ! i) = want) [0..<length ks]))"
  using assms
proof (induction ks arbitrary: s acc)
  case Nil
  then show ?case by simp
next
  case (Cons k ks)
  have "map (\<lambda>i. seq_add s (int i)) (filter (\<lambda>i. bit b ((k # ks) ! i) = want) [0..<length (k # ks)])
      = (if bit b k = want then [s] else [])
        @ map (\<lambda>i. seq_add (seq_add s 1) (int i)) (filter (\<lambda>i. bit b (ks ! i) = want) [0..<length ks])"
    using Cons.prems(1)
    by (simp add: upt_conv_Cons map_Suc_upt [symmetric] filter_map comp_def seq_add_add del: upt_Suc)
  note step = this
  have "sack_byteLoop want b (k # ks) s acc
      = sack_byteLoop want b ks (seq_add s 1) (acc @ (if bit b k = want then [s] else []))"
    by (auto simp: and_push_bit_iff)
  then show ?case
    using Cons.prems by (simp only: step Cons.IH) (simp add: Cons.IH seq_add_add add.commute)
qed

lemma sack_maskLoop_eq:
  assumes "u16 s"
  shows "sack_maskLoop want bm s acc =
    acc @ map (\<lambda>i. seq_add s (int i)) (filter (\<lambda>i. mask_bit bm i = want) [0..<8 * length bm])"
  using assms
proof (induction bm arbitrary: s acc)
  case Nil
  then show ?case by simp
next
  case (Cons b bm)
  have up: "[0..<8 * length (b # bm)] = [0..<8] @ map (\<lambda>i. i + 8) [0..<8 * length bm]"
    using map_add_upt [of 8 "8 * length bm"] upt_add_eq_append [of 0 8 "8 * length bm"]
    by (simp add: add.commute)
  have lo: "filter (\<lambda>i. mask_bit (b # bm) i = want) [0..<8] = filter (\<lambda>i. bit b ([0..<8] ! i) = want) [0..<8]"
    by (rule filter_cong) (auto simp: mask_bit_def)
  have hi: "mask_bit (b # bm) (i + 8) = mask_bit bm i" for i
    by (simp add: mask_bit_def div_add_self2)
  show ?case
    unfolding up
    using Cons.prems
    by (simp add: sack_byteLoop_eq Cons.IH lo filter_map comp_def hi seq_add_add add.commute del: upt_rec_numeral)
qed

subsection \<open>Building a mask\<close>

lemma js_ceil_div_bounds:
  assumes "0 < b"
  shows "a \<le> js_ceil_div a b * b" and "js_ceil_div a b * b < a + b"
proof -
  have "b * ((- a) div b) + (- a) mod b = - a" by simp
  moreover have "0 \<le> (- a) mod b" "(- a) mod b < b" using assms by simp_all
  moreover have "js_ceil_div a b * b = - (b * ((- a) div b))"
    by (simp add: js_ceil_div_def mult.commute)
  ultimately show "a \<le> js_ceil_div a b * b" and "js_ceil_div a b * b < a + b" by linarith+
qed

lemma sack_setBit_length [simp]: "length (sack_setBit f L s bm) = length bm"
  by (simp add: sack_setBit_def Let_def)

lemma fold_setBit_length [simp]: "length (fold (sack_setBit f L) ss bm) = length bm"
  by (induction ss arbitrary: bm) simp_all

lemma bit_or_push_bit: "k < 8 \<Longrightarrow> j < 8 \<Longrightarrow> bit ((b :: byte) OR push_bit k 1) j = (bit b j \<or> j = k)"
  by (auto simp: bit_or_iff bit_push_bit_iff bit_exp_iff)

lemma mask_bit_update:
  assumes "j div 8 < length bm"
  shows "mask_bit (bm[j div 8 := bm ! (j div 8) OR push_bit (j mod 8) 1]) i = (mask_bit bm i \<or> i = j)"
proof (cases "i div 8 = j div 8")
  case True
  then have "i mod 8 = j mod 8 \<longleftrightarrow> i = j" by (metis div_mult_mod_eq)
  then show ?thesis
    using True assms bit_or_push_bit [of "j mod 8" "i mod 8"] by (simp add: mask_bit_def del: push_bit_of_1)
next
  case False
  then show ?thesis using assms by (auto simp: mask_bit_def)
qed

lemma mask_bit_setBit:
  assumes "L = int (length bm)" "i < 8 * length bm"
  shows "mask_bit (sack_setBit f L s bm) i = (mask_bit bm i \<or> (seq_ge s f \<and> seq_diff s f = int i))"
proof -
  define j where "j = nat (seq_diff s f)"
  have j: "seq_diff s f = int j" using seq_diff_bounds(1) [of s f] by (simp add: j_def)
  have b: "nat (int j div 8) = j div 8" "nat (int j mod 8) = j mod 8"
    by (simp_all add: nat_div_distrib nat_mod_distrib)
  show ?thesis
  proof (cases "seq_ge s f \<and> j < 8 * length bm")
    case True
    then have "sack_setBit f L s bm = bm[j div 8 := bm ! (j div 8) OR push_bit (j mod 8) 1]"
      using assms by (simp add: sack_setBit_def Let_def j b)
    then show ?thesis using True mask_bit_update [of j bm i] j by auto
  next
    case False
    then have "sack_setBit f L s bm = bm"
      using assms by (auto simp: sack_setBit_def Let_def j)
    then show ?thesis using False assms j by auto
  qed
qed

lemma mask_bit_fold:
  assumes "L = int (length bm)" "i < 8 * length bm"
  shows "mask_bit (fold (sack_setBit f L) ss bm) i
    = (mask_bit bm i \<or> (\<exists>s\<in>set ss. seq_ge s f \<and> seq_diff s f = int i))"
  using assms
proof (induction ss arbitrary: bm)
  case Nil
  then show ?case by simp
next
  case (Cons s ss)
  have "mask_bit (fold (sack_setBit f L) ss (sack_setBit f L s bm)) i
      = (mask_bit (sack_setBit f L s bm) i \<or> (\<exists>s\<in>set ss. seq_ge s f \<and> seq_diff s f = int i))"
    using Cons.prems by (intro Cons.IH) simp_all
  then show ?case using mask_bit_setBit [OF Cons.prems, of f s] by auto
qed

lemma mask_bit_zero: "i < 8 * n \<Longrightarrow> \<not> mask_bit (replicate n 0) i"
  by (simp add: mask_bit_def)

lemma sack_bitmaskLength_bounds:
  assumes "sorted (map (\<lambda>s. seq_diff s f) ss)" "s \<in> set ss"
  shows "seq_diff s f < sack_bitmaskLength f ss * 8"
proof -
  let ?d = "\<lambda>s. seq_diff s f"
  have ne: "ss \<noteq> []" using assms by auto
  obtain k where k: "k < length ss" "s = ss ! k" using assms(2) by (metis in_set_conv_nth)
  have "?d s \<le> ?d (ss ! (length ss - 1))"
    using sorted_nth_mono [OF assms(1), of k "length ss - 1"] k by simp
  moreover have "?d (ss ! (length ss - 1)) + 1 \<le> js_ceil_div (?d (ss ! (length ss - 1)) + 1) 8 * 8"
    by (rule js_ceil_div_bounds) simp
  moreover have "js_ceil_div (?d (ss ! (length ss - 1)) + 1) 8
      \<le> js_ceil_div (js_ceil_div (?d (ss ! (length ss - 1)) + 1) 8) 4 * 4"
    by (rule js_ceil_div_bounds) simp
  ultimately show ?thesis using ne by (simp add: sack_bitmaskLength_def Let_def)
qed

lemma sack_bitmaskLength_range:
  "4 \<le> sack_bitmaskLength f ss" "sack_bitmaskLength f ss \<le> 8192" "sack_bitmaskLength f ss mod 4 = 0"
proof -
  let ?t = "seq_diff (ss ! (length ss - 1)) f + 1"
  let ?c = "js_ceil_div (js_ceil_div ?t 8) 4"
  have "js_ceil_div ?t 8 * 8 < ?t + 8" "?c * 4 < js_ceil_div ?t 8 + 4"
    by (rule js_ceil_div_bounds; simp)+
  moreover from this(1) have "js_ceil_div ?t 8 \<le> 8192"
    using seq_diff_bounds(2) [of "ss ! (length ss - 1)" f] by linarith
  ultimately have "?c \<le> 2048" by linarith
  then have "?c * 4 \<le> 8192" by linarith
  then show "4 \<le> sack_bitmaskLength f ss" "sack_bitmaskLength f ss \<le> 8192"
    "sack_bitmaskLength f ss mod 4 = 0"
    by (simp_all add: sack_bitmaskLength_def Let_def max_def)
qed

subsection \<open>Round trip\<close>

lemma sack_create_None: "sack_create ack seqs = None \<longleftrightarrow> seqs = []"
  by (simp add: sack_create_def Let_def)

lemma sack_create_length:
  assumes "sack_create ack seqs = Some k"
  shows "length (sack_bitmask k) mod 4 = 0" "4 \<le> length (sack_bitmask k)" "length (sack_bitmask k) \<le> 8192"
    and "int (length (sack_bitmask k))
      = sack_bitmaskLength (seq_add ack 2) (sort_key (\<lambda>s. seq_diff s (seq_add ack 2)) seqs)"
    and "sack_base k = ack"
proof -
  let ?L = "sack_bitmaskLength (seq_add ack 2) (sort_key (\<lambda>s. seq_diff s (seq_add ack 2)) seqs)"
  have r: "4 \<le> ?L" "?L \<le> 8192" "?L mod 4 = 0" by (rule sack_bitmaskLength_range)+
  have "length (sack_bitmask k) = nat ?L" and b: "sack_base k = ack"
    using assms by (auto simp: sack_create_def Let_def split: if_splits)
  then have eq: "int (length (sack_bitmask k)) = ?L" using r by simp
  then have "int (length (sack_bitmask k) mod 4) = 0" using r by (simp add: zmod_int)
  with eq r b show "length (sack_bitmask k) mod 4 = 0" "4 \<le> length (sack_bitmask k)"
    "length (sack_bitmask k) \<le> 8192" "int (length (sack_bitmask k)) = ?L" "sack_base k = ack"
    by simp_all
qed

lemma sack_create_mask_bit:
  assumes "sack_create ack seqs = Some k" "i < 8 * length (sack_bitmask k)"
  shows "mask_bit (sack_bitmask k) i
    \<longleftrightarrow> (\<exists>s\<in>set seqs. seq_ge s (seq_add ack 2) \<and> seq_diff s (seq_add ack 2) = int i)"
proof -
  let ?f = "seq_add ack 2" let ?ss = "sort_key (\<lambda>s. seq_diff s ?f) seqs"
  let ?L = "sack_bitmaskLength ?f ?ss"
  have k: "sack_bitmask k = fold (sack_setBit ?f ?L) ?ss (replicate (nat ?L) 0)"
    using assms(1) by (auto simp: sack_create_def Let_def split: if_splits)
  have "0 \<le> ?L" using sack_bitmaskLength_range(1) [of ?f ?ss] by simp
  then show ?thesis
    using assms(2) mask_bit_fold [of ?L "replicate (nat ?L) 0" i ?f ?ss] mask_bit_zero [of i "nat ?L"]
    by (simp add: k)
qed

text \<open>The window a mask covers: every sequence number at a distance below its bit count.\<close>

definition sack_window :: "sack \<Rightarrow> int set" where
  "sack_window k = {s. u16 s \<and> seq_diff s (seq_add (sack_base k) 2) < 8 * int (length (sack_bitmask k))}"

lemma seq_add_image:
  "u16 f \<Longrightarrow> n \<le> 65536 \<Longrightarrow>
   (\<lambda>i. seq_add f (int i)) ` {i. i < n \<and> P (int i)} = {s. u16 s \<and> seq_diff s f < int n \<and> P (seq_diff s f)}"
proof (intro set_eqI iffI)
  fix s assume "u16 f" "n \<le> 65536" "s \<in> (\<lambda>i. seq_add f (int i)) ` {i. i < n \<and> P (int i)}"
  then show "s \<in> {s. u16 s \<and> seq_diff s f < int n \<and> P (seq_diff s f)}"
    by (auto simp: seq_diff_add)
next
  fix s assume "s \<in> {s. u16 s \<and> seq_diff s f < int n \<and> P (seq_diff s f)}"
  then have s: "u16 s" "seq_diff s f < int n" "P (seq_diff s f)" by auto
  then have "nat (seq_diff s f) < n" "s = seq_add f (int (nat (seq_diff s f)))"
    using seq_diff_bounds(1) [of s f] by (simp_all add: seq_add_diff nat_less_iff)
  then show "s \<in> (\<lambda>i. seq_add f (int i)) ` {i. i < n \<and> P (int i)}"
    using s(3) seq_diff_bounds(1) [of s f] by (intro image_eqI [of _ _ "nat (seq_diff s f)"]) simp_all
qed

lemma sack_received_list:
  "sack_getRemoteReceivedSeqNrs k
   = map (\<lambda>i. seq_add (seq_add (sack_base k) 2) (int i))
       (filter (mask_bit (sack_bitmask k)) [0..<8 * length (sack_bitmask k)])"
  by (simp add: sack_getRemoteReceivedSeqNrs_def sack_maskLoop_eq)

lemma sack_notReceived_list:
  "sack_getRemoteNotReceivedSeqNrs k
   = seq_add (sack_base k) 1 # map (\<lambda>i. seq_add (seq_add (sack_base k) 2) (int i))
       (filter (\<lambda>i. \<not> mask_bit (sack_bitmask k) i) [0..<8 * length (sack_bitmask k)])"
  by (simp add: sack_getRemoteNotReceivedSeqNrs_def sack_maskLoop_eq)

lemma sorted_map_filter_upt: "sorted (map (\<lambda>i. int i) (filter P [0..<n]))"
  by (rule sorted_filter) (simp add: sorted_iff_nth_mono)

lemma sack_received_order:
  assumes "length (sack_bitmask k) \<le> 8192"
  shows "distinct (sack_getRemoteReceivedSeqNrs k)"
    and "sorted (map (\<lambda>s. seq_diff s (seq_add (sack_base k) 2)) (sack_getRemoteReceivedSeqNrs k))"
proof -
  let ?f = "seq_add (sack_base k) 2" let ?n = "8 * length (sack_bitmask k)"
  let ?is = "filter (mask_bit (sack_bitmask k)) [0..<?n]"
  have d: "map (\<lambda>s. seq_diff s ?f) (sack_getRemoteReceivedSeqNrs k) = map int ?is"
    using assms by (auto simp: sack_received_list seq_diff_add)
  show "sorted (map (\<lambda>s. seq_diff s ?f) (sack_getRemoteReceivedSeqNrs k))"
    unfolding d by (rule sorted_map_filter_upt)
  have "distinct (map int ?is)" by (simp add: distinct_map)
  then have "distinct (map (\<lambda>s. seq_diff s ?f) (sack_getRemoteReceivedSeqNrs k))" by (simp only: d)
  then show "distinct (sack_getRemoteReceivedSeqNrs k)" by (rule distinct_map [THEN iffD1, THEN conjunct1])
qed

lemma sack_create_sets:
  assumes u: "\<forall>s\<in>set seqs. u16 s" and k: "sack_create ack seqs = Some k"
  shows "set (sack_getRemoteReceivedSeqNrs k) = {s \<in> set seqs. seq_ge s (seq_add ack 2)}"
    and "set (sack_getRemoteNotReceivedSeqNrs k)
      = insert (seq_add ack 1) (sack_window k - set (sack_getRemoteReceivedSeqNrs k))"
proof -
  let ?f = "seq_add ack 2" let ?n = "8 * length (sack_bitmask k)"
  let ?P = "\<lambda>d. \<exists>s\<in>set seqs. seq_ge s ?f \<and> seq_diff s ?f = d"
  have len: "?n \<le> 65536" and base: "sack_base k = ack" using sack_create_length [OF k] by simp_all
  have "{i. i < ?n \<and> mask_bit (sack_bitmask k) i} = {i. i < ?n \<and> ?P (int i)}"
    "{i. i < ?n \<and> \<not> mask_bit (sack_bitmask k) i} = {i. i < ?n \<and> \<not> ?P (int i)}"
    using sack_create_mask_bit [OF k] by blast+
  note bits = this
  have recv: "set (sack_getRemoteReceivedSeqNrs k) = {s. u16 s \<and> seq_diff s ?f < int ?n \<and> ?P (seq_diff s ?f)}"
    using seq_add_image [of ?f ?n ?P] len
    by (simp only: sack_received_list base set_map set_filter set_upt atLeast0LessThan lessThan_iff
        bits seq_add_u16 simp_thms)
  have cover: "seq_diff s ?f < int ?n" if "s \<in> set seqs" for s
  proof -
    have "seq_diff s ?f < sack_bitmaskLength ?f (sort_key (\<lambda>s. seq_diff s ?f) seqs) * 8"
      using that by (intro sack_bitmaskLength_bounds) simp_all
    then show ?thesis using sack_create_length(4) [OF k] by simp
  qed
  have inj: "s \<in> set seqs \<and> seq_ge s ?f" if "u16 s" "?P (seq_diff s ?f)" for s
    using that u by (auto simp: seq_diff_inj)
  show r: "set (sack_getRemoteReceivedSeqNrs k) = {s \<in> set seqs. seq_ge s ?f}"
    unfolding recv using cover inj u by blast
  have "set (sack_getRemoteNotReceivedSeqNrs k)
      = insert (seq_add ack 1) {s. u16 s \<and> seq_diff s ?f < int ?n \<and> \<not> ?P (seq_diff s ?f)}"
    using seq_add_image [of ?f ?n "\<lambda>d. \<not> ?P d"] len
    by (simp only: sack_notReceived_list base list.set set_map set_filter set_upt atLeast0LessThan
        lessThan_iff bits seq_add_u16 simp_thms)
  then show "set (sack_getRemoteNotReceivedSeqNrs k)
      = insert (seq_add ack 1) (sack_window k - set (sack_getRemoteReceivedSeqNrs k))"
    unfolding recv sack_window_def base by auto
qed

text \<open>
  C20. Selective acknowledgement is a faithful round trip: when the receiver builds the extension
  from 16-bit sequence numbers, the peer reads back exactly the numbers at or after ack+2 (in
  wrap-safe order), each once and in forward order; the numbers it reads as missing are ack+1
  and the rest of the covered window; and the mask survives its own parser.
\<close>

theorem sack_roundtrip:
  assumes "\<forall>s\<in>set seqs. u16 s" and "sack_create ack seqs = Some k"
  shows "set (sack_getRemoteReceivedSeqNrs k) = {s \<in> set seqs. seq_ge s (seq_add ack 2)}
    \<and> distinct (sack_getRemoteReceivedSeqNrs k)
    \<and> sorted (map (\<lambda>s. seq_diff s (seq_add ack 2)) (sack_getRemoteReceivedSeqNrs k))
    \<and> set (sack_getRemoteNotReceivedSeqNrs k)
        = insert (seq_add ack 1) (sack_window k - {s \<in> set seqs. seq_ge s (seq_add ack 2)})
    \<and> sack_createFromBytes ack (sack_bitmask k) = Inr k"
proof (intro conjI)
  note len = sack_create_length [OF assms(2)]
  show "set (sack_getRemoteReceivedSeqNrs k) = {s \<in> set seqs. seq_ge s (seq_add ack 2)}"
    by (rule sack_create_sets(1) [OF assms])
  then show "set (sack_getRemoteNotReceivedSeqNrs k)
      = insert (seq_add ack 1) (sack_window k - {s \<in> set seqs. seq_ge s (seq_add ack 2)})"
    using sack_create_sets(2) [OF assms] by simp
  show "distinct (sack_getRemoteReceivedSeqNrs k)"
    using len by (intro sack_received_order)
  show "sorted (map (\<lambda>s. seq_diff s (seq_add ack 2)) (sack_getRemoteReceivedSeqNrs k))"
    using sack_received_order(2) [of k] len by simp
  show "sack_createFromBytes ack (sack_bitmask k) = Inr k"
    using len by (simp add: sack_createFromBytes_def)
qed

theorem sack_roundtrip_witness:
  "\<exists>k. sack_create 65533 [2, 65535] = Some k
     \<and> set (sack_getRemoteReceivedSeqNrs k) = {s \<in> set [2, 65535]. seq_ge s (seq_add 65533 2)}
     \<and> sack_createFromBytes 65533 (sack_bitmask k) = Inr k"
proof -
  have u: "\<forall>s\<in>set [2, 65535]. u16 s" by (simp add: u16_def)
  obtain k where k: "sack_create 65533 [2, 65535] = Some k"
    using sack_create_None [of 65533 "[2, 65535]"] by auto
  show ?thesis using k sack_roundtrip [OF u k] by blast
qed

end
