(* ===== verification/Packet.thy ===== *)
theory Packet imports Sack begin

text \<open>
  The packet codec (\<open>src/utp_packet.ts\<close>, \<open>src/utp_ext_bits.ts\<close>): the packet with its extension
  chain, \<open>toBytes\<close>, \<open>fromBytes\<close> with every read that can throw, \<open>length\<close> and \<open>isPacket\<close>.
  The type field is a number, as in the source, since a decoded packet may carry any of 0..15.
\<close>

subsection \<open>Data\<close>

datatype utp_ext = SackExt sack | BitsExt "byte list"

definition ST_DATA :: int where "ST_DATA = 0"
definition ST_FIN :: int where "ST_FIN = 1"
definition ST_STATE :: int where "ST_STATE = 2"
definition ST_RESET :: int where "ST_RESET = 3"
definition ST_SYN :: int where "ST_SYN = 4"

lemmas packet_types = ST_DATA_def ST_FIN_def ST_STATE_def ST_RESET_def ST_SYN_def

fun ext_type :: "utp_ext \<Rightarrow> int" where
  "ext_type (SackExt k) = 1"
| "ext_type (BitsExt b) = 2"

fun ext_toBytes :: "utp_ext \<Rightarrow> byte list" where
  "ext_toBytes (SackExt k) = sack_bitmask k"
| "ext_toBytes (BitsExt b) = b"

definition extBits_createFromBytes :: "byte list \<Rightarrow> js_error + utp_ext" where
  "extBits_createFromBytes payload =
     (if length payload \<noteq> 8 then Inl (ExtBitsLengthError (length payload)) else Inr (BitsExt payload))"

definition extBits_create :: utp_ext where
  "extBits_create = BitsExt (replicate 8 0)"

text \<open>
  \<open>pk_tsDiff = None\<close> is the value \<open>NaN\<close>: the difference against a receive time that is still
  undefined. \<open>setUint32\<close> writes it as 0.
\<close>

record packet =
  pk_type :: int
  pk_version :: int
  pk_extension :: int
  pk_connId :: int
  pk_timestamp :: int
  pk_tsDiff :: "int option"
  pk_windowSize :: int
  pk_seqNr :: int
  pk_ackNr :: int
  pk_extensions :: "utp_ext list"
  pk_data :: "byte list option"

definition sackExtension :: "packet \<Rightarrow> sack option" where
  "sackExtension p =
     (case find (\<lambda>e. ext_type e = 1) (pk_extensions p) of Some (SackExt k) \<Rightarrow> Some k | _ \<Rightarrow> None)"

definition HEADER_SIZE :: nat where "HEADER_SIZE = 20"
definition EXTENSION_HEADER_SIZE :: nat where "EXTENSION_HEADER_SIZE = 2"
definition MIN_PACKET_SIZE :: nat where "MIN_PACKET_SIZE = 20"
definition MAX_PACKET_SIZE :: nat where "MAX_PACKET_SIZE = 65536"

lemmas packet_sizes = HEADER_SIZE_def EXTENSION_HEADER_SIZE_def MIN_PACKET_SIZE_def MAX_PACKET_SIZE_def

subsection \<open>Encoding\<close>

text \<open>
  \<open>toBytes\<close> fills a buffer of exactly \<open>length()\<close> bytes from front to back, so the buffer is the
  concatenation of the parts. The length octet of an extension keeps only its low 8 bits.
\<close>

definition packet_length :: "packet \<Rightarrow> nat" where
  "packet_length p =
     HEADER_SIZE
     + (EXTENSION_HEADER_SIZE * length (pk_extensions p)
        + sum_list (map (\<lambda>e. length (ext_toBytes e)) (pk_extensions p))
        + (case pk_data p of None \<Rightarrow> 0 | Some d \<Rightarrow> length d))"

fun toBytes_exts :: "utp_ext list \<Rightarrow> byte list" where
  "toBytes_exts [] = []"
| "toBytes_exts (e # es) =
     (let nextExtType = (case es of [] \<Rightarrow> 0 | e' # _ \<Rightarrow> ext_type e'); payload = ext_toBytes e
      in put_uint8 nextExtType @ put_uint8 (int (length payload)) @ payload @ toBytes_exts es)"

definition toBytes_header :: "packet \<Rightarrow> byte list" where
  "toBytes_header p =
     put_uint8 (js_or (js_shl (pk_type p) 4) (pk_version p))
     @ put_uint8 (pk_extension p) @ put_uint16 (pk_connId p) @ put_uint32 (pk_timestamp p)
     @ put_uint32 (case pk_tsDiff p of None \<Rightarrow> 0 | Some d \<Rightarrow> d)
     @ put_uint32 (pk_windowSize p) @ put_uint16 (pk_seqNr p) @ put_uint16 (pk_ackNr p)"

definition packet_toBytes :: "packet \<Rightarrow> byte list" where
  "packet_toBytes p =
     toBytes_header p @ toBytes_exts (pk_extensions p) @ (case pk_data p of None \<Rightarrow> [] | Some d \<Rightarrow> d)"

subsection \<open>Decoding\<close>

definition fromBytes_ext :: "int \<Rightarrow> int \<Rightarrow> byte list \<Rightarrow> js_error + utp_ext list" where
  "fromBytes_ext ackNr extensionType payload =
     (if extensionType = 1 then
        err_bind (sack_createFromBytes ackNr payload) (\<lambda>k. Inr [SackExt k])
      else if extensionType = 2 then
        err_bind (extBits_createFromBytes payload) (\<lambda>e. Inr [e])
      else Inr [])"

lemma get_uint8_in_range: "get_uint8 bs i = Inr n \<Longrightarrow> i < length bs"
  by (simp add: get_uint8_def split: if_splits)

function fromBytes_loop ::
  "byte list \<Rightarrow> int \<Rightarrow> int \<Rightarrow> nat \<Rightarrow> utp_ext list \<Rightarrow> js_error + utp_ext list \<times> nat" where
  "fromBytes_loop bytes ackNr extensionType offset exts =
     (if extensionType > 0 then
        err_bind (get_uint8 bytes offset) (\<lambda>nextExtensionType.
        err_bind (get_uint8 bytes (offset + 1)) (\<lambda>extensionLength.
        err_bind (fromBytes_ext ackNr extensionType
                    (js_slice bytes (offset + EXTENSION_HEADER_SIZE)
                       (offset + EXTENSION_HEADER_SIZE + nat extensionLength))) (\<lambda>new.
        fromBytes_loop bytes ackNr nextExtensionType
          (offset + (EXTENSION_HEADER_SIZE + nat extensionLength)) (exts @ new))))
      else Inr (exts, offset))"
  by pat_completeness auto
termination
  by (relation "measure (\<lambda>(bytes, ackNr, t, offset, exts). length bytes - offset)")
    (auto simp: packet_sizes dest: get_uint8_in_range)

declare fromBytes_loop.simps [simp del]

definition packet_fromBytes :: "byte list \<Rightarrow> js_error + packet" where
  "packet_fromBytes bytes =
     err_bind (get_uint8 bytes 0) (\<lambda>b0.
     err_bind (get_uint8 bytes 1) (\<lambda>extension.
     err_bind (get_uint16 bytes 2) (\<lambda>connId.
     err_bind (get_uint32 bytes 4) (\<lambda>timestamp.
     err_bind (get_uint32 bytes 8) (\<lambda>tsDiff.
     err_bind (get_uint32 bytes 12) (\<lambda>windowSize.
     err_bind (get_uint16 bytes 16) (\<lambda>seqNr.
     err_bind (get_uint16 bytes 18) (\<lambda>ackNr.
     err_bind (fromBytes_loop bytes ackNr extension HEADER_SIZE []) (\<lambda>(exts, offset).
     Inr \<lparr>pk_type = js_shr b0 4, pk_version = js_and b0 15, pk_extension = extension,
          pk_connId = connId, pk_timestamp = timestamp, pk_tsDiff = Some tsDiff,
          pk_windowSize = windowSize, pk_seqNr = seqNr, pk_ackNr = ackNr,
          pk_extensions = exts,
          pk_data = (if offset < length bytes then Some (drop offset bytes) else None)\<rparr>)))))))))"

definition packet_isPacket :: "byte list \<Rightarrow> js_error + bool" where
  "packet_isPacket buffer =
     (if length buffer < MIN_PACKET_SIZE then Inr False
      else if length buffer > MAX_PACKET_SIZE then Inr False
      else
        err_bind (packet_fromBytes buffer) (\<lambda>p.
          if pk_version p \<noteq> 1 then Inr False
          else if pk_type p < 0 \<or> pk_type p > 4 then Inr False
          else if pk_extension p < 0 \<or> pk_extension p > 255 then Inr False
          else if pk_connId p < 0 \<or> pk_connId p > 65535 then Inr False
          else if pk_timestamp p < 0 then Inr False
          else if (case pk_tsDiff p of None \<Rightarrow> False | Some d \<Rightarrow> d < 0) then Inr False
          else if pk_windowSize p < 0 then Inr False
          else if pk_seqNr p < 0 \<or> pk_seqNr p > 65535 then Inr False
          else if pk_ackNr p < 0 \<or> pk_ackNr p > 65535 then Inr False
          else Inr True))"

subsection \<open>Reading back what was written\<close>

lemma get_put_uint8: "length pre = i \<Longrightarrow> get_uint8 (pre @ put_uint8 n @ post) i = Inr (n mod 256)"
  by (auto simp: get_uint8_def put_uint8_def nth_append uint_byte_of_int)

lemma get_uint16_append:
  "length pre = i \<Longrightarrow> get_uint16 (pre @ [a, b] @ post) i = Inr (uint a * 256 + uint b)"
  by (auto simp: get_uint16_def nth_append)

lemma get_uint32_append:
  "length pre = i \<Longrightarrow> get_uint32 (pre @ [a, b, c, d] @ post) i
     = Inr (uint a * 16777216 + uint b * 65536 + uint c * 256 + uint d)"
  by (auto simp: get_uint32_def nth_append)

lemma get_put_uint16: "length pre = i \<Longrightarrow> get_uint16 (pre @ put_uint16 n @ post) i = Inr (n mod 65536)"
  unfolding put_uint16_def by (simp only: get_uint16_append uint_byte_of_int mod_div_digits2)

lemma get_put_uint32: "length pre = i \<Longrightarrow> get_uint32 (pre @ put_uint32 n @ post) i = Inr (n mod 4294967296)"
  unfolding put_uint32_def by (simp only: get_uint32_append uint_byte_of_int mod_div_digits4)

lemma js_slice_middle: "length pre = i \<Longrightarrow> length xs = k \<Longrightarrow> js_slice (pre @ xs @ post) i (i + k) = xs"
  by (simp add: js_slice_def)

lemma length_toBytes_header [simp, size_simps]: "length (toBytes_header p) = 20"
  by (simp add: toBytes_header_def)

lemma length_toBytes_exts [size_simps]:
  "length (toBytes_exts es) = 2 * length es + sum_list (map (\<lambda>e. length (ext_toBytes e)) es)"
  by (induction es) (simp_all add: Let_def)

lemma length_packet_toBytes: "length (packet_toBytes p) = packet_length p"
  by (simp add: packet_toBytes_def packet_length_def length_toBytes_exts packet_sizes split: option.splits)

definition first_ext_type :: "utp_ext list \<Rightarrow> int" where
  "first_ext_type es = (case es of [] \<Rightarrow> 0 | e # _ \<Rightarrow> ext_type e)"

definition ext_ok :: "int \<Rightarrow> utp_ext \<Rightarrow> bool" where
  "ext_ok ackNr e = (case e of
     SackExt k \<Rightarrow> sack_base k = ackNr \<and> length (sack_bitmask k) mod 4 = 0 \<and> length (sack_bitmask k) \<le> 255
   | BitsExt b \<Rightarrow> length b = 8)"

lemma first_ext_type_simps [simp]: "first_ext_type [] = 0" "first_ext_type (e # es) = ext_type e"
  by (simp_all add: first_ext_type_def)

lemma ext_type_range: "0 < ext_type e" "ext_type e < 256"
  by (cases e; simp)+

lemma first_ext_type_mod [simp]: "first_ext_type es mod 256 = first_ext_type es"
  using ext_type_range by (cases es) (simp_all add: mod_pos_pos_trivial less_imp_le)

lemma fromBytes_ext_toBytes: "ext_ok ackNr e \<Longrightarrow> fromBytes_ext ackNr (ext_type e) (ext_toBytes e) = Inr [e]"
  by (cases e) (auto simp: fromBytes_ext_def ext_ok_def sack_createFromBytes_def extBits_createFromBytes_def)

lemma ext_ok_length: "ext_ok ackNr e \<Longrightarrow> length (ext_toBytes e) < 256"
  by (cases e) (auto simp: ext_ok_def)

lemma fromBytes_loop_exts:
  assumes "\<forall>e\<in>set es. ext_ok ackNr e" "length pre = i"
  shows "fromBytes_loop (pre @ toBytes_exts es @ post) ackNr (first_ext_type es) i exts
    = Inr (exts @ es, i + length (toBytes_exts es))"
  using assms
proof (induction es arbitrary: pre exts i)
  case Nil
  then show ?case by (simp add: fromBytes_loop.simps)
next
  case (Cons e es)
  let ?pl = "ext_toBytes e"
  let ?b = "pre @ toBytes_exts (e # es) @ post"
  have ok: "ext_ok ackNr e" and len: "length ?pl < 256"
    using Cons.prems ext_ok_length by auto
  have next_type: "(case es of [] \<Rightarrow> 0 | e' # _ \<Rightarrow> ext_type e') = first_ext_type es"
    by (simp add: first_ext_type_def)
  have b1: "?b = pre @ put_uint8 (first_ext_type es)
      @ (put_uint8 (int (length ?pl)) @ ?pl @ toBytes_exts es @ post)"
    and b2: "?b = (pre @ put_uint8 (first_ext_type es))
      @ put_uint8 (int (length ?pl)) @ (?pl @ toBytes_exts es @ post)"
    and b3: "?b = (pre @ put_uint8 (first_ext_type es) @ put_uint8 (int (length ?pl)))
      @ ?pl @ (toBytes_exts es @ post)"
    and b4: "?b = (pre @ put_uint8 (first_ext_type es) @ put_uint8 (int (length ?pl)) @ ?pl)
      @ toBytes_exts es @ post"
    by (simp_all add: Let_def next_type)
  have g1: "get_uint8 ?b i = Inr (first_ext_type es)"
    unfolding b1 using Cons.prems by (subst get_put_uint8) simp_all
  have g2: "get_uint8 ?b (i + 1) = Inr (int (length ?pl))"
    unfolding b2 using Cons.prems len by (subst get_put_uint8) simp_all
  have g3: "js_slice ?b (i + 2) (i + 2 + length ?pl) = ?pl"
    unfolding b3 using Cons.prems by (intro js_slice_middle) simp_all
  have IH: "fromBytes_loop ?b ackNr (first_ext_type es) (i + (2 + length ?pl)) (exts @ [e])
      = Inr ((exts @ [e]) @ es, (i + (2 + length ?pl)) + length (toBytes_exts es))"
    unfolding b4 using Cons.prems by (intro Cons.IH) simp_all
  have "fromBytes_loop ?b ackNr (ext_type e) i exts
      = fromBytes_loop ?b ackNr (first_ext_type es) (i + (2 + length ?pl)) (exts @ [e])"
    using ext_type_range(1) [of e]
    by (subst fromBytes_loop.simps)
      (simp only: if_True g1 g2 g3 err_bind_simps packet_sizes nat_int fromBytes_ext_toBytes [OF ok])
  also note IH
  finally show ?case by (simp add: Let_def)
qed

lemma first_octet:
  assumes "0 \<le> v" "v < 16"
  shows "js_or (js_shl t 4) v mod 256 = push_bit 4 (take_bit 4 t) OR v"
proof -
  have v: "take_bit 8 v = v" using assms by (simp add: take_bit_int_eq_self)
  have "js_or (js_shl t 4) v mod 256 = take_bit 8 (js_or (js_shl t 4) v)"
    by (simp add: take_bit_eq_mod)
  also have "\<dots> = take_bit 8 (push_bit 4 t) OR v"
    by (simp add: js_or_def js_shl_def take_bit_or to_int32_take_bit take_bit_push_bit v)
  finally show ?thesis by (simp add: take_bit_push_bit)
qed

lemma first_octet_fields:
  assumes "0 \<le> v" "v < 16"
  shows "js_shr (js_or (js_shl t 4) v mod 256) 4 = t mod 16"
    and "js_and (js_or (js_shl t 4) v mod 256) 15 = v"
proof -
  let ?b = "push_bit 4 (take_bit 4 t) OR v"
  have v: "take_bit 4 v = v" "drop_bit 4 v = 0"
    using assms by (simp_all add: take_bit_int_eq_self drop_bit_eq_div)
  have b: "js_or (js_shl t 4) v mod 256 = ?b" by (rule first_octet [OF assms])
  have "0 \<le> ?b \<and> ?b < 256"
    unfolding b [symmetric] by simp
  then have id: "to_int32 ?b = ?b" using to_int32_id [of ?b] by linarith
  have "js_shr ?b 4 = drop_bit 4 (push_bit 4 (take_bit 4 t)) OR drop_bit 4 v"
    by (simp only: js_shr_def id drop_bit_or)
  also have "\<dots> = take_bit 4 t" by (simp add: v drop_bit_push_bit)
  also have "\<dots> = t mod 16" by (simp add: take_bit_eq_mod)
  finally show "js_shr (js_or (js_shl t 4) v mod 256) 4 = t mod 16" by (simp only: b)
  have m: "to_int32 15 = mask 4" by (simp add: to_int32_id mask_eq_exp_minus_1)
  have "js_and ?b 15 = take_bit 4 ?b"
    unfolding js_and_def id m by (rule take_bit_eq_mask [symmetric])
  also have "\<dots> = v" by (simp add: take_bit_or take_bit_push_bit v)
  finally show "js_and (js_or (js_shl t 4) v mod 256) 15 = v" by (simp only: b)
qed

lemma header_reads:
  "get_uint8 (toBytes_header p @ r) 0 = Inr (js_or (js_shl (pk_type p) 4) (pk_version p) mod 256)"
  "get_uint8 (toBytes_header p @ r) 1 = Inr (pk_extension p mod 256)"
  "get_uint16 (toBytes_header p @ r) 2 = Inr (pk_connId p mod 65536)"
  "get_uint32 (toBytes_header p @ r) 4 = Inr (pk_timestamp p mod 4294967296)"
  "get_uint32 (toBytes_header p @ r) 8
     = Inr ((case pk_tsDiff p of None \<Rightarrow> 0 | Some d \<Rightarrow> d) mod 4294967296)"
  "get_uint32 (toBytes_header p @ r) 12 = Inr (pk_windowSize p mod 4294967296)"
  "get_uint16 (toBytes_header p @ r) 16 = Inr (pk_seqNr p mod 65536)"
  "get_uint16 (toBytes_header p @ r) 18 = Inr (pk_ackNr p mod 65536)"
proof -
  let ?f = "put_uint8 (js_or (js_shl (pk_type p) 4) (pk_version p))"
  let ?e = "put_uint8 (pk_extension p)" let ?c = "put_uint16 (pk_connId p)"
  let ?t = "put_uint32 (pk_timestamp p)" let ?w = "put_uint32 (pk_windowSize p)"
  let ?d = "put_uint32 (case pk_tsDiff p of None \<Rightarrow> 0 | Some d \<Rightarrow> d)"
  let ?s = "put_uint16 (pk_seqNr p)" let ?a = "put_uint16 (pk_ackNr p)"
  note h = toBytes_header_def [of p]
  show "get_uint8 (toBytes_header p @ r) 0 = Inr (js_or (js_shl (pk_type p) 4) (pk_version p) mod 256)"
    using get_put_uint8 [of "[]" 0 _ "?e @ ?c @ ?t @ ?d @ ?w @ ?s @ ?a @ r"] by (simp add: h)
  show "get_uint8 (toBytes_header p @ r) 1 = Inr (pk_extension p mod 256)"
    using get_put_uint8 [of "?f" 1 _ "?c @ ?t @ ?d @ ?w @ ?s @ ?a @ r"] by (simp add: h)
  show "get_uint16 (toBytes_header p @ r) 2 = Inr (pk_connId p mod 65536)"
    using get_put_uint16 [of "?f @ ?e" 2 _ "?t @ ?d @ ?w @ ?s @ ?a @ r"] by (simp add: h)
  show "get_uint32 (toBytes_header p @ r) 4 = Inr (pk_timestamp p mod 4294967296)"
    using get_put_uint32 [of "?f @ ?e @ ?c" 4 _ "?d @ ?w @ ?s @ ?a @ r"] by (simp add: h)
  show "get_uint32 (toBytes_header p @ r) 8
     = Inr ((case pk_tsDiff p of None \<Rightarrow> 0 | Some d \<Rightarrow> d) mod 4294967296)"
    using get_put_uint32 [of "?f @ ?e @ ?c @ ?t" 8 _ "?w @ ?s @ ?a @ r"] by (simp add: h)
  show "get_uint32 (toBytes_header p @ r) 12 = Inr (pk_windowSize p mod 4294967296)"
    using get_put_uint32 [of "?f @ ?e @ ?c @ ?t @ ?d" 12 _ "?s @ ?a @ r"] by (simp add: h)
  show "get_uint16 (toBytes_header p @ r) 16 = Inr (pk_seqNr p mod 65536)"
    using get_put_uint16 [of "?f @ ?e @ ?c @ ?t @ ?d @ ?w" 16 _ "?a @ r"] by (simp add: h)
  show "get_uint16 (toBytes_header p @ r) 18 = Inr (pk_ackNr p mod 65536)"
    using get_put_uint16 [of "?f @ ?e @ ?c @ ?t @ ?d @ ?w @ ?s" 18 _ "r"] by (simp add: h)
qed

text \<open>
  What the wire keeps of a packet: the low bits of every numeric field, an undefined timestamp
  difference as 0, and an empty payload as none.
\<close>

definition packet_wire :: "packet \<Rightarrow> packet" where
  "packet_wire p =
     \<lparr>pk_type = pk_type p mod 16, pk_version = pk_version p, pk_extension = pk_extension p,
      pk_connId = pk_connId p mod 65536, pk_timestamp = pk_timestamp p mod 4294967296,
      pk_tsDiff = Some ((case pk_tsDiff p of None \<Rightarrow> 0 | Some d \<Rightarrow> d) mod 4294967296),
      pk_windowSize = pk_windowSize p mod 4294967296,
      pk_seqNr = pk_seqNr p mod 65536, pk_ackNr = pk_ackNr p mod 65536,
      pk_extensions = pk_extensions p,
      pk_data = (if pk_data p = Some [] then None else pk_data p)\<rparr>"

definition packet_encodable :: "packet \<Rightarrow> bool" where
  "packet_encodable p \<longleftrightarrow>
     0 \<le> pk_version p \<and> pk_version p < 16
     \<and> pk_extension p = first_ext_type (pk_extensions p)
     \<and> (\<forall>e\<in>set (pk_extensions p). ext_ok (pk_ackNr p mod 65536) e)"

lemma packet_fromBytes_toBytes:
  assumes "packet_encodable p"
  shows "packet_fromBytes (packet_toBytes p) = Inr (packet_wire p)"
proof -
  let ?d = "case pk_data p of None \<Rightarrow> [] | Some d \<Rightarrow> d"
  let ?r = "toBytes_exts (pk_extensions p) @ ?d"
  have e: "pk_extension p mod 256 = pk_extension p" "pk_extension p = first_ext_type (pk_extensions p)"
    and v: "0 \<le> pk_version p" "pk_version p < 16"
    using assms by (auto simp: packet_encodable_def)
  have loop: "fromBytes_loop (toBytes_header p @ ?r) (pk_ackNr p mod 65536) (pk_extension p) HEADER_SIZE []
      = Inr (pk_extensions p, 20 + length (toBytes_exts (pk_extensions p)))"
    using fromBytes_loop_exts [of "pk_extensions p" "pk_ackNr p mod 65536" "toBytes_header p" 20 ?d "[]"] assms e
    by (simp add: packet_encodable_def packet_sizes)
  have data: "(if 20 + length (toBytes_exts (pk_extensions p)) < length (toBytes_header p @ ?r)
      then Some (drop (20 + length (toBytes_exts (pk_extensions p))) (toBytes_header p @ ?r)) else None)
      = (if pk_data p = Some [] then None else pk_data p)"
    by (auto split: option.splits)
  show ?thesis
    unfolding packet_toBytes_def packet_fromBytes_def
    by (simp only: header_reads err_bind_simps e(1) loop prod.case data first_octet_fields [OF v] packet_wire_def)
qed

text \<open>
  C6. Encoding then decoding a packet whose extension chain is consistent gives back the packet
  up to the low bits the wire keeps (so a packet with in-range fields is returned unchanged), and
  the encoding has exactly the length \<open>length()\<close> announces.
\<close>

theorem packet_roundtrip:
  assumes "packet_encodable p"
  shows "packet_fromBytes (packet_toBytes p) = Inr (packet_wire p)
    \<and> length (packet_toBytes p) = packet_length p
    \<and> packet_wire (packet_wire p) = packet_wire p"
  using packet_fromBytes_toBytes [OF assms]
  by (simp add: length_packet_toBytes packet_wire_def)

definition sample_packet :: packet where
  "sample_packet =
     \<lparr>pk_type = 0, pk_version = 1, pk_extension = 1, pk_connId = 65535,
      pk_timestamp = 1700000000000000, pk_tsDiff = None, pk_windowSize = 262144, pk_seqNr = 7, pk_ackNr = 3,
      pk_extensions = [SackExt \<lparr>sack_base = 3, sack_bitmask = [5, 0, 0, 0]\<rparr>, BitsExt (replicate 8 0)],
      pk_data = Some [104, 105]\<rparr>"

theorem packet_roundtrip_witness:
  "packet_fromBytes (packet_toBytes sample_packet) = Inr (packet_wire sample_packet)
   \<and> length (packet_toBytes sample_packet) = 38 \<and> pk_timestamp (packet_wire sample_packet) = 404635648"
  using packet_roundtrip [of sample_packet]
  by (simp add: packet_encodable_def sample_packet_def ext_ok_def packet_length_def packet_sizes packet_wire_def)

subsection \<open>What a decoded packet satisfies\<close>

definition packet_wf :: "packet \<Rightarrow> bool" where
  "packet_wf p \<longleftrightarrow>
     0 \<le> pk_type p \<and> pk_type p < 16 \<and> 0 \<le> pk_version p \<and> pk_version p < 16
     \<and> 0 \<le> pk_extension p \<and> pk_extension p < 256 \<and> u16 (pk_connId p)
     \<and> 0 \<le> pk_timestamp p \<and> pk_timestamp p < 4294967296
     \<and> (\<exists>d. pk_tsDiff p = Some d \<and> 0 \<le> d \<and> d < 4294967296)
     \<and> 0 \<le> pk_windowSize p \<and> pk_windowSize p < 4294967296
     \<and> u16 (pk_seqNr p) \<and> u16 (pk_ackNr p)
     \<and> (\<forall>e\<in>set (pk_extensions p). ext_ok (pk_ackNr p) e) \<and> pk_data p \<noteq> Some []"

lemma get_uint16_range: "get_uint16 bs i = Inr n \<Longrightarrow> u16 n"
proof -
  assume "get_uint16 bs i = Inr n"
  then obtain a b :: byte where "n = uint a * 256 + uint b" by (auto simp: get_uint16_def split: if_splits)
  then show "u16 n"
    unfolding u16_def using uint_byte_bounds [of a] uint_byte_bounds [of b] by (intro conjI; linarith)
qed

lemma get_uint32_range: "get_uint32 bs i = Inr n \<Longrightarrow> 0 \<le> n \<and> n < 4294967296"
proof -
  assume "get_uint32 bs i = Inr n"
  then obtain a b c d :: byte
    where "n = uint a * 16777216 + uint b * 65536 + uint c * 256 + uint d"
    by (auto simp: get_uint32_def split: if_splits)
  then show ?thesis
    using uint_byte_bounds [of a] uint_byte_bounds [of b] uint_byte_bounds [of c] uint_byte_bounds [of d]
    by (intro conjI; linarith)
qed

lemma octet_nibbles:
  assumes "0 \<le> b" "b < 256"
  shows "0 \<le> js_shr b 4 \<and> js_shr b 4 < 16" "0 \<le> js_and b 15 \<and> js_and b 15 < 16"
proof -
  have id: "to_int32 b = b" "to_int32 15 = mask 4"
    using assms by (simp_all add: to_int32_id mask_eq_exp_minus_1)
  have "js_shr b 4 = b div 16" by (simp add: js_shr_def id drop_bit_eq_div)
  then show "0 \<le> js_shr b 4 \<and> js_shr b 4 < 16" using assms by linarith
  have "js_and b 15 = take_bit 4 b" unfolding js_and_def id by (rule take_bit_eq_mask [symmetric])
  then show "0 \<le> js_and b 15 \<and> js_and b 15 < 16" by (simp add: take_bit_eq_mod)
qed

lemma fromBytes_ext_ok:
  "fromBytes_ext ackNr t pl = Inr es \<Longrightarrow> length pl \<le> 255 \<Longrightarrow> \<forall>e\<in>set es. ext_ok ackNr e"
  by (auto simp: fromBytes_ext_def sack_createFromBytes_def extBits_createFromBytes_def ext_ok_def split: if_splits)

lemma fromBytes_loop_ok:
  "fromBytes_loop bytes ackNr t i exts = Inr (es, j) \<Longrightarrow> \<forall>e\<in>set exts. ext_ok ackNr e
   \<Longrightarrow> (\<forall>e\<in>set es. ext_ok ackNr e) \<and> i \<le> j"
proof (induction bytes ackNr t i exts arbitrary: es j rule: fromBytes_loop.induct)
  case (1 bytes ackNr t i exts)
  show ?case
  proof (cases "t > 0")
    case False
    then show ?thesis using "1.prems" by (simp add: fromBytes_loop.simps [of bytes ackNr t i exts])
  next
    case True
    with "1.prems"(1) obtain n l new where
      n: "get_uint8 bytes i = Inr n" and l: "get_uint8 bytes (i + 1) = Inr l"
      and new: "fromBytes_ext ackNr t (js_slice bytes (i + 2) (i + 2 + nat l)) = Inr new"
      and rest: "fromBytes_loop bytes ackNr n (i + (2 + nat l)) (exts @ new) = Inr (es, j)"
      by (subst (asm) fromBytes_loop.simps) (auto simp: packet_sizes)
    have "length (js_slice bytes (i + 2) (i + 2 + nat l)) \<le> 255"
      using get_uint8_nonneg [OF l] by (auto simp: js_slice_def)
    with new have "\<forall>e\<in>set (exts @ new). ext_ok ackNr e"
      using "1.prems"(2) fromBytes_ext_ok by auto
    then show ?thesis
      using "1.IH" [OF True n l] new rest by (fastforce simp: packet_sizes)
  qed
qed

lemma packet_fromBytes_wf:
  assumes "packet_fromBytes bytes = Inr p"
  shows "packet_wf p"
proof -
  from assms obtain b0 x c t d w s a es j where
    g: "get_uint8 bytes 0 = Inr b0" "get_uint8 bytes 1 = Inr x" "get_uint16 bytes 2 = Inr c"
      "get_uint32 bytes 4 = Inr t" "get_uint32 bytes 8 = Inr d" "get_uint32 bytes 12 = Inr w"
      "get_uint16 bytes 16 = Inr s" "get_uint16 bytes 18 = Inr a"
    and loop: "fromBytes_loop bytes a x HEADER_SIZE [] = Inr (es, j)"
    and p: "p = \<lparr>pk_type = js_shr b0 4, pk_version = js_and b0 15, pk_extension = x,
          pk_connId = c, pk_timestamp = t, pk_tsDiff = Some d, pk_windowSize = w, pk_seqNr = s, pk_ackNr = a,
          pk_extensions = es, pk_data = (if j < length bytes then Some (drop j bytes) else None)\<rparr>"
    unfolding packet_fromBytes_def by auto
  show ?thesis
    using octet_nibbles [of b0] get_uint8_nonneg [OF g(1)] get_uint8_nonneg [OF g(2)]
      g(3,7,8) [THEN get_uint16_range] g(4-6) [THEN get_uint32_range]
      fromBytes_loop_ok [OF loop]
    by (simp add: p packet_wf_def)
qed

lemma packet_fromBytes_length: "packet_fromBytes bytes = Inr p \<Longrightarrow> 20 \<le> length bytes"
  by (auto simp: packet_fromBytes_def get_uint16_def split: if_splits)

lemma packet_wf_wire: "packet_wf p \<Longrightarrow> packet_wire p = p"
  by (auto simp: packet_wf_def packet_wire_def u16_def mod_pos_pos_trivial)

lemma packet_wf_encodable:
  "packet_wf p \<Longrightarrow> pk_extension p = first_ext_type (pk_extensions p) \<Longrightarrow> packet_encodable p"
  by (auto simp: packet_wf_def packet_encodable_def)

text \<open>
  Whatever decodes is well-formed: every field lies in the range of its wire slot, every kept
  extension passed its length check and a selective acknowledgement is based on the packet's own
  ack number; and a decoded packet whose first extension is a known one re-encodes and decodes to
  itself.
\<close>

theorem packet_decode_stable:
  assumes "packet_fromBytes bytes = Inr p"
  shows "packet_wf p \<and> 20 \<le> length bytes
    \<and> (pk_extension p = first_ext_type (pk_extensions p) \<longrightarrow> packet_fromBytes (packet_toBytes p) = Inr p)"
proof -
  have wf: "packet_wf p" by (rule packet_fromBytes_wf [OF assms])
  then show ?thesis
    using packet_fromBytes_length [OF assms] packet_fromBytes_toBytes packet_wf_encodable packet_wf_wire
    by simp
qed

definition sample_bytes :: "byte list" where
  "sample_bytes = [65, 2, 1, 0, 0, 0, 0, 9, 0, 0, 0, 0, 0, 0, 0, 0, 0, 1, 0, 0, 0, 8, 0, 0, 0, 0, 0, 0, 0, 0]"

lemma sample_bytes_decode:
  "packet_fromBytes sample_bytes = Inr
     \<lparr>pk_type = 4, pk_version = 1, pk_extension = 2, pk_connId = 256, pk_timestamp = 9, pk_tsDiff = Some 0,
      pk_windowSize = 0, pk_seqNr = 1, pk_ackNr = 0, pk_extensions = [BitsExt (replicate 8 0)], pk_data = None\<rparr>"
  by code_simp

theorem packet_decode_stable_witness:
  "\<exists>p. packet_fromBytes sample_bytes = Inr p \<and> packet_wf p \<and> pk_type p = ST_SYN
     \<and> packet_fromBytes (packet_toBytes p) = Inr p"
  using packet_decode_stable [OF sample_bytes_decode] sample_bytes_decode by (simp add: packet_types)

lemma packet_isPacket_decoded:
  assumes "packet_fromBytes bytes = Inr p"
  shows "packet_isPacket bytes = Inr True \<longleftrightarrow> 20 \<le> length bytes \<and> length bytes \<le> 65536
    \<and> pk_version p = 1 \<and> pk_type p \<in> {ST_DATA, ST_FIN, ST_STATE, ST_RESET, ST_SYN}"
proof -
  have wf: "packet_wf p" by (rule packet_fromBytes_wf [OF assms])
  then obtain d where d: "pk_tsDiff p = Some d" "0 \<le> d" by (auto simp: packet_wf_def)
  have types: "pk_type p \<in> {ST_DATA, ST_FIN, ST_STATE, ST_RESET, ST_SYN} \<longleftrightarrow> \<not> (pk_type p < 0 \<or> pk_type p > 4)"
    by (auto simp: packet_types)
  show ?thesis
    unfolding types using wf d
    by (auto simp: packet_isPacket_def packet_sizes assms packet_wf_def u16_def)
qed

text \<open>
  C27. A datagram is accepted exactly when its length is between 20 and 65536 bytes, it decodes,
  its version is 1 and its type is one of the five of the protocol: the remaining range checks of
  \<open>isPacket\<close> never reject anything.
\<close>

theorem packet_isPacket_iff:
  "packet_isPacket bytes = Inr True
     \<longleftrightarrow> 20 \<le> length bytes \<and> length bytes \<le> 65536
       \<and> (\<exists>p. packet_fromBytes bytes = Inr p \<and> pk_version p = 1
             \<and> pk_type p \<in> {ST_DATA, ST_FIN, ST_STATE, ST_RESET, ST_SYN})"
proof (cases "packet_fromBytes bytes")
  case (Inl e)
  then show ?thesis by (simp add: packet_isPacket_def packet_sizes)
next
  case (Inr p)
  then show ?thesis by (simp del: insert_iff add: packet_isPacket_decoded)
qed

lemma packet_isPacket_Inl:
  "packet_isPacket bytes = Inl e
     \<longleftrightarrow> 20 \<le> length bytes \<and> length bytes \<le> 65536 \<and> packet_fromBytes bytes = Inl e"
  by (cases "packet_fromBytes bytes") (auto simp: packet_isPacket_def packet_sizes)

lemma fromBytes_loop_end: "0 < t \<Longrightarrow> fromBytes_loop bytes ackNr t (length bytes) exts = Inl RangeError"
  by (subst fromBytes_loop.simps) (simp add: get_uint8_def)

lemma bare_header_throws:
  assumes "length bytes = 20" and "bytes ! 1 \<noteq> 0"
  shows "packet_isPacket bytes = Inl RangeError"
proof -
  have "0 < uint (bytes ! 1)" using assms(2) by (simp add: word_gt_0 uint_0_iff order_less_le)
  then have "fromBytes_loop bytes a (uint (bytes ! 1)) 20 [] = Inl RangeError" for a
    using fromBytes_loop_end [of _ bytes] assms(1) by simp
  then have "packet_fromBytes bytes = Inl RangeError"
    using assms(1)
    by (simp add: packet_fromBytes_def get_uint8_def get_uint16_def get_uint32_def HEADER_SIZE_def)
  then show ?thesis using assms(1) by (simp add: packet_isPacket_Inl)
qed

text \<open>
  C27. \<open>isPacket\<close> is not a total check: a bare 20-byte header whose extension octet is not zero
  makes it throw instead of answering false.
\<close>

theorem packet_isPacket_throws:
  assumes "length bytes = 20" and "bytes ! 1 \<noteq> 0"
  shows "packet_isPacket bytes = Inl RangeError"
  by (rule bare_header_throws [OF assms])

theorem packet_isPacket_throws_witness:
  "packet_isPacket (33 # 1 # replicate 18 0) = Inl RangeError"
  using packet_isPacket_throws [of "33 # 1 # replicate 18 0"] by simp

end
