(* ===== verification/JsFloat.thy ===== *)
theory JsFloat imports Complex_Main Prelude begin

text \<open>
  The numbers of the language where the code divides: IEEE binary64 with round to nearest, ties
  to even, as a rounding function \<open>fl\<close> on rationals. Every arithmetic operation of the source on
  such values is the exact operation followed by \<open>fl\<close>. Subnormals are included (the exponent
  stops at -1074). Overflow to infinity is not: the components that use \<open>fl\<close> keep their values
  far below \<open>2 ^ 1024\<close>.

  The locale \<open>rounding\<close> is the interface the clients rely on: rounding is monotone, odd, and
  exact on the representable values. The interpretation \<open>dbl\<close> discharges it for \<open>fl\<close>.
\<close>

subsection \<open>The interface\<close>

definition representable :: "rat \<Rightarrow> bool" where
  "representable x \<longleftrightarrow> (\<exists>m k. x = of_int m * 2 powi k \<and> \<bar>m\<bar> \<le> 2 ^ 53 \<and> - 1074 \<le> k)"

lemma representable_minus: "representable x \<Longrightarrow> representable (- x)"
proof -
  assume "representable x"
  then obtain m k where "x = of_int m * 2 powi k" "\<bar>m\<bar> \<le> 2 ^ 53" "- 1074 \<le> k"
    unfolding representable_def by blast
  then show ?thesis
    unfolding representable_def by (intro exI [of _ "- m"] exI [of _ k]) simp
qed

lemma representable_int: "\<bar>n\<bar> \<le> 2 ^ 53 \<Longrightarrow> representable (of_int n)"
  unfolding representable_def by (intro exI [of _ n] exI [of _ 0]) simp

lemma representable_dyadic: "\<bar>n\<bar> \<le> 2 ^ 53 \<Longrightarrow> k \<le> 1074 \<Longrightarrow> representable (of_int n / 2 ^ k)"
  unfolding representable_def
  by (intro exI [of _ n] exI [of _ "- int k"]) (simp add: power_int_minus divide_inverse)

locale rounding =
  fixes rnd :: "rat \<Rightarrow> rat"
  assumes rnd_mono: "x \<le> y \<Longrightarrow> rnd x \<le> rnd y"
    and rnd_exact: "representable x \<Longrightarrow> rnd x = x"
    and rnd_representable: "representable (rnd x)"
    and rnd_minus: "rnd (- x) = - rnd x"
begin

lemma rnd_ge: "representable b \<Longrightarrow> b \<le> x \<Longrightarrow> b \<le> rnd x"
  using rnd_mono [of b x] by (simp add: rnd_exact)

lemma rnd_le: "representable b \<Longrightarrow> x \<le> b \<Longrightarrow> rnd x \<le> b"
  using rnd_mono [of x b] by (simp add: rnd_exact)

lemma rnd_rnd: "rnd (rnd x) = rnd x"
  by (rule rnd_exact [OF rnd_representable])

lemma rnd_0: "rnd 0 = 0"
  using rnd_exact [of 0] representable_int [of 0] by simp

lemma rnd_nonneg: "0 \<le> x \<Longrightarrow> 0 \<le> rnd x"
  using rnd_mono [of 0 x] by (simp add: rnd_0)

lemma rnd_nonpos: "x \<le> 0 \<Longrightarrow> rnd x \<le> 0"
  using rnd_mono [of x 0] by (simp add: rnd_0)

text \<open>A weighted average with weights 7/8 and 1/8, rounded at each step, stays between its operands' bounds.\<close>

lemma rnd_average:
  assumes "representable (7 * b)" "representable (7 * b / 8)" "representable (b / 8)" "representable b"
  shows "x \<le> b \<Longrightarrow> y \<le> b \<Longrightarrow> rnd (rnd (rnd (x * 7) / 8) + rnd (y / 8)) \<le> b"
    and "b \<le> x \<Longrightarrow> b \<le> y \<Longrightarrow> b \<le> rnd (rnd (rnd (x * 7) / 8) + rnd (y / 8))"
proof -
  assume "x \<le> b" "y \<le> b"
  then have "rnd (x * 7) \<le> 7 * b" and y: "rnd (y / 8) \<le> b / 8"
    by (intro rnd_le assms; simp)+
  then have "rnd (rnd (x * 7) / 8) \<le> 7 * b / 8"
    by (intro rnd_le assms) simp
  with y show "rnd (rnd (rnd (x * 7) / 8) + rnd (y / 8)) \<le> b"
    by (intro rnd_le assms) simp
next
  assume "b \<le> x" "b \<le> y"
  then have "7 * b \<le> rnd (x * 7)" and y: "b / 8 \<le> rnd (y / 8)"
    by (intro rnd_ge assms; simp)+
  then have "7 * b / 8 \<le> rnd (rnd (x * 7) / 8)"
    by (intro rnd_ge assms) simp
  with y show "b \<le> rnd (rnd (rnd (x * 7) / 8) + rnd (y / 8))"
    by (intro rnd_ge assms) simp
qed

end

subsection \<open>Round to nearest, ties to even\<close>

definition round_even :: "rat \<Rightarrow> int" where
  "round_even x =
     (let f = \<lfloor>x\<rfloor>; r = x - of_int f in
      if r < 1 / 2 then f else if r > 1 / 2 then f + 1 else if even f then f else f + 1)"

fun log2n :: "nat \<Rightarrow> nat" where
  "log2n n = (if n < 2 then 0 else Suc (log2n (n div 2)))"

declare log2n.simps [simp del]

text \<open>\<open>ilog2 x\<close> is the exponent of \<open>x > 0\<close>: the \<open>e\<close> with \<open>2 ^ e \<le> x < 2 ^ (e + 1)\<close>.\<close>

definition ilog2 :: "rat \<Rightarrow> int" where
  "ilog2 x =
     (if 1 \<le> x then int (log2n (nat \<lfloor>x\<rfloor>))
      else - 1 - int (log2n (nat (\<lceil>1 / x\<rceil> - 1))))"

definition ulp_exp :: "rat \<Rightarrow> int" where
  "ulp_exp x = max (ilog2 x - 52) (- 1074)"

definition fl_pos :: "rat \<Rightarrow> rat" where
  "fl_pos x = of_int (round_even (x / 2 powi ulp_exp x)) * 2 powi ulp_exp x"

definition fl :: "rat \<Rightarrow> rat" where
  "fl x = (if x = 0 then 0 else if x < 0 then - fl_pos (- x) else fl_pos x)"

lemma round_even_int [simp]: "round_even (of_int n) = n"
  by (simp add: round_even_def Let_def)

lemma round_even_ge_floor: "\<lfloor>x\<rfloor> \<le> round_even x"
  by (simp add: round_even_def Let_def)

lemma round_even_le_floor: "round_even x \<le> \<lfloor>x\<rfloor> + 1"
  by (simp add: round_even_def Let_def)

lemma round_even_mono: "x \<le> y \<Longrightarrow> round_even x \<le> round_even y"
proof -
  assume xy: "x \<le> y"
  then have "\<lfloor>x\<rfloor> \<le> \<lfloor>y\<rfloor>" by (rule floor_mono)
  then consider "\<lfloor>x\<rfloor> = \<lfloor>y\<rfloor>" | "\<lfloor>x\<rfloor> + 1 \<le> \<lfloor>y\<rfloor>" by linarith
  then show ?thesis
  proof cases
    case 1
    then show ?thesis using xy by (auto simp: round_even_def Let_def)
  next
    case 2
    then show ?thesis using round_even_le_floor [of x] round_even_ge_floor [of y] by linarith
  qed
qed

lemma round_even_le_int: "x \<le> of_int n \<Longrightarrow> round_even x \<le> n"
  using round_even_mono [of x "of_int n"] by simp

lemma round_even_ge_int: "of_int n \<le> x \<Longrightarrow> n \<le> round_even x"
  using round_even_mono [of "of_int n" x] by simp

subsection \<open>Exponents\<close>

lemma log2n_bounds: "0 < n \<Longrightarrow> 2 ^ log2n n \<le> n \<and> n < 2 ^ Suc (log2n n)"
proof (induction n rule: log2n.induct)
  case (1 n)
  show ?case
  proof (cases "n < 2")
    case True
    then show ?thesis using 1 by (simp add: log2n.simps [of n])
  next
    case False
    then have "2 ^ log2n (n div 2) \<le> n div 2 \<and> n div 2 < 2 ^ Suc (log2n (n div 2))"
      using 1 by simp
    then show ?thesis using False by (subst (1 2) log2n.simps) auto
  qed
qed

lemma log2n_int:
  assumes "0 < z"
  shows "int (2 ^ log2n (nat z)) \<le> z" and "z < int (2 ^ Suc (log2n (nat z)))"
proof -
  have "2 ^ log2n (nat z) \<le> nat z" "nat z < 2 ^ Suc (log2n (nat z))"
    using log2n_bounds [of "nat z"] assms by auto
  then have "int (2 ^ log2n (nat z)) \<le> int (nat z)" "int (nat z) < int (2 ^ Suc (log2n (nat z)))"
    by (simp_all only: of_nat_le_iff of_nat_less_iff)
  then show "int (2 ^ log2n (nat z)) \<le> z" and "z < int (2 ^ Suc (log2n (nat z)))"
    using assms by simp_all
qed

lemma ilog2_bounds:
  assumes "0 < x"
  shows "2 powi ilog2 x \<le> x" and "x < 2 powi (ilog2 x + 1)"
proof -
  have "2 powi ilog2 x \<le> x \<and> x < 2 powi (ilog2 x + 1)"
  proof (cases "1 \<le> x")
    case True
    then have n: "0 < nat \<lfloor>x\<rfloor>" by simp
    let ?k = "log2n (nat \<lfloor>x\<rfloor>)"
    have "int (2 ^ ?k) \<le> \<lfloor>x\<rfloor>" "\<lfloor>x\<rfloor> < int (2 ^ Suc ?k)"
      using log2n_int [of "\<lfloor>x\<rfloor>"] True by simp_all
    then have "of_int (int (2 ^ ?k)) \<le> x" "x < of_int (int (2 ^ Suc ?k))"
      by (simp_all only: le_floor_iff floor_less_iff)
    moreover have "ilog2 x = int ?k" using True by (simp add: ilog2_def)
    moreover have "(2 :: rat) powi (int ?k + 1) = 2 ^ Suc ?k"
      by (metis of_nat_Suc power_int_of_nat add.commute)
    ultimately show ?thesis by simp
  next
    case False
    let ?n = "nat (\<lceil>1 / x\<rceil> - 1)"
    let ?k = "log2n ?n"
    have "1 < 1 / x" using False assms by (simp add: field_simps)
    then have c: "1 < \<lceil>1 / x\<rceil>" by (simp add: less_ceiling_iff)
    have "int (2 ^ ?k) \<le> \<lceil>1 / x\<rceil> - 1" "\<lceil>1 / x\<rceil> - 1 < int (2 ^ Suc ?k)"
      using log2n_int [of "\<lceil>1 / x\<rceil> - 1"] c by simp_all
    then have "int (2 ^ ?k) < \<lceil>1 / x\<rceil>" "\<lceil>1 / x\<rceil> \<le> int (2 ^ Suc ?k)" by simp_all
    then have "of_int (int (2 ^ ?k)) < 1 / x" "1 / x \<le> of_int (int (2 ^ Suc ?k))"
      by (simp_all only: less_ceiling_iff ceiling_le_iff)
    then have "x < 1 / 2 ^ ?k" "1 / 2 ^ Suc ?k \<le> x"
      using assms by (simp_all add: field_simps)
    moreover have "ilog2 x = - int (Suc ?k)" using False by (simp add: ilog2_def)
    moreover have "(2 :: rat) powi (- int (Suc ?k)) = 1 / 2 ^ Suc ?k"
      by (simp only: power_int_minus_divide power_int_of_nat)
    moreover have "(2 :: rat) powi (- int (Suc ?k) + 1) = 1 / 2 ^ ?k"
      by (simp add: power_int_minus_divide)
    ultimately show ?thesis by simp
  qed
  then show "2 powi ilog2 x \<le> x" and "x < 2 powi (ilog2 x + 1)" by blast+
qed

lemma pow2_mono: "a \<le> b \<Longrightarrow> (2 :: rat) powi a \<le> 2 powi b"
  by (rule power_int_increasing) auto

lemma pow2_less: "(2 :: rat) powi a < 2 powi b \<Longrightarrow> a < b"
  using pow2_mono [of b a] by linarith

lemma pow2_multiple: "e \<le> k \<Longrightarrow> (2 :: rat) powi k = of_int (2 ^ nat (k - e)) * 2 powi e"
proof -
  assume "e \<le> k"
  then have "(2 :: rat) powi k = 2 powi (k - e) * 2 powi e"
    by (simp flip: power_int_add)
  also have "(2 :: rat) powi (k - e) = of_int (2 ^ nat (k - e))"
    using \<open>e \<le> k\<close> by (simp add: power_int_def)
  finally show ?thesis .
qed

lemma ilog2_mono:
  assumes "0 < x" "x \<le> y"
  shows "ilog2 x \<le> ilog2 y"
proof -
  have "(2 :: rat) powi ilog2 x < 2 powi (ilog2 y + 1)"
    using ilog2_bounds(1) [of x] ilog2_bounds(2) [of y] assms by linarith
  then show ?thesis using pow2_less by fastforce
qed

lemma ilog2_eq:
  assumes "2 powi e \<le> x" "x < 2 powi (e + 1)"
  shows "ilog2 x = e"
proof -
  have x: "0 < x" using assms(1) by (rule less_le_trans [rotated]) simp
  have "(2 :: rat) powi ilog2 x < 2 powi (e + 1)" "(2 :: rat) powi e < 2 powi (ilog2 x + 1)"
    using ilog2_bounds [OF x] assms by linarith+
  then have "ilog2 x < e + 1" "e < ilog2 x + 1" by (auto dest: pow2_less)
  then show ?thesis by linarith
qed

lemma ulp_exp_mono: "0 < x \<Longrightarrow> x \<le> y \<Longrightarrow> ulp_exp x \<le> ulp_exp y"
  using ilog2_mono [of x y] by (simp add: ulp_exp_def)

subsection \<open>\<open>fl\<close> is a rounding\<close>

definition fl_on :: "rat \<Rightarrow> rat \<Rightarrow> rat" where
  "fl_on u x = of_int (round_even (x / u)) * u"

lemma fl_pos_on: "fl_pos x = fl_on (2 powi ulp_exp x) x"
  by (simp add: fl_pos_def fl_on_def)

lemma fl_on_mono: "0 < u \<Longrightarrow> x \<le> y \<Longrightarrow> fl_on u x \<le> fl_on u y"
  unfolding fl_on_def
  by (intro mult_right_mono of_int_le_iff [THEN iffD2] round_even_mono divide_right_mono) auto

lemma fl_on_ge: "0 < u \<Longrightarrow> of_int n * u \<le> x \<Longrightarrow> of_int n * u \<le> fl_on u x"
  unfolding fl_on_def
  by (intro mult_right_mono) (auto intro!: round_even_ge_int simp: pos_le_divide_eq)

lemma fl_on_le: "0 < u \<Longrightarrow> x \<le> of_int n * u \<Longrightarrow> fl_on u x \<le> of_int n * u"
  unfolding fl_on_def
  by (intro mult_right_mono) (auto intro!: round_even_le_int simp: pos_divide_le_eq)

lemma fl_on_multiple: "0 < u \<Longrightarrow> fl_on u (of_int n * u) = of_int n * u"
  by (simp add: fl_on_def)

lemma pow2_pos: "(0 :: rat) < 2 powi k"
  by simp

lemma fl_pos_mono:
  assumes "0 < x" "x \<le> y"
  shows "fl_pos x \<le> fl_pos y"
proof (cases "ulp_exp x = ulp_exp y")
  case True
  then show ?thesis unfolding fl_pos_on True using fl_on_mono [OF pow2_pos assms(2)] by simp
next
  case False
  then have lt: "ulp_exp x < ulp_exp y" using ulp_exp_mono [OF assms] by simp
  then have e: "ulp_exp y = ilog2 y - 52" "ilog2 x + 1 \<le> ilog2 y"
    by (auto simp: ulp_exp_def max_def split: if_splits)
  let ?B = "(2 :: rat) powi ilog2 y"
  have "x \<le> ?B"
    using ilog2_bounds(2) [OF assms(1)] pow2_mono [OF e(2)] by linarith
  moreover have "?B = of_int (2 ^ nat (ilog2 y - ulp_exp x)) * 2 powi ulp_exp x"
    using lt e by (intro pow2_multiple) simp
  ultimately have "fl_pos x \<le> ?B"
    unfolding fl_pos_on using fl_on_le [OF pow2_pos] by metis
  moreover have "?B = of_int (2 ^ nat (ilog2 y - ulp_exp y)) * 2 powi ulp_exp y"
    using e by (intro pow2_multiple) simp
  moreover have "?B \<le> y" using ilog2_bounds(1) [of y] assms by simp
  ultimately show ?thesis
    unfolding fl_pos_on [of y] using fl_on_ge [OF pow2_pos] by (metis order_trans)
qed

lemma fl_pos_nonneg: "0 < x \<Longrightarrow> 0 \<le> fl_pos x"
  using fl_on_ge [OF pow2_pos, of 0 "ulp_exp x" x] by (simp add: fl_pos_on)

lemma fl_pos_representable:
  assumes "0 < x"
  shows "representable (fl_pos x)"
proof -
  let ?m = "round_even (x / 2 powi ulp_exp x)"
  have "ilog2 x + 1 \<le> ulp_exp x + 53" by (simp add: ulp_exp_def)
  then have "x \<le> 2 powi (ulp_exp x + 53)"
    using ilog2_bounds(2) [OF assms] pow2_mono by (metis less_le_trans less_imp_le)
  also have "\<dots> = of_int (2 ^ 53) * 2 powi ulp_exp x"
    using pow2_multiple [of "ulp_exp x" "ulp_exp x + 53"] by simp
  finally have "x / 2 powi ulp_exp x \<le> of_int (2 ^ 53)"
    by (subst pos_divide_le_eq) simp_all
  then have "?m \<le> 2 ^ 53" by (rule round_even_le_int)
  moreover have "0 \<le> ?m" using assms by (intro round_even_ge_int) simp
  ultimately show ?thesis
    unfolding representable_def fl_pos_def
    by (intro exI [of _ ?m] exI [of _ "ulp_exp x"]) (simp add: ulp_exp_def)
qed

lemma pow2_scale: "e \<le> k \<Longrightarrow> \<exists>n. of_int m * (2 :: rat) powi k = of_int n * 2 powi e"
  by (intro exI [of _ "m * 2 ^ nat (k - e)"]) (simp add: pow2_multiple [of e k])

lemma fl_pos_exact:
  assumes "0 < x" "representable x"
  shows "fl_pos x = x"
proof -
  obtain m k where x: "x = of_int m * 2 powi k" and m: "\<bar>m\<bar> \<le> 2 ^ 53" and k: "- 1074 \<le> k"
    using assms(2) unfolding representable_def by blast
  have "0 < of_int m * (2 :: rat) powi k" using assms(1) x by simp
  then have "(0 :: rat) < of_int m" by (rule zero_less_mult_pos2) simp
  then have m0: "0 < m" by simp
  have "\<exists>n. x = of_int n * 2 powi ulp_exp x"
  proof (cases "ulp_exp x \<le> k")
    case True
    then show ?thesis using pow2_scale [of "ulp_exp x" k m] x by metis
  next
    case False
    then have "k + 53 \<le> ilog2 x" using k by (auto simp: ulp_exp_def)
    then have "2 powi (k + 53) \<le> x"
      using ilog2_bounds(1) [OF assms(1)] pow2_mono [of "k + 53" "ilog2 x"] by linarith
    moreover have p53: "(2 :: rat) powi (k + 53) = of_int (2 ^ 53) * 2 powi k"
      using pow2_multiple [of k "k + 53"] by simp
    ultimately have "(of_int (2 ^ 53) :: rat) \<le> of_int m"
      unfolding x by (simp only: mult_le_cancel_right_pos [OF pow2_pos])
    then have "2 ^ 53 \<le> m" by (simp only: of_int_le_iff)
    then have "x = 2 powi (k + 53)" using m p53 x by simp
    moreover have "ilog2 (2 powi (k + 53)) = k + 53"
      by (rule ilog2_eq) (simp_all add: power_int_strict_increasing)
    ultimately have "ulp_exp x \<le> k + 53" using k by (simp add: ulp_exp_def)
    then show ?thesis using pow2_multiple \<open>x = 2 powi (k + 53)\<close> by metis
  qed
  then show ?thesis unfolding fl_pos_on using fl_on_multiple [OF pow2_pos] by metis
qed

lemma fl_0 [simp]: "fl 0 = 0"
  by (simp add: fl_def)

lemma fl_nonneg: "0 \<le> x \<Longrightarrow> 0 \<le> fl x"
  using fl_pos_nonneg [of x] by (auto simp: fl_def)

lemma fl_minus: "fl (- x) = - fl x"
  by (simp add: fl_def)

lemma fl_mono:
  assumes "x \<le> y"
  shows "fl x \<le> fl y"
proof (cases "0 \<le> x")
  case True
  then show ?thesis using assms fl_pos_mono [of x y] fl_nonneg [of y] by (auto simp: fl_def)
next
  case x: False
  show ?thesis
  proof (cases "0 \<le> y")
    case True
    then show ?thesis using x fl_nonneg [of y] fl_nonneg [of "- x"] fl_minus [of x] by linarith
  next
    case False
    then show ?thesis using x assms fl_pos_mono [of "- y" "- x"] by (simp add: fl_def)
  qed
qed

lemma fl_exact: "representable x \<Longrightarrow> fl x = x"
  using fl_pos_exact [of x] fl_pos_exact [of "- x"] representable_minus [of x] by (auto simp: fl_def)

lemma fl_representable: "representable (fl x)"
  using fl_pos_representable [of x] fl_pos_representable [of "- x"] representable_minus
    representable_int [of 0] by (auto simp: fl_def)

interpretation dbl: rounding fl
  by unfold_locales (rule fl_mono fl_exact fl_representable fl_minus; assumption?)+

lemma fl_numeral [simp]: "numeral n \<le> (2 ^ 53 :: int) \<Longrightarrow> fl (numeral n) = numeral n"
  using fl_exact [OF representable_int [of "numeral n"]] by simp

lemma fl_1 [simp]: "fl 1 = 1"
  using fl_exact [OF representable_int [of 1]] by simp

lemma fl_half: "\<bar>n\<bar> \<le> 2 ^ 53 \<Longrightarrow> fl (of_int n / 2) = of_int n / 2"
  using fl_exact [OF representable_dyadic [of n 1]] by simp

end
