(* ===== verification/BlockingMap.thy ===== *)
theory BlockingMap imports JsFloat begin

text \<open>
  The bounded map that is the send window (\<open>src/blocking_map.ts\<close>). A \<open>set\<close> that finds the map
  full leaves its entry in a queue of waiting setters and its promise pending. Each operation
  returns, beside the new map, the entries it admitted from that queue, in order: those are the
  setters whose promises it resolves. The capacity is a number of the language (the congestion
  window can be fractional).
\<close>

record ('k, 'v) bmap =
  bm_map :: "('k, 'v) js_map"
  bm_capacity :: rat
  bm_waiting :: "('k \<times> 'v) list"

definition bm_new :: "rat \<Rightarrow> ('k, 'v) bmap" where
  "bm_new capacity = \<lparr>bm_map = [], bm_capacity = capacity, bm_waiting = []\<rparr>"

definition bm_size :: "('k, 'v) bmap \<Rightarrow> nat" where
  "bm_size m = length (bm_map m)"

definition bm_get :: "('k, 'v) bmap \<Rightarrow> 'k \<Rightarrow> 'v option" where
  "bm_get m k = jm_get (bm_map m) k"

definition bm_has :: "('k, 'v) bmap \<Rightarrow> 'k \<Rightarrow> bool" where
  "bm_has m k = jm_has (bm_map m) k"

definition bm_keys :: "('k, 'v) bmap \<Rightarrow> 'k list" where
  "bm_keys m = jm_keys (bm_map m)"

text \<open>The loop of \<open>resolveNextSetter\<close>: the admitted entries come back as the last component.\<close>

fun bm_resolveLoop ::
  "rat \<Rightarrow> ('k, 'v) js_map \<Rightarrow> ('k \<times> 'v) list
   \<Rightarrow> ('k, 'v) js_map \<times> ('k \<times> 'v) list \<times> ('k \<times> 'v) list" where
  "bm_resolveLoop c m [] = (m, [], [])"
| "bm_resolveLoop c m ((k, v) # ws) =
     (if of_nat (length m) < c then
        (let (m', ws', rel) = bm_resolveLoop c (jm_set k v m) ws in (m', ws', (k, v) # rel))
      else (m, (k, v) # ws, []))"

definition bm_resolveNextSetter :: "('k, 'v) bmap \<Rightarrow> ('k, 'v) bmap \<times> ('k \<times> 'v) list" where
  "bm_resolveNextSetter s =
     (let (m, ws, rel) = bm_resolveLoop (bm_capacity s) (bm_map s) (bm_waiting s)
      in (s\<lparr>bm_map := m, bm_waiting := ws\<rparr>, rel))"

text \<open>\<open>bm_set\<close> also tells whether the call was admitted at once or is left waiting.\<close>

definition bm_set :: "'k \<Rightarrow> 'v \<Rightarrow> ('k, 'v) bmap \<Rightarrow> ('k, 'v) bmap \<times> bool \<times> ('k \<times> 'v) list" where
  "bm_set k v s =
     (if of_nat (length (bm_map s)) < bm_capacity s then
        (let (s', rel) = bm_resolveNextSetter (s\<lparr>bm_map := jm_set k v (bm_map s)\<rparr>) in (s', True, rel))
      else (s\<lparr>bm_waiting := bm_waiting s @ [(k, v)]\<rparr>, False, []))"

definition bm_delete :: "'k \<Rightarrow> ('k, 'v) bmap \<Rightarrow> ('k, 'v) bmap \<times> ('k \<times> 'v) list" where
  "bm_delete k s =
     (if jm_has (bm_map s) k then bm_resolveNextSetter (s\<lparr>bm_map := jm_del k (bm_map s)\<rparr>)
      else (s, []))"

definition bm_clear :: "('k, 'v) bmap \<Rightarrow> ('k, 'v) bmap" where
  "bm_clear s = s\<lparr>bm_map := []\<rparr>"

definition bm_updateCapacity :: "rat \<Rightarrow> ('k, 'v) bmap \<Rightarrow> ('k, 'v) bmap \<times> ('k \<times> 'v) list" where
  "bm_updateCapacity c s = bm_resolveNextSetter (s\<lparr>bm_capacity := c\<rparr>)"

subsection \<open>Invariant: nobody waits while there is room\<close>

definition bm_inv :: "('k, 'v) bmap \<Rightarrow> bool" where
  "bm_inv s \<longleftrightarrow> jm_wf (bm_map s) \<and> (bm_waiting s \<noteq> [] \<longrightarrow> bm_capacity s \<le> of_nat (bm_size s))"

lemma bm_resolveLoop_split:
  "bm_resolveLoop c m ws = (m', ws', rel) \<Longrightarrow> ws = rel @ ws'"
  by (induction c m ws arbitrary: m' ws' rel rule: bm_resolveLoop.induct)
    (auto split: if_splits prod.splits)

lemma bm_resolveLoop_map:
  "bm_resolveLoop c m ws = (m', ws', rel) \<Longrightarrow> m' = fold (\<lambda>(k, v). jm_set k v) rel m"
  by (induction c m ws arbitrary: m' ws' rel rule: bm_resolveLoop.induct)
    (auto split: if_splits prod.splits)

lemma bm_resolveLoop_wf:
  "bm_resolveLoop c m ws = (m', ws', rel) \<Longrightarrow> jm_wf m \<Longrightarrow> jm_wf m'"
  by (induction c m ws arbitrary: m' ws' rel rule: bm_resolveLoop.induct)
    (auto split: if_splits prod.splits)

lemma bm_resolveLoop_full:
  "bm_resolveLoop c m ws = (m', ws', rel) \<Longrightarrow> ws' \<noteq> [] \<Longrightarrow> c \<le> of_nat (length m')"
  by (induction c m ws arbitrary: m' ws' rel rule: bm_resolveLoop.induct)
    (auto split: if_splits prod.splits)

lemma bm_resolveLoop_size:
  "bm_resolveLoop c m ws = (m', ws', rel) \<Longrightarrow> c \<le> of_nat n \<Longrightarrow> length m' \<le> max (length m) n"
proof (induction c m ws arbitrary: m' ws' rel rule: bm_resolveLoop.induct)
  case (2 c m k v ws)
  show ?case
  proof (cases "of_nat (length m) < c")
    case True
    then have "length m < n" using "2.prems"(2) by (metis of_nat_less_iff order_less_le_trans)
    then have "length (jm_set k v m) \<le> n" by (simp add: jm_length_set)
    moreover obtain rel1 where "bm_resolveLoop c (jm_set k v m) ws = (m', ws', rel1)"
      using "2.prems"(1) True by (auto split: prod.splits)
    then have "length m' \<le> max (length (jm_set k v m)) n"
      using "2.IH" [OF True] "2.prems"(2) by blast
    ultimately show ?thesis by simp
  next
    case False
    then show ?thesis using "2.prems" by simp
  qed
qed simp

lemma bm_resolve:
  shows bm_resolve_fifo: "bm_waiting s = snd (bm_resolveNextSetter s) @ bm_waiting (fst (bm_resolveNextSetter s))"
    and bm_resolve_map: "bm_map (fst (bm_resolveNextSetter s))
      = fold (\<lambda>(k, v). jm_set k v) (snd (bm_resolveNextSetter s)) (bm_map s)"
    and bm_resolve_capacity: "bm_capacity (fst (bm_resolveNextSetter s)) = bm_capacity s"
    and bm_resolve_inv: "jm_wf (bm_map s) \<Longrightarrow> bm_inv (fst (bm_resolveNextSetter s))"
    and bm_resolve_size: "bm_capacity s \<le> of_nat n \<Longrightarrow> bm_size (fst (bm_resolveNextSetter s)) \<le> max (bm_size s) n"
proof -
  obtain m ws rel where r: "bm_resolveLoop (bm_capacity s) (bm_map s) (bm_waiting s) = (m, ws, rel)"
    by (cases "bm_resolveLoop (bm_capacity s) (bm_map s) (bm_waiting s)")
  then have s': "bm_resolveNextSetter s = (s\<lparr>bm_map := m, bm_waiting := ws\<rparr>, rel)"
    by (simp add: bm_resolveNextSetter_def)
  show "bm_waiting s = snd (bm_resolveNextSetter s) @ bm_waiting (fst (bm_resolveNextSetter s))"
    using bm_resolveLoop_split [OF r] by (simp add: s')
  show "bm_map (fst (bm_resolveNextSetter s))
      = fold (\<lambda>(k, v). jm_set k v) (snd (bm_resolveNextSetter s)) (bm_map s)"
    using bm_resolveLoop_map [OF r] by (simp add: s')
  show "bm_capacity (fst (bm_resolveNextSetter s)) = bm_capacity s" by (simp add: s')
  show "bm_inv (fst (bm_resolveNextSetter s))" if "jm_wf (bm_map s)"
    using bm_resolveLoop_wf [OF r that] bm_resolveLoop_full [OF r] by (simp add: s' bm_inv_def bm_size_def)
  show "bm_size (fst (bm_resolveNextSetter s)) \<le> max (bm_size s) n" if "bm_capacity s \<le> of_nat n"
    using bm_resolveLoop_size [OF r that] by (simp add: s' bm_size_def)
qed

lemma bm_set_split:
  "bm_set k v s =
     (if of_nat (length (bm_map s)) < bm_capacity s
      then (fst (bm_resolveNextSetter (s\<lparr>bm_map := jm_set k v (bm_map s)\<rparr>)), True,
            snd (bm_resolveNextSetter (s\<lparr>bm_map := jm_set k v (bm_map s)\<rparr>)))
      else (s\<lparr>bm_waiting := bm_waiting s @ [(k, v)]\<rparr>, False, []))"
  by (simp add: bm_set_def split_beta)

lemma bm_new_inv [simp, inv_intros]: "bm_inv (bm_new c)"
  by (simp add: bm_inv_def bm_new_def)

lemma bm_delete_inv [inv_intros]: "bm_inv s \<Longrightarrow> bm_inv (fst (bm_delete k s))"
  by (auto simp: bm_delete_def intro!: bm_resolve_inv) (simp add: bm_inv_def)

lemma bm_updateCapacity_inv: "jm_wf (bm_map s) \<Longrightarrow> bm_inv (fst (bm_updateCapacity c s))"
  by (simp add: bm_updateCapacity_def bm_resolve_inv)

lemma bm_set_inv [inv_intros]: "bm_inv s \<Longrightarrow> bm_inv (fst (bm_set k v s))"
  by (auto simp: bm_set_split intro!: bm_resolve_inv) (auto simp: bm_inv_def bm_size_def)

lemma bm_delete_fifo: "bm_waiting s = snd (bm_delete k s) @ bm_waiting (fst (bm_delete k s))"
  using bm_resolve_fifo [of "s\<lparr>bm_map := jm_del k (bm_map s)\<rparr>"] by (simp add: bm_delete_def)

lemma bm_updateCapacity_fifo:
  "bm_waiting s = snd (bm_updateCapacity c s) @ bm_waiting (fst (bm_updateCapacity c s))"
  using bm_resolve_fifo [of "s\<lparr>bm_capacity := c\<rparr>"] by (simp add: bm_updateCapacity_def)

lemma bm_set_fifo:
  "bm_waiting s @ (if fst (snd (bm_set k v s)) then [] else [(k, v)])
   = snd (snd (bm_set k v s)) @ bm_waiting (fst (bm_set k v s))"
  using bm_resolve_fifo [of "s\<lparr>bm_map := jm_set k v (bm_map s)\<rparr>"] by (simp add: bm_set_split)

interpretation bmd: fifo_release bm_waiting bm_inv bm_delete
  by unfold_locales (rule bm_delete_inv bm_delete_fifo; assumption?)+

lemma fold_jm_set_get:
  "jm_get (fold (\<lambda>(k, v). jm_set k v) ws m) j
   = (case map_of (rev ws) j of Some v \<Rightarrow> Some v | None \<Rightarrow> jm_get m j)"
  by (induction ws arbitrary: m) (auto simp: jm_get_set map_add_def split: option.splits)

lemma bm_delete_get:
  "bm_get (fst (bm_delete k s)) j
   = (case map_of (rev (snd (bm_delete k s))) j of Some v \<Rightarrow> Some v
      | None \<Rightarrow> if j = k then None else bm_get s j)"
proof (cases "jm_has (bm_map s) k")
  case True
  then show ?thesis
    by (simp add: bm_delete_def bm_get_def bm_resolve_map fold_jm_set_get jm_get_del split: option.splits)
next
  case False
  then show ?thesis by (simp add: bm_delete_def bm_get_def jm_has_def)
qed

lemma bm_updateCapacity_get:
  "bm_get (fst (bm_updateCapacity c s)) j
   = (case map_of (rev (snd (bm_updateCapacity c s))) j of Some v \<Rightarrow> Some v | None \<Rightarrow> bm_get s j)"
  by (simp add: bm_updateCapacity_def bm_get_def bm_resolve_map fold_jm_set_get split: option.splits)

subsection \<open>Runs\<close>

datatype ('k, 'v) bm_op = OpSet 'k 'v | OpDelete 'k | OpClear | OpUpdateCapacity rat

text \<open>The new map, the setters admitted from the queue, and the setter left waiting by the call.\<close>

fun bm_apply :: "('k, 'v) bm_op \<Rightarrow> ('k, 'v) bmap \<Rightarrow> ('k, 'v) bmap \<times> ('k \<times> 'v) list \<times> ('k \<times> 'v) list" where
  "bm_apply (OpSet k v) s =
     (fst (bm_set k v s), snd (snd (bm_set k v s)), if fst (snd (bm_set k v s)) then [] else [(k, v)])"
| "bm_apply (OpDelete k) s = (fst (bm_delete k s), snd (bm_delete k s), [])"
| "bm_apply OpClear s = (bm_clear s, [], [])"
| "bm_apply (OpUpdateCapacity c) s = (fst (bm_updateCapacity c s), snd (bm_updateCapacity c s), [])"

fun bm_run :: "('k, 'v) bm_op list \<Rightarrow> ('k, 'v) bmap \<Rightarrow> ('k, 'v) bmap \<times> ('k \<times> 'v) list \<times> ('k \<times> 'v) list" where
  "bm_run [] s = (s, [], [])"
| "bm_run (op # ops) s =
     (let (s1, rel1, arr1) = bm_apply op s; (s2, rel2, arr2) = bm_run ops s1
      in (s2, rel1 @ rel2, arr1 @ arr2))"

lemma bm_apply_fifo: "bm_apply op s = (s', rel, arr) \<Longrightarrow> bm_waiting s @ arr = rel @ bm_waiting s'"
  using bm_set_fifo [of s] bm_delete_fifo [of s] bm_updateCapacity_fifo [of s]
  by (cases op) (fastforce simp: bm_clear_def)+

text \<open>
  C28. Waiting setters are admitted first come, first served, and none is lost or admitted twice:
  over any sequence of operations, the setters waiting at the start followed by those that were
  left waiting on the way are exactly the admitted ones, in order, followed by those still waiting.
\<close>

theorem bm_run_fifo:
  "bm_waiting s @ snd (snd (bm_run ops s)) = fst (snd (bm_run ops s)) @ bm_waiting (fst (bm_run ops s))"
proof (induction ops arbitrary: s)
  case Nil
  then show ?case by simp
next
  case (Cons op ops)
  obtain s1 rel1 arr1 where a: "bm_apply op s = (s1, rel1, arr1)" by (cases "bm_apply op s")
  have "bm_waiting s @ arr1 @ snd (snd (bm_run ops s1))
      = rel1 @ bm_waiting s1 @ snd (snd (bm_run ops s1))"
    using bm_apply_fifo [OF a] by (metis append.assoc)
  then show ?case using Cons.IH [of s1] by (simp add: a split_beta)
qed

lemma bm_delete_size:
  "jm_wf (bm_map s) \<Longrightarrow> bm_capacity s \<le> of_nat n \<Longrightarrow> bm_size (fst (bm_delete k s)) \<le> max (bm_size s) n"
  using bm_resolve_size [of "s\<lparr>bm_map := jm_del k (bm_map s)\<rparr>" n] jm_length_del_le [of k "bm_map s"]
  by (auto simp: bm_delete_def bm_size_def)

lemma bm_set_size:
  assumes "bm_capacity s \<le> of_nat n"
  shows "bm_size (fst (bm_set k v s)) \<le> max (bm_size s) n"
proof (cases "of_nat (length (bm_map s)) < bm_capacity s")
  case True
  then have "length (bm_map s) < n" using assms by (metis of_nat_less_iff order_less_le_trans)
  then have "length (jm_set k v (bm_map s)) \<le> n" by (simp add: jm_length_set)
  then show ?thesis
    using True bm_resolve_size [of "s\<lparr>bm_map := jm_set k v (bm_map s)\<rparr>" n] assms
    by (auto simp: bm_set_split bm_size_def)
next
  case False
  then show ?thesis by (simp add: bm_set_split bm_size_def)
qed

lemma bm_delete_wakes:
  assumes "jm_wf (bm_map s)" "bm_has s k" "bm_waiting s = w # ws" "of_nat (bm_size s) < bm_capacity s + 1"
  shows "\<exists>rest. snd (bm_delete k s) = w # rest"
proof -
  obtain j v where w: "w = (j, v)" by (cases w)
  have k: "k \<in> set (jm_keys (bm_map s))" using assms(2) by (simp add: bm_has_def jm_has_def jm_keys_dom)
  then have "0 < length (bm_map s)" by (auto simp: jm_keys_def)
  then obtain m where m: "length (bm_map s) = Suc m" by (cases "length (bm_map s)") auto
  then have "of_nat (length (jm_del k (bm_map s))) < bm_capacity s"
    using assms(4) k by (simp add: jm_length_del [OF assms(1)] bm_size_def)
  then show ?thesis
    using assms(2,3) by (auto simp: bm_delete_def bm_has_def bm_resolveNextSetter_def w split: prod.splits)
qed

text \<open>
  C24. No setter waits while there is room, deletions wake the front waiter, and only capacity
  changes can make the map larger than its capacity: from a state where waiting implies full,
  \<open>set\<close>, \<open>delete\<close> and \<open>updateCapacity\<close> keep that invariant; \<open>set\<close> is admitted at once exactly
  when there is room; the size never grows beyond any bound on the capacity; and deleting a
  present key of a map not over capacity admits the first waiter.
\<close>

theorem bm_no_wait_with_room:
  assumes "bm_inv s"
  shows "bm_inv (fst (bm_set k v s)) \<and> bm_inv (fst (bm_delete k s)) \<and> bm_inv (fst (bm_updateCapacity c s))
    \<and> (fst (snd (bm_set k v s)) \<longleftrightarrow> of_nat (bm_size s) < bm_capacity s)
    \<and> (\<forall>n. bm_capacity s \<le> of_nat n \<longrightarrow>
          bm_size (fst (bm_set k v s)) \<le> max (bm_size s) n \<and> bm_size (fst (bm_delete k s)) \<le> max (bm_size s) n)
    \<and> (\<forall>w ws. bm_has s k \<and> bm_waiting s = w # ws \<and> of_nat (bm_size s) < bm_capacity s + 1 \<longrightarrow>
          (\<exists>rest. snd (bm_delete k s) = w # rest))"
proof -
  have wf: "jm_wf (bm_map s)" using assms by (simp add: bm_inv_def)
  show ?thesis
  proof (intro conjI allI impI)
    show "bm_inv (fst (bm_set k v s))" by (rule bm_set_inv [OF assms])
    show "bm_inv (fst (bm_delete k s))" by (rule bm_delete_inv [OF assms])
    show "bm_inv (fst (bm_updateCapacity c s))" by (rule bm_updateCapacity_inv [OF wf])
    show "fst (snd (bm_set k v s)) \<longleftrightarrow> of_nat (bm_size s) < bm_capacity s"
      by (simp add: bm_set_split bm_size_def)
  qed (auto intro: bm_set_size bm_delete_size [OF wf] bm_delete_wakes [OF wf])
qed

theorem bm_no_wait_with_room_witness:
  "let s = fst (bm_set 2 ''b'' (fst (bm_set (1 :: nat) ''a'' (bm_new 1)))) in
   bm_waiting s = [(2, ''b'')] \<and> (\<exists>rest. snd (bm_delete 1 s) = (2, ''b'') # rest)
   \<and> bm_inv (fst (bm_delete 1 s))"
proof -
  define s where "s = fst (bm_set 2 ''b'' (fst (bm_set (1 :: nat) ''a'' (bm_new 1))))"
  have s: "bm_inv s" unfolding s_def by (intro bm_set_inv bm_new_inv)
  have e: "bm_waiting s = [(2, ''b'')]" "bm_has s 1" "of_nat (bm_size s) < bm_capacity s + 1"
    unfolding s_def
    by (simp_all add: bm_set_def bm_new_def bm_resolveNextSetter_def jm_set_def bm_has_def jm_has_def
        jm_get_def bm_size_def)
  show ?thesis
    unfolding Let_def s_def [symmetric] using bm_no_wait_with_room [OF s] e by blast
qed

subsection \<open>The queue of outstanding entries\<close>

text \<open>
  \<open>bm_all\<close> is what the map holds followed by what waits to enter it. While no key occurs twice,
  admission does not change it, \<open>set\<close> appends to it and \<open>delete\<close> filters it: the map and its
  waiting list together behave as one queue.
\<close>

definition bm_all :: "('k, 'v) bmap \<Rightarrow> ('k \<times> 'v) list" where
  "bm_all m = bm_map m @ bm_waiting m"

definition bm_distinct :: "('k, 'v) bmap \<Rightarrow> bool" where
  "bm_distinct m \<longleftrightarrow> distinct (map fst (bm_all m))"

definition bm_waitKeys :: "('k, 'v) bmap \<Rightarrow> 'k set" where
  "bm_waitKeys m = fst ` set (bm_waiting m)"

lemma fold_jm_set_fresh:
  "distinct (jm_keys m @ map fst ws) \<Longrightarrow> fold (\<lambda>(k, v). jm_set k v) ws m = m @ ws"
proof (induction ws arbitrary: m)
  case Nil
  then show ?case by simp
next
  case (Cons w ws)
  obtain k v where w: "w = (k, v)" by (cases w)
  then have "jm_set k v m = m @ [(k, v)]" using Cons.prems by (intro jm_set_fresh) auto
  moreover have "distinct (jm_keys (m @ [(k, v)]) @ map fst ws)"
    using Cons.prems w by (auto simp: jm_keys_def)
  ultimately show ?case using Cons.IH [of "m @ [(k, v)]"] w by simp
qed

lemma bm_all_resolve:
  assumes "bm_distinct m"
  shows "bm_all (fst (bm_resolveNextSetter m)) = bm_all m"
proof -
  let ?r = "bm_resolveNextSetter m"
  have w: "bm_waiting m = snd ?r @ bm_waiting (fst ?r)" by (rule bm_resolve_fifo)
  have "distinct (jm_keys (bm_map m) @ map fst (snd ?r))"
    using assms unfolding bm_distinct_def bm_all_def w by (auto simp: jm_keys_def)
  then have "bm_map (fst ?r) = bm_map m @ snd ?r"
    unfolding bm_resolve_map by (rule fold_jm_set_fresh)
  then show ?thesis using w by (simp add: bm_all_def)
qed

lemma bm_all_updateCapacity: "bm_distinct m \<Longrightarrow> bm_all (fst (bm_updateCapacity c m)) = bm_all m"
  using bm_all_resolve [of "m\<lparr>bm_capacity := c\<rparr>"]
  by (simp add: bm_updateCapacity_def bm_distinct_def bm_all_def)

lemma bm_waitKeys_filter: "k \<notin> bm_waitKeys m \<Longrightarrow> filter (\<lambda>e. fst e \<noteq> k) (bm_waiting m) = bm_waiting m"
  by (auto simp: bm_waitKeys_def filter_id_conv)

lemma bm_all_delete:
  assumes "bm_distinct m" "k \<notin> bm_waitKeys m"
  shows "bm_all (fst (bm_delete k m)) = filter (\<lambda>e. fst e \<noteq> k) (bm_all m)"
proof (cases "jm_has (bm_map m) k")
  case True
  let ?m = "m\<lparr>bm_map := jm_del k (bm_map m)\<rparr>"
  have all: "bm_all ?m = filter (\<lambda>e. fst e \<noteq> k) (bm_all m)"
    using bm_waitKeys_filter [OF assms(2)] by (simp add: bm_all_def jm_del_filter)
  then have "bm_distinct ?m" using assms(1) by (simp add: bm_distinct_def distinct_map_filter)
  then show ?thesis using bm_all_resolve [of ?m] all True by (simp add: bm_delete_def)
next
  case False
  then have "k \<notin> fst ` set (bm_map m)" using jm_keys_dom [of k "bm_map m"] by (simp add: jm_has_def jm_keys_def)
  then have "filter (\<lambda>e. fst e \<noteq> k) (bm_map m) = bm_map m" by (auto simp: filter_id_conv)
  then show ?thesis using False bm_waitKeys_filter [OF assms(2)] by (simp add: bm_delete_def bm_all_def)
qed

lemma bm_all_set:
  assumes "bm_distinct m" "bm_inv m" "k \<notin> fst ` set (bm_all m)"
  shows "bm_all (fst (bm_set k v m)) = bm_all m @ [(k, v)]"
proof (cases "of_nat (length (bm_map m)) < bm_capacity m")
  case True
  let ?m = "m\<lparr>bm_map := jm_set k v (bm_map m)\<rparr>"
  have "jm_set k v (bm_map m) = bm_map m @ [(k, v)]"
    using assms(3) by (intro jm_set_fresh) (auto simp: bm_all_def jm_keys_def)
  moreover have "bm_waiting m = []" using assms(2) True by (auto simp: bm_inv_def bm_size_def)
  ultimately have all: "bm_all ?m = bm_all m @ [(k, v)]" by (simp add: bm_all_def)
  then have "bm_distinct ?m" using assms by (simp add: bm_distinct_def)
  then show ?thesis using bm_all_resolve [of ?m] all True by (simp add: bm_set_split)
next
  case False
  then show ?thesis by (simp add: bm_set_split bm_all_def)
qed

lemma bm_waiting_mono:
  "set (bm_waiting (fst (bm_resolveNextSetter m))) \<subseteq> set (bm_waiting m)"
  "set (bm_waiting (fst (bm_delete k m))) \<subseteq> set (bm_waiting m)"
  "set (bm_waiting (fst (bm_updateCapacity c m))) \<subseteq> set (bm_waiting m)"
  using bm_resolve_fifo [of m] bm_delete_fifo [of m k] bm_updateCapacity_fifo [of m c]
  by (metis Un_upper2 set_append)+

lemma bm_delete_capacity [simp]: "bm_capacity (fst (bm_delete k m)) = bm_capacity m"
  by (simp add: bm_delete_def bm_resolve_capacity)

lemma bm_set_capacity [simp]: "bm_capacity (fst (bm_set k v m)) = bm_capacity m"
  by (simp add: bm_set_split bm_resolve_capacity)

lemma bm_updateCapacity_capacity [simp]: "bm_capacity (fst (bm_updateCapacity c m)) = c"
  by (simp add: bm_updateCapacity_def bm_resolve_capacity)

lemma bm_updateCapacity_size:
  "c \<le> of_nat n \<Longrightarrow> bm_size (fst (bm_updateCapacity c m)) \<le> max (bm_size m) n"
  using bm_resolve_size [of "m\<lparr>bm_capacity := c\<rparr>" n] by (simp add: bm_updateCapacity_def bm_size_def)

end
