(* ===== verification/RttTracker.thy ===== *)
theory RttTracker imports JsFloat begin

text \<open>
  The round-trip estimator (\<open>src/utp_rtt_tracker.ts\<close>). The clock \<open>Date.now()\<close> and the time a
  packet was sent are integers of milliseconds, arguments of \<open>rtt_update\<close>. The sanity check
  throws inside the \<open>try\<close> of \<open>update\<close>: what was assigned before it stays, what comes after it
  is skipped.
\<close>

record rtt_tracker =
  rt_rtt :: rat
  rt_rttVar :: rat
  rt_baseDelay :: rat
  rt_rto :: rat

definition MIN_RTO :: rat where "MIN_RTO = 1000"
definition MAX_RTO :: rat where "MAX_RTO = 6000"

definition rtt_new :: rtt_tracker where
  "rtt_new = \<lparr>rt_rtt = 0, rt_rttVar = 0, rt_baseDelay = 0, rt_rto = MIN_RTO\<rparr>"

text \<open>The assignments before the sanity check.\<close>

definition rtt_sample :: "int \<Rightarrow> int \<Rightarrow> rtt_tracker \<Rightarrow> rtt_tracker" where
  "rtt_sample now sentTime t =
     (let ertt = of_int (max (now - sentTime) 1) in
      if rt_rtt t = 0 then t\<lparr>rt_rtt := ertt, rt_rttVar := fl (ertt / 2)\<rparr>
      else
        (let delta = fl (rt_rtt t - ertt) in
         t\<lparr>rt_rttVar := fl (rt_rttVar t + fl (fl (\<bar>delta\<bar> - rt_rttVar t) / 4)),
           rt_rtt := fl (fl (fl (rt_rtt t * 7) / 8) + fl (ertt / 8))\<rparr>))"

definition rtt_sanityCheckFails :: "rtt_tracker \<Rightarrow> bool" where
  "rtt_sanityCheckFails t \<longleftrightarrow> rt_rtt t \<ge> MAX_RTO"

definition rtt_update :: "int \<Rightarrow> int \<Rightarrow> rtt_tracker \<Rightarrow> rtt_tracker" where
  "rtt_update now sentTime t =
     (let t1 = rtt_sample now sentTime t in
      if rtt_sanityCheckFails t1 then t1
      else
        (let t2 = (if rt_baseDelay t1 = 0 \<or> rt_rtt t1 < rt_baseDelay t1
                   then t1\<lparr>rt_baseDelay := rt_rtt t1\<rparr> else t1)
         in t2\<lparr>rt_rto := max (fl (rt_rtt t2 + fl (rt_rttVar t2 * 4))) MIN_RTO\<rparr>))"

subsection \<open>Bounds\<close>

text \<open>
  \<open>rtt_inv M t\<close>: no sample seen yet, or every value is within what samples of at most \<open>M\<close>
  milliseconds can produce.
\<close>

definition rtt_inv :: "int \<Rightarrow> rtt_tracker \<Rightarrow> bool" where
  "rtt_inv M t \<longleftrightarrow>
     MIN_RTO \<le> rt_rto t \<and> rt_rto t \<le> max MIN_RTO (of_int (6 * M))
     \<and> (rt_rtt t = 0 \<or> 1 \<le> rt_rtt t \<and> rt_rtt t \<le> of_int M)
     \<and> 0 \<le> rt_rttVar t \<and> rt_rttVar t \<le> of_int (5 * M) / 4 \<and> representable (rt_rttVar t)"

lemma rtt_new_inv: "0 \<le> M \<Longrightarrow> rtt_inv M rtt_new"
  using representable_int [of 0] by (simp add: rtt_inv_def rtt_new_def MIN_RTO_def)

lemma representable_eighth: "\<bar>n\<bar> \<le> 2 ^ 53 \<Longrightarrow> representable (of_int n / 8)"
  using representable_dyadic [of n 3] by simp

lemma representable_quarter: "\<bar>n\<bar> \<le> 2 ^ 53 \<Longrightarrow> representable (of_int n / 4)"
  using representable_dyadic [of n 2] by simp

lemma average_between:
  assumes "1 \<le> b" "b \<le> (2 ^ 48 :: int)"
  shows "x \<le> of_int b \<Longrightarrow> y \<le> of_int b \<Longrightarrow> fl (fl (fl (x * 7) / 8) + fl (y / 8)) \<le> of_int b"
    and "of_int b \<le> x \<Longrightarrow> of_int b \<le> y \<Longrightarrow> of_int b \<le> fl (fl (fl (x * 7) / 8) + fl (y / 8))"
proof -
  have "representable (7 * of_int b)" "representable (7 * of_int b / 8)" "representable (of_int b / 8)"
    "representable (of_int b)"
    using assms representable_int [of "7 * b"] representable_int [of b]
      representable_eighth [of "7 * b"] representable_eighth [of b] by simp_all
  note r = dbl.rnd_average [OF this]
  show "x \<le> of_int b \<Longrightarrow> y \<le> of_int b \<Longrightarrow> fl (fl (fl (x * 7) / 8) + fl (y / 8)) \<le> of_int b"
    and "of_int b \<le> x \<Longrightarrow> of_int b \<le> y \<Longrightarrow> of_int b \<le> fl (fl (fl (x * 7) / 8) + fl (y / 8))"
    using r by blast+
qed

text \<open>One step of the deviation estimate: \<open>v + (a - v) / 4\<close> with rounding at each operation.\<close>

lemma deviation_step:
  assumes v: "0 \<le> v" "representable v" and a: "0 \<le> a" "a \<le> of_int M" "representable a"
    and vM: "v \<le> of_int (5 * M) / 4" and M: "0 \<le> M" "M \<le> 2 ^ 48"
  shows "0 \<le> fl (v + fl (fl (a - v) / 4))" and "fl (v + fl (fl (a - v) / 4)) \<le> of_int (5 * M) / 4"
proof -
  have rep0: "representable 0" using representable_int [of 0] by simp
  have b: "\<bar>M\<bar> \<le> 2 ^ 53" "\<bar>5 * M\<bar> \<le> 2 ^ 53" using M by simp_all
  have repM: "representable (of_int M / 4)" by (rule representable_quarter [OF b(1)])
  have rep5M: "representable (of_int (5 * M) / 4)" by (rule representable_quarter [OF b(2)])
  have repM1: "representable (of_int M)" by (rule representable_int [OF b(1)])
  have "- v \<le> fl (a - v)"
    using a v by (intro dbl.rnd_ge representable_minus) auto
  then have "- v \<le> fl (a - v) / 4" using v by linarith
  then have "- v \<le> fl (fl (a - v) / 4)"
    using v by (intro dbl.rnd_ge representable_minus) auto
  then show "0 \<le> fl (v + fl (fl (a - v) / 4))"
    by (intro dbl.rnd_ge rep0) linarith
  show "fl (v + fl (fl (a - v) / 4)) \<le> of_int (5 * M) / 4"
  proof (cases "a \<le> v")
    case True
    then have "fl (a - v) / 4 \<le> 0" using dbl.rnd_nonpos [of "a - v"] by simp
    then have "v + fl (fl (a - v) / 4) \<le> v" using dbl.rnd_nonpos by simp
    then show ?thesis using vM dbl.rnd_le [OF v(2)] by (metis order_trans)
  next
    case False
    have "fl (a - v) \<le> of_int M" using a v by (intro dbl.rnd_le repM1) linarith
    then have "fl (fl (a - v) / 4) \<le> of_int M / 4" by (intro dbl.rnd_le repM) simp
    then show ?thesis using False a(2) by (intro dbl.rnd_le rep5M) (simp add: field_simps)
  qed
qed

lemma rtt_sample_inv:
  assumes inv: "rtt_inv M t" and M: "1 \<le> M" "M \<le> 2 ^ 48" and s: "now - sent \<le> M"
  shows "1 \<le> rt_rtt (rtt_sample now sent t)" "rt_rtt (rtt_sample now sent t) \<le> of_int M"
    "0 \<le> rt_rttVar (rtt_sample now sent t)" "rt_rttVar (rtt_sample now sent t) \<le> of_int (5 * M) / 4"
    "representable (rt_rttVar (rtt_sample now sent t))"
    "rt_rto (rtt_sample now sent t) = rt_rto t" "rt_baseDelay (rtt_sample now sent t) = rt_baseDelay t"
proof -
  define e where "e = max (now - sent) 1"
  have e: "1 \<le> e" "e \<le> M" using s M by (auto simp: e_def)
  then have e': "1 \<le> (of_int e :: rat)" "(of_int e :: rat) \<le> of_int M" by simp_all
  let ?t = "rtt_sample now sent t"
  have "1 \<le> rt_rtt ?t \<and> rt_rtt ?t \<le> of_int M \<and> 0 \<le> rt_rttVar ?t \<and> rt_rttVar ?t \<le> of_int (5 * M) / 4
    \<and> representable (rt_rttVar ?t)"
  proof (cases "rt_rtt t = 0")
    case True
    then have t: "rt_rtt ?t = of_int e" "rt_rttVar ?t = fl (of_int e / 2)"
      by (simp_all add: rtt_sample_def Let_def e_def)
    have "fl (of_int e / 2) = of_int e / 2" using e M by (intro fl_half) auto
    moreover have "(of_int e :: rat) / 2 \<le> of_int (5 * M) / 4" using e' by simp
    ultimately show ?thesis using t e' fl_representable [of "of_int e / 2"] by simp
  next
    case False
    let ?d = "fl (rt_rtt t - of_int e)"
    have t: "rt_rtt ?t = fl (fl (fl (rt_rtt t * 7) / 8) + fl (of_int e / 8))"
      "rt_rttVar ?t = fl (rt_rttVar t + fl (fl (\<bar>?d\<bar> - rt_rttVar t) / 4))"
      using False by (simp_all add: rtt_sample_def Let_def e_def)
    have r: "1 \<le> rt_rtt t" "rt_rtt t \<le> of_int M" using inv False by (auto simp: rtt_inv_def)
    have repM: "representable (of_int M)" using M by (intro representable_int) simp
    have "rt_rtt t - of_int e \<le> of_int M" "- of_int M \<le> rt_rtt t - of_int e" using r e' by linarith+
    then have "?d \<le> of_int M" "- of_int M \<le> ?d"
      by (auto intro!: dbl.rnd_le dbl.rnd_ge representable_minus repM)
    then have d: "\<bar>?d\<bar> \<le> of_int M" by linarith
    have dr: "representable \<bar>?d\<bar>"
      using fl_representable [of "rt_rtt t - of_int e"] representable_minus by (auto simp: abs_if)
    have "1 \<le> rt_rtt ?t" "rt_rtt ?t \<le> of_int M"
      using average_between(2) [of 1 "rt_rtt t" "of_int e"] average_between(1) [of M "rt_rtt t" "of_int e"]
        r e' M by (simp_all add: t)
    moreover have "0 \<le> rt_rttVar ?t" "rt_rttVar ?t \<le> of_int (5 * M) / 4"
      using deviation_step [of "rt_rttVar t" "\<bar>?d\<bar>" M] inv d dr M by (simp_all add: t rtt_inv_def)
    ultimately show ?thesis using fl_representable by (simp add: t)
  qed
  then show "1 \<le> rt_rtt ?t" "rt_rtt ?t \<le> of_int M" "0 \<le> rt_rttVar ?t" "rt_rttVar ?t \<le> of_int (5 * M) / 4"
    "representable (rt_rttVar ?t)" by blast+
  show "rt_rto ?t = rt_rto t" "rt_baseDelay ?t = rt_baseDelay t"
    by (simp_all add: rtt_sample_def Let_def)
qed

lemma rtt_update_inv [inv_intros]:
  assumes inv: "rtt_inv M t" and M: "1 \<le> M" "M \<le> 2 ^ 48" and s: "now - sent \<le> M"
  shows "rtt_inv M (rtt_update now sent t)"
proof -
  let ?t1 = "rtt_sample now sent t"
  note t1 = rtt_sample_inv [OF assms]
  have rto: "MIN_RTO \<le> rt_rto t" "rt_rto t \<le> max MIN_RTO (of_int (6 * M))"
    using inv by (simp_all add: rtt_inv_def)
  have "fl (rt_rttVar ?t1 * 4) \<le> of_int (5 * M)"
    using t1(4) M by (intro dbl.rnd_le representable_int) (simp_all add: field_simps)
  then have sum: "fl (rt_rtt ?t1 + fl (rt_rttVar ?t1 * 4)) \<le> of_int (6 * M)"
    using t1(2) M by (intro dbl.rnd_le representable_int) simp_all
  show ?thesis
    using t1 rto sum by (auto simp: rtt_update_def rtt_inv_def Let_def)
qed

lemma rtt_update_nonneg: "0 \<le> rt_rtt t \<Longrightarrow> 0 \<le> rt_rtt (rtt_update now sent t)"
proof -
  assume "0 \<le> rt_rtt t"
  then have "0 \<le> fl (fl (fl (rt_rtt t * 7) / 8) + fl (of_int (max (now - sent) 1) / 8))"
    by (intro dbl.rnd_nonneg add_nonneg_nonneg divide_nonneg_pos mult_nonneg_nonneg) simp_all
  moreover have "0 \<le> max (now - sent) 1" by simp
  ultimately have "0 \<le> rt_rtt (rtt_sample now sent t)" by (simp add: rtt_sample_def Let_def)
  then show ?thesis by (simp add: rtt_update_def Let_def)
qed

text \<open>The tracker after a list of (clock, send time) measurements.\<close>

definition rtt_updates :: "(int \<times> int) list \<Rightarrow> rtt_tracker \<Rightarrow> rtt_tracker" where
  "rtt_updates ms t = fold (\<lambda>(now, sent). rtt_update now sent) ms t"

lemma rtt_updates_inv:
  "rtt_inv M t \<Longrightarrow> 1 \<le> M \<Longrightarrow> M \<le> 2 ^ 48 \<Longrightarrow> \<forall>(now, sent) \<in> set ms. now - sent \<le> M
   \<Longrightarrow> rtt_inv M (rtt_updates ms t)"
proof (induction ms arbitrary: t)
  case Nil
  then show ?case by (simp add: rtt_updates_def)
next
  case (Cons m ms)
  obtain now sent where m: "m = (now, sent)" by (cases m)
  have "rtt_inv M (rtt_update now sent t)"
    using Cons.prems m by (intro rtt_update_inv) auto
  then show ?case using Cons m by (simp add: rtt_updates_def)
qed

lemma rtt_update_rtt_pos:
  assumes "rtt_inv M t" "1 \<le> M" "M \<le> 2 ^ 48" "now - sent \<le> M"
  shows "1 \<le> rt_rtt (rtt_update now sent t)"
  using rtt_sample_inv(1) [OF assms] by (simp add: rtt_update_def Let_def)

text \<open>
  C37. The estimator is bounded under binary64 rounding: if no measurement exceeds \<open>M\<close>
  milliseconds, then after any measurements the smoothed RTT is between 1 and \<open>M\<close> (or 0 before the
  first one), the deviation is between 0 and \<open>5 M / 4\<close>, and the retransmission timeout is at least
  one second and at most \<open>max 1000 (6 M)\<close>. In particular the RTT is never 0 once a measurement
  was taken, so the test for the first sample is sound.
\<close>

theorem rtt_bounded:
  assumes "1 \<le> M" and "M \<le> 2 ^ 48" and "\<forall>(now, sent) \<in> set ms. now - sent \<le> M"
  shows "rtt_inv M (rtt_updates ms rtt_new) \<and> (rt_rtt (rtt_updates ms rtt_new) = 0 \<longleftrightarrow> ms = [])"
proof
  have new: "rtt_inv M rtt_new" using assms by (intro rtt_new_inv) simp
  then show "rtt_inv M (rtt_updates ms rtt_new)" by (rule rtt_updates_inv [OF _ assms])
  show "rt_rtt (rtt_updates ms rtt_new) = 0 \<longleftrightarrow> ms = []"
  proof (cases ms rule: rev_cases)
    case Nil
    then show ?thesis by (simp add: rtt_updates_def rtt_new_def)
  next
    case (snoc ms' m)
    obtain now sent where m: "m = (now, sent)" by (cases m)
    have "rtt_inv M (rtt_updates ms' rtt_new)"
      using assms snoc by (intro rtt_updates_inv [OF new]) auto
    then have "1 \<le> rt_rtt (rtt_update now sent (rtt_updates ms' rtt_new))"
      using assms snoc m by (intro rtt_update_rtt_pos) auto
    then show ?thesis using snoc m by (simp add: rtt_updates_def)
  qed
qed

theorem rtt_bounded_witness:
  "rtt_inv 800 (rtt_updates [(1000, 900), (1800, 1000), (1900, 1900)] rtt_new)
   \<and> 1000 \<le> rt_rto (rtt_updates [(1000, 900), (1800, 1000), (1900, 1900)] rtt_new)
   \<and> rt_rto (rtt_updates [(1000, 900), (1800, 1000), (1900, 1900)] rtt_new) \<le> 4800"
proof -
  define t where "t = rtt_updates [(1000, 900), (1800, 1000), (1900, 1900)] rtt_new"
  have "rtt_inv 800 t"
    using rtt_bounded [of 800 "[(1000, 900), (1800, 1000), (1900, 1900)]"] by (simp add: t_def)
  moreover from this have "1000 \<le> rt_rto t" "rt_rto t \<le> 4800"
    unfolding rtt_inv_def MIN_RTO_def by simp_all
  ultimately show ?thesis by (simp add: t_def [symmetric])
qed

text \<open>
  C33. The name \<open>MAX_RTO\<close> (6 s) does not bound the timeout: it is only the sanity limit of the
  RTT. For every first measurement between 334 ms and the sanity limit, the timeout is three times
  the measurement, up to almost 18 s.
\<close>

theorem rtt_first_timeout:
  assumes "334 \<le> now - sent" and "now - sent < 6000"
  shows "rt_rto (rtt_update now sent rtt_new) = of_int (3 * (now - sent))"
proof -
  define e where "e = now - sent"
  have e: "334 \<le> e" "e < 6000" "max (now - sent) 1 = e" using assms by (auto simp: e_def)
  have h: "fl (of_int e / 2) = of_int e / 2" using e by (intro fl_half) auto
  have d: "fl (of_int e * 2) = of_int e * 2"
    using fl_exact [OF representable_int [of "e * 2"]] e by simp
  have t: "fl (of_int e * 3) = of_int e * 3"
    using fl_exact [OF representable_int [of "e * 3"]] e by (simp add: mult.commute)
  have "(of_int e :: rat) < 6000" "334 \<le> (of_int e :: rat)" using e by simp_all
  then have "rt_rto (rtt_update now sent rtt_new) = max (fl (of_int e + fl (of_int e / 2 * 4))) MIN_RTO"
    by (simp add: rtt_update_def rtt_sample_def rtt_new_def rtt_sanityCheckFails_def MAX_RTO_def Let_def e(3) h)
  also have "of_int e / 2 * 4 = (of_int e * 2 :: rat)" by simp
  also have "fl (of_int e + fl (of_int e * 2)) = of_int e * 3"
    unfolding d using t by (simp add: algebra_simps)
  also have "max (of_int e * 3) MIN_RTO = (of_int e * 3 :: rat)"
    using \<open>334 \<le> (of_int e :: rat)\<close> by (simp add: MIN_RTO_def)
  finally show ?thesis by (simp add: e_def)
qed

theorem rtt_first_timeout_witness: "MAX_RTO < rt_rto (rtt_update 5000 0 rtt_new)"
  using rtt_first_timeout [of 5000 0] by (simp add: MAX_RTO_def)

end
