(* ===== verification/Congestion.thy ===== *)
theory Congestion imports JsFloat begin

text \<open>
  The LEDBAT-style congestion controller (\<open>src/utp_congestion_control.ts\<close>). Every field is a
  binary64 number, every arithmetic operation is rounded with \<open>fl\<close> (\<open>Math.max\<close>, \<open>Math.min\<close> and
  \<open>Math.ceil\<close> are exact). The window is counted in packets.
\<close>

record congestion =
  cc_windowSize :: rat
  cc_baseDelay :: rat
  cc_queueDelay :: rat
  cc_targetDelay :: rat
  cc_lastMaxDelay :: rat
  cc_gain :: rat

definition MAX_SAFE_INTEGER :: rat where "MAX_SAFE_INTEGER = 2 ^ 53 - 1"

definition cc_new :: "rat \<Rightarrow> rat \<Rightarrow> congestion" where
  "cc_new windowSize targetDelay =
     \<lparr>cc_windowSize = windowSize, cc_baseDelay = MAX_SAFE_INTEGER, cc_queueDelay = 0,
      cc_targetDelay = targetDelay, cc_lastMaxDelay = 0, cc_gain = 1\<rparr>"

definition cc_windowIncrease :: "congestion \<Rightarrow> rat" where
  "cc_windowIncrease c =
     (let offTarget = fl (fl (cc_targetDelay c - cc_queueDelay c) / cc_targetDelay c)
      in fl (cc_gain c * offTarget))"

definition cc_updateWindowSize :: "congestion \<Rightarrow> congestion" where
  "cc_updateWindowSize c =
     (let windowIncrease = cc_windowIncrease c;
          w = (if cc_queueDelay c \<le> cc_targetDelay c then fl (cc_windowSize c + windowIncrease)
               else if cc_queueDelay c > cc_lastMaxDelay c
                 then fl (cc_windowSize c * fl (1 - windowIncrease))
                 else cc_windowSize c)
      in c\<lparr>cc_windowSize := of_int \<lceil>max w 1\<rceil>, cc_lastMaxDelay := cc_queueDelay c\<rparr>)"

definition cc_updateRtt :: "rat \<Rightarrow> congestion \<Rightarrow> congestion" where
  "cc_updateRtt measuredRtt c =
     (let base = min (cc_baseDelay c) measuredRtt in
      cc_updateWindowSize (c\<lparr>cc_baseDelay := base, cc_queueDelay := fl (measuredRtt - base)\<rparr>))"

definition cc_onPacketLoss :: "congestion \<Rightarrow> congestion" where
  "cc_onPacketLoss c = c\<lparr>cc_windowSize := max (fl (cc_windowSize c * (1 / 2))) 1\<rparr>"

definition cc_getWindowSize :: "congestion \<Rightarrow> rat" where
  "cc_getWindowSize c = cc_windowSize c"

definition cc_reset :: "congestion \<Rightarrow> congestion" where
  "cc_reset c = c\<lparr>cc_windowSize := 1, cc_baseDelay := MAX_SAFE_INTEGER, cc_queueDelay := 0,
                  cc_lastMaxDelay := 0\<rparr>"

subsection \<open>Invariant\<close>

definition cc_inv :: "congestion \<Rightarrow> bool" where
  "cc_inv c \<longleftrightarrow> 1 \<le> cc_windowSize c \<and> cc_gain c = 1 \<and> 0 < cc_targetDelay c
     \<and> 0 \<le> cc_queueDelay c \<and> 0 \<le> cc_baseDelay c"

lemma cc_new_inv [inv_intros]: "1 \<le> w \<Longrightarrow> 0 < d \<Longrightarrow> cc_inv (cc_new w d)"
  by (simp add: cc_inv_def cc_new_def MAX_SAFE_INTEGER_def)

lemma cc_updateWindowSize_frame [simp]:
  "cc_baseDelay (cc_updateWindowSize c) = cc_baseDelay c"
  "cc_queueDelay (cc_updateWindowSize c) = cc_queueDelay c"
  "cc_targetDelay (cc_updateWindowSize c) = cc_targetDelay c"
  "cc_gain (cc_updateWindowSize c) = cc_gain c"
  "cc_lastMaxDelay (cc_updateWindowSize c) = cc_queueDelay c"
  by (simp_all add: cc_updateWindowSize_def Let_def)

lemma cc_updateRtt_frame [simp]:
  "cc_baseDelay (cc_updateRtt r c) = min (cc_baseDelay c) r"
  "cc_queueDelay (cc_updateRtt r c) = fl (r - min (cc_baseDelay c) r)"
  "cc_targetDelay (cc_updateRtt r c) = cc_targetDelay c"
  "cc_gain (cc_updateRtt r c) = cc_gain c"
  "cc_lastMaxDelay (cc_updateRtt r c) = fl (r - min (cc_baseDelay c) r)"
  by (simp_all add: cc_updateRtt_def Let_def)

lemma cc_updateWindowSize_ge_1: "1 \<le> cc_windowSize (cc_updateWindowSize c)"
  by (simp add: cc_updateWindowSize_def Let_def le_ceiling_iff less_max_iff_disj)

lemma cc_updateRtt_inv [inv_intros]: "cc_inv c \<Longrightarrow> 0 \<le> r \<Longrightarrow> cc_inv (cc_updateRtt r c)"
  using cc_updateWindowSize_ge_1 dbl.rnd_nonneg
  by (simp add: cc_inv_def) (simp add: cc_updateRtt_def Let_def)

lemma cc_onPacketLoss_inv [inv_intros]: "cc_inv c \<Longrightarrow> cc_inv (cc_onPacketLoss c)"
  by (simp add: cc_inv_def cc_onPacketLoss_def)

lemma cc_reset_inv [inv_intros]: "cc_inv c \<Longrightarrow> cc_inv (cc_reset c)"
  by (simp add: cc_inv_def cc_reset_def MAX_SAFE_INTEGER_def)

text \<open>The sign and size of the increase, under rounding.\<close>

lemma cc_windowIncrease_bounds:
  assumes "cc_inv c"
  shows "cc_queueDelay c \<le> cc_targetDelay c \<Longrightarrow> 0 \<le> cc_windowIncrease c"
    and "representable (cc_targetDelay c) \<Longrightarrow> cc_windowIncrease c \<le> 1"
    and "cc_targetDelay c < cc_queueDelay c \<Longrightarrow> cc_windowIncrease c \<le> 0"
proof -
  let ?t = "cc_targetDelay c" and ?q = "cc_queueDelay c"
  have t: "0 < ?t" and q: "0 \<le> ?q" and g: "cc_gain c = 1" using assms by (simp_all add: cc_inv_def)
  have w: "cc_windowIncrease c = fl (fl (?t - ?q) / ?t)"
    by (simp add: cc_windowIncrease_def g dbl.rnd_rnd)
  show "0 \<le> cc_windowIncrease c" if "?q \<le> ?t"
    unfolding w using that t dbl.rnd_nonneg [of "?t - ?q"]
    by (intro dbl.rnd_nonneg divide_nonneg_pos) simp_all
  show "cc_windowIncrease c \<le> 0" if "?t < ?q"
    unfolding w using that t dbl.rnd_nonpos [of "?t - ?q"]
    by (intro dbl.rnd_nonpos divide_nonpos_pos) simp_all
  show "cc_windowIncrease c \<le> 1" if "representable ?t"
  proof -
    have "fl (?t - ?q) \<le> ?t" using that q by (intro dbl.rnd_le) simp_all
    then have "fl (?t - ?q) / ?t \<le> 1" using t by simp
    then show ?thesis unfolding w using representable_int [of 1] by (intro dbl.rnd_le) simp_all
  qed
qed

lemma cc_updateWindowSize_mono:
  assumes "cc_inv c" "representable (cc_windowSize c)"
  shows "cc_windowSize c \<le> cc_windowSize (cc_updateWindowSize c)"
proof -
  let ?w = "cc_windowSize c"
  have w: "1 \<le> ?w" using assms by (simp add: cc_inv_def)
  have "?w \<le> fl (?w + cc_windowIncrease c)" if "cc_queueDelay c \<le> cc_targetDelay c"
    using cc_windowIncrease_bounds(1) [OF assms(1) that] assms(2) by (intro dbl.rnd_ge) simp_all
  moreover have "?w \<le> fl (?w * fl (1 - cc_windowIncrease c))" if "cc_targetDelay c < cc_queueDelay c"
  proof -
    have "1 \<le> fl (1 - cc_windowIncrease c)"
      using cc_windowIncrease_bounds(3) [OF assms(1) that] representable_int [of 1]
      by (intro dbl.rnd_ge) simp_all
    then have "?w \<le> ?w * fl (1 - cc_windowIncrease c)"
      using w mult_left_mono [of 1 "fl (1 - cc_windowIncrease c)" ?w] by simp
    then show ?thesis by (rule dbl.rnd_ge [OF assms(2)])
  qed
  moreover have "x \<le> of_int \<lceil>max x (1 :: rat)\<rceil>" for x
    using le_of_int_ceiling [of "max x 1"] by linarith
  ultimately show ?thesis
    unfolding cc_updateWindowSize_def Let_def by (simp, meson not_le order_trans)
qed

subsection \<open>Runs\<close>

datatype cc_event = Measured rat | Lost

fun cc_step :: "cc_event \<Rightarrow> congestion \<Rightarrow> congestion" where
  "cc_step (Measured r) c = cc_updateRtt r c"
| "cc_step Lost c = cc_onPacketLoss c"

definition cc_run :: "cc_event list \<Rightarrow> congestion \<Rightarrow> congestion" where
  "cc_run es c = fold cc_step es c"

definition measurements :: "cc_event list \<Rightarrow> rat list" where
  "measurements es = List.map_filter (\<lambda>e. case e of Measured r \<Rightarrow> Some r | Lost \<Rightarrow> None) es"

lemma measurements_simps [simp]:
  "measurements [] = []"
  "measurements (Measured r # es) = r # measurements es"
  "measurements (Lost # es) = measurements es"
  "measurements (es @ es') = measurements es @ measurements es'"
  by (simp_all add: measurements_def List.map_filter_def)

lemma cc_run_snoc: "cc_run (es @ [e]) c = cc_step e (cc_run es c)"
  by (simp add: cc_run_def)

lemma cc_run_inv: "cc_inv c \<Longrightarrow> \<forall>r \<in> set (measurements es). 0 \<le> r \<Longrightarrow> cc_inv (cc_run es c)"
proof (induction es rule: rev_induct)
  case Nil
  then show ?case by (simp add: cc_run_def)
next
  case (snoc e es)
  then show ?case by (cases e) (simp_all add: cc_run_snoc inv_intros)
qed

lemma cc_onPacketLoss_frame [simp]:
  "cc_baseDelay (cc_onPacketLoss c) = cc_baseDelay c"
  by (simp add: cc_onPacketLoss_def)

lemma cc_run_base: "cc_baseDelay (cc_run es c) = fold min (measurements es) (cc_baseDelay c)"
proof (induction es rule: rev_induct)
  case Nil
  then show ?case by (simp add: cc_run_def)
next
  case (snoc e es)
  then show ?case by (cases e) (simp_all add: cc_run_snoc min.commute)
qed

lemma fold_min_le: "fold min xs (b :: rat) \<le> b" "x \<in> set xs \<Longrightarrow> fold min xs b \<le> x"
proof (induction xs arbitrary: b)
  case Nil
  { case 1 then show ?case by simp }
  { case 2 then show ?case by simp }
next
  case (Cons y ys)
  { case 1 then show ?case using Cons.IH(1) [of "min y b"] by simp }
  { case 2 then show ?case using Cons.IH [of "min y b"] by auto }
qed

lemma fold_min_in: "fold min xs (b :: rat) \<in> insert b (set xs)"
  by (induction xs arbitrary: b) (simp, fastforce simp: min_def)

text \<open>
  Over any history of RTT measurements and losses, the controller keeps its invariant (the
  window never falls below one packet, the queueing delay is never negative) and the base delay is
  the least measurement ever seen. In particular one measurement of 0 makes the base delay 0 for
  good: from then on the whole RTT is taken as queueing delay.
\<close>

theorem cc_run_base_delay:
  assumes "cc_inv c" and "\<forall>r \<in> set (measurements es). 0 \<le> r"
  shows "cc_inv (cc_run es c)
    \<and> (\<forall>r \<in> set (measurements es). cc_baseDelay (cc_run es c) \<le> r)
    \<and> cc_baseDelay (cc_run es c) \<in> insert (cc_baseDelay c) (set (measurements es))
    \<and> (0 \<in> set (measurements es) \<longrightarrow> (\<forall>r. cc_queueDelay (cc_updateRtt (fl \<bar>r\<bar>) (cc_run es c)) = fl \<bar>r\<bar>))"
proof (intro conjI ballI impI allI)
  show inv: "cc_inv (cc_run es c)" using assms by (rule cc_run_inv)
  show "cc_baseDelay (cc_run es c) \<le> r" if "r \<in> set (measurements es)" for r
    using fold_min_le(2) [OF that] by (simp add: cc_run_base)
  show "cc_baseDelay (cc_run es c) \<in> insert (cc_baseDelay c) (set (measurements es))"
    using fold_min_in by (simp add: cc_run_base)
  show "cc_queueDelay (cc_updateRtt (fl \<bar>r\<bar>) (cc_run es c)) = fl \<bar>r\<bar>" if "0 \<in> set (measurements es)" for r
  proof -
    have "cc_baseDelay (cc_run es c) = 0"
      using fold_min_le(2) [OF that, of "cc_baseDelay c"] inv by (simp add: cc_run_base cc_inv_def)
    moreover have "min 0 (fl \<bar>r\<bar>) = 0" using dbl.rnd_nonneg [of "\<bar>r\<bar>"] by simp
    ultimately show ?thesis by (simp add: dbl.rnd_rnd)
  qed
qed

theorem cc_run_base_delay_witness:
  "cc_baseDelay (cc_run [Measured 0, Lost, Measured 250] (cc_new 4 100)) = 0"
proof -
  let ?es = "[Measured 0, Lost, Measured 250]"
  have "cc_inv (cc_new 4 100)" by (intro cc_new_inv) simp_all
  from cc_run_base_delay [OF this, of ?es]
  have "cc_inv (cc_run ?es (cc_new 4 100))" "cc_baseDelay (cc_run ?es (cc_new 4 100)) \<le> 0" by simp_all
  then show ?thesis by (simp add: cc_inv_def)
qed

text \<open>
  C25. \<open>updateRtt\<close> never shrinks the window. Below the delay target it grows it by at most one
  packet (then rounds up); above the target it either leaves it or, when the delay has risen since
  the last update, multiplies it by \<open>1 - windowIncrease\<close>, which is at least 1 because the increase
  is not positive there. The comment on that branch says the window is reduced; only a packet loss
  reduces it.
\<close>

theorem cc_updateRtt_never_shrinks:
  assumes "cc_inv c" and "representable (cc_windowSize c)" and "representable (cc_targetDelay c)"
    and "0 \<le> r"
  shows "cc_windowSize c \<le> cc_windowSize (cc_updateRtt r c)
    \<and> (cc_queueDelay (cc_updateRtt r c) \<le> cc_targetDelay c \<longrightarrow>
        cc_windowSize (cc_updateRtt r c) \<le> of_int \<lceil>fl (cc_windowSize c + 1)\<rceil>)
    \<and> cc_windowSize (cc_onPacketLoss c) \<le> cc_windowSize c"
proof (intro conjI impI)
  let ?c = "c\<lparr>cc_baseDelay := min (cc_baseDelay c) r,
               cc_queueDelay := fl (r - min (cc_baseDelay c) r)\<rparr>"
  have u: "cc_updateRtt r c = cc_updateWindowSize ?c" by (simp add: cc_updateRtt_def Let_def)
  have inv: "cc_inv ?c" using assms dbl.rnd_nonneg by (simp add: cc_inv_def)
  show "cc_windowSize c \<le> cc_windowSize (cc_updateRtt r c)"
    using cc_updateWindowSize_mono [OF inv] assms(2) by (simp add: u)
  have w1: "1 \<le> cc_windowSize c" using assms(1) by (simp add: cc_inv_def)
  show "cc_windowSize (cc_updateRtt r c) \<le> of_int \<lceil>fl (cc_windowSize c + 1)\<rceil>"
    if "cc_queueDelay (cc_updateRtt r c) \<le> cc_targetDelay c"
  proof -
    have le: "cc_queueDelay ?c \<le> cc_targetDelay ?c" using that by simp
    have "fl (cc_windowSize c + cc_windowIncrease ?c) \<le> fl (cc_windowSize c + 1)"
      using cc_windowIncrease_bounds(2) [OF inv] assms(3) by (intro dbl.rnd_mono) simp
    moreover have "1 \<le> fl (cc_windowSize c + 1)"
      using w1 representable_int [of 1] by (intro dbl.rnd_ge) simp_all
    ultimately have "\<lceil>max (fl (cc_windowSize c + cc_windowIncrease ?c)) 1\<rceil> \<le> \<lceil>fl (cc_windowSize c + 1)\<rceil>"
      by (intro ceiling_mono) simp
    then show ?thesis using le by (simp add: u cc_updateWindowSize_def Let_def)
  qed
  have "fl (cc_windowSize c * (1 / 2)) \<le> cc_windowSize c"
    using w1 assms(2) by (intro dbl.rnd_le) simp_all
  then show "cc_windowSize (cc_onPacketLoss c) \<le> cc_windowSize c"
    using w1 by (simp add: cc_onPacketLoss_def)
qed

theorem cc_updateRtt_never_shrinks_witness:
  "let c = (cc_new 10 100)\<lparr>cc_baseDelay := 50\<rparr> in
   cc_targetDelay c < cc_queueDelay (cc_updateRtt 250 c)
   \<and> cc_lastMaxDelay c < cc_queueDelay (cc_updateRtt 250 c)
   \<and> 10 \<le> cc_windowSize (cc_updateRtt 250 c)"
proof -
  define c where "c = (cc_new 10 100)\<lparr>cc_baseDelay := 50\<rparr>"
  have "cc_inv c" "cc_windowSize c = 10" "cc_targetDelay c = 100" "cc_baseDelay c = 50" "cc_lastMaxDelay c = 0"
    by (simp_all add: c_def cc_inv_def cc_new_def)
  moreover have "representable 10" "representable 100"
    using representable_int [of 10] representable_int [of 100] by simp_all
  ultimately show ?thesis
    using cc_updateRtt_never_shrinks [of c 250] by (simp add: c_def [symmetric])
qed

end
