(* ===== verification/Addr.thy ===== *)
theory Addr imports Prelude begin

text \<open>
  Addresses and connection identifiers (\<open>src/utp_addr.ts\<close>, the host-name checks and the hash of
  \<open>src/utilt.ts\<close>, \<open>generateUniqueId\<close> of \<open>src/utp_conn.ts\<close>). A string is its list of code units
  below 256; no character above that passes a host-name check. Regular expressions are written
  out as the character conditions they state.
\<close>

subsection \<open>Strings of the language\<close>

definition js_startsWith :: "string \<Rightarrow> string \<Rightarrow> bool" where
  "js_startsWith p s \<longleftrightarrow> take (length p) s = p"

definition js_endsWith :: "string \<Rightarrow> string \<Rightarrow> bool" where
  "js_endsWith p s \<longleftrightarrow> length p \<le> length s \<and> drop (length s - length p) s = p"

fun js_includes :: "string \<Rightarrow> string \<Rightarrow> bool" where
  "js_includes p [] \<longleftrightarrow> p = []"
| "js_includes p (x # xs) \<longleftrightarrow> js_startsWith p (x # xs) \<or> js_includes p xs"

function js_split :: "string \<Rightarrow> string \<Rightarrow> string list" where
  "js_split sep s =
     (if s = [] then [[]]
      else if sep \<noteq> [] \<and> js_startsWith sep s then [] # js_split sep (drop (length sep) s)
      else (case js_split sep (tl s) of [] \<Rightarrow> [] | p # ps \<Rightarrow> (hd s # p) # ps))"
  by pat_completeness auto
termination by (relation "measure (\<lambda>(sep, s). length s)") auto

declare js_split.simps [simp del]

text \<open>The number of matches of a global regular expression that is a plain text.\<close>

function js_matchCount :: "string \<Rightarrow> string \<Rightarrow> nat" where
  "js_matchCount pat s =
     (if s = [] then 0
      else if pat \<noteq> [] \<and> js_startsWith pat s then Suc (js_matchCount pat (drop (length pat) s))
      else js_matchCount pat (tl s))"
  by pat_completeness auto
termination by (relation "measure (\<lambda>(pat, s). length s)") auto

declare js_matchCount.simps [simp del]

definition char_digit :: "nat \<Rightarrow> char" where
  "char_digit n = char_of (48 + n)"

definition is_digit :: "char \<Rightarrow> bool" where
  "is_digit c \<longleftrightarrow> 48 \<le> (of_char c :: nat) \<and> (of_char c :: nat) \<le> 57"

definition is_hex :: "char \<Rightarrow> bool" where
  "is_hex c \<longleftrightarrow> is_digit c \<or> 97 \<le> (of_char c :: nat) \<and> (of_char c :: nat) \<le> 102
     \<or> 65 \<le> (of_char c :: nat) \<and> (of_char c :: nat) \<le> 70"

definition is_alnum :: "char \<Rightarrow> bool" where
  "is_alnum c \<longleftrightarrow> is_digit c \<or> 97 \<le> (of_char c :: nat) \<and> (of_char c :: nat) \<le> 122
     \<or> 65 \<le> (of_char c :: nat) \<and> (of_char c :: nat) \<le> 90"

definition is_space :: "char \<Rightarrow> bool" where
  "is_space c \<longleftrightarrow> (of_char c :: nat) \<in> {9, 10, 11, 12, 13, 32, 160}"

fun nat_toString :: "nat \<Rightarrow> string" where
  "nat_toString n =
     (if n < 10 then [char_digit n] else nat_toString (n div 10) @ [char_digit (n mod 10)])"

declare nat_toString.simps [simp del]

definition int_toString :: "int \<Rightarrow> string" where
  "int_toString i = (if i < 0 then CHR ''-'' # nat_toString (nat (- i)) else nat_toString (nat i))"

definition digits_value :: "string \<Rightarrow> nat" where
  "digits_value ds = fold (\<lambda>c v. 10 * v + (of_char c - 48)) ds 0"

definition js_parseInt :: "string \<Rightarrow> int option" where
  "js_parseInt s =
     (let t = dropWhile is_space s;
          neg = js_startsWith ''-'' t;
          u = (if js_startsWith ''-'' t \<or> js_startsWith ''+'' t then tl t else t);
          ds = takeWhile is_digit u
      in if ds = [] then None
         else Some (if neg then - int (digits_value ds) else int (digits_value ds)))"

subsection \<open>Host names\<close>

definition isIPv4 :: "string \<Rightarrow> bool" where
  "isIPv4 hostname =
     (let parts = js_split ''.'' hostname in
      length parts = 4
      \<and> list_all (\<lambda>part. case js_parseInt part of None \<Rightarrow> False
                  | Some num \<Rightarrow> num \<ge> 0 \<and> num \<le> 255 \<and> part = int_toString num) parts)"

definition is_hexGroup :: "string \<Rightarrow> bool" where
  "is_hexGroup part \<longleftrightarrow> 1 \<le> length part \<and> length part \<le> 4 \<and> list_all is_hex part"

definition strip_brackets :: "string \<Rightarrow> string" where
  "strip_brackets h =
     (let h1 = (if js_startsWith ''['' h then tl h else h)
      in if js_endsWith '']'' h1 then butlast h1 else h1)"

definition isIPv6 :: "string \<Rightarrow> bool" where
  "isIPv6 hostname0 =
     (let hostname = strip_brackets hostname0 in
      if js_includes ''::'' hostname then
        (if js_matchCount ''::'' hostname > 1 then False
         else
           (let parts = js_split ''::'' hostname in
            if length parts > 2 then False
            else
              (let before = (if parts ! 0 = [] then [] else js_split '':'' (parts ! 0));
                   after = (if length parts \<le> 1 \<or> parts ! 1 = [] then [] else js_split '':'' (parts ! 1));
                   missing = 8 - int (length before + length after)
               in if missing < 0 then False else list_all is_hexGroup (before @ after))))
      else
        (let parts = js_split '':'' hostname
         in if length parts \<noteq> 8 then False else list_all is_hexGroup parts))"

definition is_label :: "string \<Rightarrow> bool" where
  "is_label label \<longleftrightarrow> label \<noteq> [] \<and> length label \<le> 63
     \<and> is_alnum (hd label) \<and> is_alnum (last label)
     \<and> list_all (\<lambda>c. is_alnum c \<or> c = CHR ''-'') label"

definition isDomain :: "string \<Rightarrow> bool" where
  "isDomain hostname =
     (if hostname = [] \<or> length hostname > 255 then False
      else
        (let labels = js_split ''.'' hostname in
         if length labels < 2 then False
         else if js_startsWith ''.'' hostname \<or> js_endsWith ''.'' hostname \<or> js_includes ''..'' hostname then False
         else list_all is_label labels))"

definition isValidHostname :: "string \<Rightarrow> bool" where
  "isValidHostname hostname =
     (if hostname = [] then False
      else if hostname = ''localhost'' then True
      else isIPv4 hostname \<or> isIPv6 hostname \<or> isDomain hostname)"

definition str_hashCode :: "string \<Rightarrow> int" where
  "str_hashCode str =
     fold (\<lambda>c hash. js_or (js_shl hash 5 - hash + int (of_char c)) 0) str 0"

subsection \<open>Addresses\<close>

record utp_addr =
  ua_port :: int
  ua_hostname :: string

definition addr_create :: "int \<Rightarrow> string \<Rightarrow> js_error + utp_addr" where
  "addr_create port hostname =
     (if port < 0 \<or> port > 65535 then Inl (InvalidPort port)
      else if \<not> isValidHostname hostname then Inl (InvalidHostname hostname)
      else Inr \<lparr>ua_port = port, ua_hostname = hostname\<rparr>)"

text \<open>The addresses the runtime hands over: a network address, or a socket path without a port.\<close>

datatype deno_addr = NetAddr int string | UnixAddr string

definition addr_fromDenoAddr :: "deno_addr \<Rightarrow> js_error + utp_addr" where
  "addr_fromDenoAddr addr =
     (case addr of NetAddr port hostname \<Rightarrow> addr_create port hostname | UnixAddr path \<Rightarrow> Inl InvalidAddr)"

definition addr_toString :: "utp_addr \<Rightarrow> string" where
  "addr_toString a = ua_hostname a @ '':'' @ int_toString (ua_port a)"

definition addr_equals :: "utp_addr \<Rightarrow> utp_addr \<Rightarrow> bool" where
  "addr_equals a b \<longleftrightarrow> ua_port a = ua_port b \<and> ua_hostname a = ua_hostname b"

definition addr_hashCode :: "utp_addr \<Rightarrow> int" where
  "addr_hashCode a = ua_port a * 31 + str_hashCode (ua_hostname a)"

definition generateUniqueId :: "utp_addr \<Rightarrow> int \<Rightarrow> int \<Rightarrow> string" where
  "generateUniqueId remoteAddr localSendId localRecvId =
     ''addr('' @ addr_toString remoteAddr @ '')|send_id('' @ int_toString localSendId
     @ '')|recv_id('' @ int_toString localRecvId @ '')''"

subsection \<open>Decimal numerals\<close>

lemma of_char_digit: "n < 10 \<Longrightarrow> (of_char (char_digit n) :: nat) = 48 + n"
  by (simp add: char_digit_def)

lemma is_digit_char_digit [simp]: "n < 10 \<Longrightarrow> is_digit (char_digit n)"
  by (simp add: is_digit_def of_char_digit)

lemma nat_toString_digits: "list_all is_digit (nat_toString n)"
proof (induction n rule: nat_toString.induct)
  case (1 n)
  then show ?case by (subst nat_toString.simps) simp
qed

lemma nat_toString_nonempty: "nat_toString n \<noteq> []"
  by (subst nat_toString.simps) simp

lemma digits_value_snoc: "digits_value (ds @ [c]) = 10 * digits_value ds + (of_char c - 48)"
  by (simp add: digits_value_def)

lemma digits_value_nat_toString: "digits_value (nat_toString n) = n"
proof (induction n rule: nat_toString.induct)
  case (1 n)
  show ?case
  proof (cases "n < 10")
    case True
    then show ?thesis by (subst nat_toString.simps) (simp add: digits_value_def of_char_digit)
  next
    case False
    then show ?thesis
      by (subst nat_toString.simps) (simp add: digits_value_snoc 1 of_char_digit)
  qed
qed

lemma nat_toString_inj: "nat_toString m = nat_toString n \<Longrightarrow> m = n"
  by (metis digits_value_nat_toString)

lemma digit_not_minus: "is_digit c \<Longrightarrow> c \<noteq> CHR ''-''"
  by (auto simp: is_digit_def)

lemma int_toString_inj:
  assumes "int_toString i = int_toString j"
  shows "i = j"
proof -
  have hd: "hd (nat_toString n) \<noteq> CHR ''-''" for n
    using nat_toString_digits [of n] nat_toString_nonempty [of n] digit_not_minus
    by (cases "nat_toString n") auto
  show ?thesis
    using assms hd nat_toString_inj [of "nat i" "nat j"] nat_toString_inj [of "nat (- i)" "nat (- j)"]
    by (auto simp: int_toString_def split: if_splits) (metis list.sel(1))+
qed

lemma int_toString_chars: "c \<in> set (int_toString i) \<Longrightarrow> is_digit c \<or> c = CHR ''-''"
  using nat_toString_digits [of "nat i"] nat_toString_digits [of "nat (- i)"]
  by (auto simp: int_toString_def list_all_iff split: if_splits)

lemma parseInt_nat_toString: "js_parseInt (nat_toString n) = Some (int n)"
proof -
  obtain c cs where s: "nat_toString n = c # cs" using nat_toString_nonempty by (cases "nat_toString n") auto
  have d: "list_all is_digit (c # cs)" using nat_toString_digits [of n] s by simp
  then have c: "\<not> is_space c" "c \<noteq> CHR ''-''" "c \<noteq> CHR ''+''" by (auto simp: is_digit_def is_space_def)
  have "takeWhile is_digit (c # cs) = c # cs"
    using d by (simp only: takeWhile_eq_all_conv list_all_iff)
  then show ?thesis
    using c digits_value_nat_toString [of n] by (simp add: js_parseInt_def s js_startsWith_def Let_def)
qed

subsection \<open>Splitting and joining\<close>

lemma js_split_nonempty: "js_split sep s \<noteq> []"
  by (induction sep s rule: js_split.induct) (subst js_split.simps, auto split: list.splits)

lemma js_split_Nil [simp]: "js_split sep [] = [[]]"
  by (simp add: js_split.simps)

lemma js_split_char:
  "js_split [c] (x # xs) = (if x = c then [] # js_split [c] xs
     else (x # hd (js_split [c] xs)) # tl (js_split [c] xs))"
  using js_split_nonempty [of "[c]" xs]
  by (subst js_split.simps) (auto simp: js_startsWith_def split: list.splits)

fun join_char :: "char \<Rightarrow> string list \<Rightarrow> string" where
  "join_char c [] = []"
| "join_char c [p] = p"
| "join_char c (p # q # ps) = p @ c # join_char c (q # ps)"

lemma join_char_Cons: "ps \<noteq> [] \<Longrightarrow> join_char c (p # ps) = p @ c # join_char c ps"
  by (cases ps) simp_all

lemma join_split: "join_char c (js_split [c] s) = s"
proof (induction s)
  case Nil
  then show ?case by simp
next
  case (Cons x xs)
  have ne: "js_split [c] xs \<noteq> []" by (rule js_split_nonempty)
  then show ?case
    using Cons by (cases "js_split [c] xs"; cases "tl (js_split [c] xs)") (auto simp: js_split_char)
qed

lemma split_no_sep: "c \<notin> set p \<Longrightarrow> js_split [c] p = [p]"
  by (induction p) (auto simp: js_split_char)

lemma split_append: "c \<notin> set p \<Longrightarrow> js_split [c] (p @ c # s) = p # js_split [c] s"
  by (induction p) (auto simp: js_split_char)

lemma split_join:
  "ps \<noteq> [] \<Longrightarrow> \<forall>p \<in> set ps. c \<notin> set p \<Longrightarrow> js_split [c] (join_char c ps) = ps"
  by (induction c ps rule: join_char.induct) (simp_all add: split_no_sep split_append)

text \<open>Every character of a text is in one of its parts or in the separator.\<close>

lemma js_split_chars: "x \<in> set s \<Longrightarrow> x \<in> set sep \<or> (\<exists>p \<in> set (js_split sep s). x \<in> set p)"
proof (induction sep s rule: js_split.induct)
  case (1 sep s)
  show ?case
  proof (cases "s = []")
    case True
    then show ?thesis using 1 by simp
  next
    case ne: False
    show ?thesis
    proof (cases "sep \<noteq> [] \<and> js_startsWith sep s")
      case True
      then have "set s = set sep \<union> set (drop (length sep) s)"
        by (metis append_take_drop_id js_startsWith_def set_append)
      moreover have "js_split sep s = [] # js_split sep (drop (length sep) s)"
        using True ne by (subst js_split.simps) simp
      ultimately show ?thesis using 1 True ne by auto
    next
      case False
      then have s: "js_split sep s = (hd s # hd (js_split sep (tl s))) # tl (js_split sep (tl s))"
        using ne js_split_nonempty [of sep "tl s"] by (subst js_split.simps) (auto split: list.splits)
      have "x = hd s \<or> x \<in> set (tl s)" using 1(3) ne by (cases s) auto
      then show ?thesis
        using 1(2) False ne s js_split_nonempty [of sep "tl s"]
        by (cases "js_split sep (tl s)") auto
    qed
  qed
qed

subsection \<open>What the host-name checks accept\<close>

definition octet :: "string \<Rightarrow> bool" where
  "octet p \<longleftrightarrow> (\<exists>n \<le> 255. p = nat_toString n)"

lemma octet_check:
  "(case js_parseInt part of None \<Rightarrow> False | Some num \<Rightarrow> num \<ge> 0 \<and> num \<le> 255 \<and> part = int_toString num)
   \<longleftrightarrow> octet part"
proof
  assume "case js_parseInt part of None \<Rightarrow> False | Some num \<Rightarrow> num \<ge> 0 \<and> num \<le> 255 \<and> part = int_toString num"
  then obtain num where "0 \<le> num" "num \<le> 255" "part = nat_toString (nat num)"
    by (auto simp: int_toString_def split: option.splits)
  then show "octet part" unfolding octet_def by (intro exI [of _ "nat num"]) auto
next
  assume "octet part"
  then show "case js_parseInt part of None \<Rightarrow> False | Some num \<Rightarrow> num \<ge> 0 \<and> num \<le> 255 \<and> part = int_toString num"
    by (auto simp: octet_def parseInt_nat_toString int_toString_def)
qed

lemma octet_chars: "octet p \<Longrightarrow> c \<in> set p \<Longrightarrow> is_digit c"
  using nat_toString_digits by (auto simp: octet_def list_all_iff)

lemma isIPv4_octets: "isIPv4 h \<longleftrightarrow> length (js_split ''.'' h) = 4 \<and> list_all octet (js_split ''.'' h)"
  by (simp add: isIPv4_def Let_def octet_check)

lemma octet_no_dot: "octet p \<Longrightarrow> CHR ''.'' \<notin> set p"
  using octet_chars [of p "CHR ''.''"] by (auto simp: is_digit_def)

lemma isIPv4_join: "isIPv4 h \<longleftrightarrow> (\<exists>ps. length ps = 4 \<and> list_all octet ps \<and> h = join_char (CHR ''.'') ps)"
proof
  assume "isIPv4 h"
  then show "\<exists>ps. length ps = 4 \<and> list_all octet ps \<and> h = join_char (CHR ''.'') ps"
    by (intro exI [of _ "js_split ''.'' h"]) (simp add: isIPv4_octets join_split)
next
  assume "\<exists>ps. length ps = 4 \<and> list_all octet ps \<and> h = join_char (CHR ''.'') ps"
  then obtain ps where ps: "length ps = 4" "list_all octet ps" "h = join_char (CHR ''.'') ps" by blast
  have "js_split ''.'' h = ps"
    unfolding ps(3) using ps(1,2) octet_no_dot by (intro split_join) (auto simp: list_all_iff)
  then show "isIPv4 h" using ps by (simp add: isIPv4_octets)
qed

lemma length4: "length ps = 4 \<longleftrightarrow> (\<exists>a b c d. ps = [a, b, c, d])"
  by (auto simp: eval_nat_numeral length_Suc_conv)

text \<open>
  C35. \<open>isIPv4\<close> accepts exactly the dotted quads of canonical decimal octets: a host name is
  accepted if and only if it prints four numbers of at most 255, with no sign, no leading zero, no
  space and nothing after the last one.
\<close>

theorem isIPv4_iff:
  "isIPv4 h \<longleftrightarrow>
   (\<exists>a b c d. a \<le> 255 \<and> b \<le> 255 \<and> c \<le> 255 \<and> d \<le> 255
      \<and> h = nat_toString a @ ''.'' @ nat_toString b @ ''.'' @ nat_toString c @ ''.'' @ nat_toString d)"
proof
  assume "isIPv4 h"
  then obtain p q r t where o: "octet p" "octet q" "octet r" "octet t"
    and h: "h = join_char (CHR ''.'') [p, q, r, t]"
    unfolding isIPv4_join length4 by auto
  obtain a b c d where "a \<le> 255" "b \<le> 255" "c \<le> 255" "d \<le> 255"
    "p = nat_toString a" "q = nat_toString b" "r = nat_toString c" "t = nat_toString d"
    using o unfolding octet_def by blast
  then show "\<exists>a b c d. a \<le> 255 \<and> b \<le> 255 \<and> c \<le> 255 \<and> d \<le> 255
      \<and> h = nat_toString a @ ''.'' @ nat_toString b @ ''.'' @ nat_toString c @ ''.'' @ nat_toString d"
    unfolding h by (intro exI [of _ a] exI [of _ b] exI [of _ c] exI [of _ d]) simp
next
  assume "\<exists>a b c d. a \<le> 255 \<and> b \<le> 255 \<and> c \<le> 255 \<and> d \<le> 255
      \<and> h = nat_toString a @ ''.'' @ nat_toString b @ ''.'' @ nat_toString c @ ''.'' @ nat_toString d"
  then obtain a b c d where n: "a \<le> 255" "b \<le> 255" "c \<le> 255" "d \<le> 255"
    and h: "h = join_char (CHR ''.'') [nat_toString a, nat_toString b, nat_toString c, nat_toString d]"
    by auto
  have "octet (nat_toString a)" "octet (nat_toString b)" "octet (nat_toString c)" "octet (nat_toString d)"
    using n unfolding octet_def by blast+
  then show "isIPv4 h"
    unfolding isIPv4_join
    by (intro exI [of _ "[nat_toString a, nat_toString b, nat_toString c, nat_toString d]"]) (simp add: h)
qed

definition host_char :: "char \<Rightarrow> bool" where
  "host_char c \<longleftrightarrow> is_alnum c \<or> c \<in> set ''.:-[]''"

lemma digit_hex_alnum: "is_digit c \<Longrightarrow> is_alnum c" "is_hex c \<Longrightarrow> is_alnum c"
  by (auto simp: is_digit_def is_hex_def is_alnum_def)

lemma split_host_char:
  assumes "list_all (\<lambda>p. \<forall>c \<in> set p. host_char c) (js_split sep s)" "\<forall>c \<in> set sep. host_char c"
  shows "\<forall>c \<in> set s. host_char c"
proof
  fix c assume "c \<in> set s"
  then have "c \<in> set sep \<or> (\<exists>p \<in> set (js_split sep s). c \<in> set p)" by (rule js_split_chars)
  then show "host_char c" using assms unfolding list_all_iff by blast
qed

lemma hexGroups_host_char: "list_all is_hexGroup ps \<Longrightarrow> list_all (\<lambda>p. \<forall>c \<in> set p. host_char c) ps"
  by (auto simp: list_all_iff is_hexGroup_def host_char_def digit_hex_alnum)

lemma hexGroups_split_host_char: "list_all is_hexGroup (js_split '':'' s) \<Longrightarrow> \<forall>c \<in> set s. host_char c"
  by (rule split_host_char [of "'':''"]) (rule hexGroups_host_char, assumption, simp add: host_char_def)

lemma strip_brackets_chars: "c \<in> set h \<Longrightarrow> c \<in> set (strip_brackets h) \<or> c = CHR ''['' \<or> c = CHR '']''"
proof -
  have s: "c \<in> set h \<Longrightarrow> c \<in> set (tl h) \<or> c = CHR ''[''" if "js_startsWith ''['' h" for h :: string
    using that by (cases h) (auto simp: js_startsWith_def)
  have e: "c \<in> set h \<Longrightarrow> c \<in> set (butlast h) \<or> c = CHR '']''" if "js_endsWith '']'' h" for h :: string
    using that by (cases h rule: rev_cases) (auto simp: js_endsWith_def)
  assume "c \<in> set h"
  then show ?thesis using s [of h] e [of h] e [of "tl h"] by (auto simp: strip_brackets_def Let_def)
qed

lemma isIPv6_host_char:
  assumes "isIPv6 h"
  shows "\<forall>c \<in> set h. host_char c"
proof -
  let ?s = "strip_brackets h"
  have "\<forall>c \<in> set ?s. host_char c"
  proof (cases "js_includes ''::'' ?s")
    case False
    then show ?thesis using assms hexGroups_split_host_char by (simp add: isIPv6_def Let_def split: if_splits)
  next
    case True
    let ?P = "js_split ''::'' ?s"
    have len: "length ?P \<le> 2"
      and b: "list_all is_hexGroup (if ?P ! 0 = [] then [] else js_split '':'' (?P ! 0))"
      and a: "list_all is_hexGroup (if length ?P \<le> 1 \<or> ?P ! 1 = [] then [] else js_split '':'' (?P ! 1))"
      using assms True unfolding isIPv6_def Let_def by (auto split: if_splits)
    have p0: "\<forall>c \<in> set (?P ! 0). host_char c"
      using b hexGroups_split_host_char by (cases "?P ! 0 = []") auto
    have p1: "\<forall>c \<in> set (?P ! 1). host_char c" if "1 < length ?P"
      using a that hexGroups_split_host_char by (cases "?P ! 1 = []") auto
    have "list_all (\<lambda>p. \<forall>c \<in> set p. host_char c) ?P"
      unfolding list_all_length
    proof (intro allI impI)
      fix n assume n: "n < length ?P"
      then have "n = 0 \<or> n = 1" using len by linarith
      then show "\<forall>c \<in> set (?P ! n). host_char c" using n p0 p1 by blast
    qed
    then show ?thesis by (rule split_host_char) (simp add: host_char_def)
  qed
  then show ?thesis using strip_brackets_chars by (auto simp: host_char_def)
qed

lemma isDomain_host_char: "isDomain h \<Longrightarrow> \<forall>c \<in> set h. host_char c"
  by (rule split_host_char [of "''.''"])
    (auto simp: isDomain_def Let_def is_label_def list_all_iff host_char_def split: if_splits)

lemma isIPv4_host_char: "isIPv4 h \<Longrightarrow> \<forall>c \<in> set h. host_char c"
  by (rule split_host_char [of "''.''"])
    (auto simp: isIPv4_octets list_all_iff host_char_def dest: octet_chars digit_hex_alnum)

lemma valid_host_char: "isValidHostname h \<Longrightarrow> \<forall>c \<in> set h. host_char c"
proof -
  assume h: "isValidHostname h"
  consider "h = ''localhost''" | "isIPv4 h" | "isIPv6 h" | "isDomain h"
    using h by (auto simp: isValidHostname_def split: if_splits)
  then show ?thesis
    by cases (simp add: host_char_def is_alnum_def, simp_all add: isIPv4_host_char isIPv6_host_char isDomain_host_char)
qed

subsection \<open>Connection identifiers\<close>

lemma sep_unique:
  "c \<notin> set xs \<Longrightarrow> c \<notin> set ys \<Longrightarrow> xs @ c # zs = ys @ c # ws \<longleftrightarrow> xs = ys \<and> zs = ws"
proof (induction xs arbitrary: ys)
  case Nil
  then show ?case by (cases ys) auto
next
  case (Cons x xs)
  then show ?case by (cases ys) auto
qed

lemma last_sep_unique:
  assumes "c \<notin> set zs" "c \<notin> set ws"
  shows "xs @ c # zs = ys @ c # ws \<longleftrightarrow> xs = ys \<and> zs = ws"
proof -
  have "xs @ c # zs = ys @ c # ws \<longleftrightarrow> rev (xs @ c # zs) = rev (ys @ c # ws)" by (simp only: rev_is_rev_conv)
  also have "\<dots> \<longleftrightarrow> rev zs @ c # rev xs = rev ws @ c # rev ys" by simp
  also have "\<dots> \<longleftrightarrow> rev zs = rev ws \<and> rev xs = rev ys" using assms by (intro sep_unique) simp_all
  finally show ?thesis by auto
qed

lemma int_toString_no_sep: "CHR '')'' \<notin> set (int_toString i)" "CHR '':'' \<notin> set (int_toString i)"
  using int_toString_chars [of _ i] by (auto simp: is_digit_def dest!: int_toString_chars)

lemma valid_host_no_paren: "isValidHostname h \<Longrightarrow> CHR '')'' \<notin> set h"
  using valid_host_char [of h] by (auto simp: host_char_def is_alnum_def is_digit_def)

lemma addr_toString_inj: "addr_toString a = addr_toString b \<longleftrightarrow> a = b"
proof
  assume "addr_toString a = addr_toString b"
  then have "ua_hostname a = ua_hostname b \<and> int_toString (ua_port a) = int_toString (ua_port b)"
    using last_sep_unique [of "CHR '':''"] int_toString_no_sep by (simp add: addr_toString_def)
  then show "a = b" using int_toString_inj by (auto intro: utp_addr.equality)
qed simp

lemma generateUniqueId_inj:
  assumes "isValidHostname (ua_hostname a)" "isValidHostname (ua_hostname b)"
  shows "generateUniqueId a s r = generateUniqueId b s' r' \<longleftrightarrow> a = b \<and> s = s' \<and> r = r'"
proof
  assume eq: "generateUniqueId a s r = generateUniqueId b s' r'"
  have np: "CHR '')'' \<notin> set (addr_toString a)" "CHR '')'' \<notin> set (addr_toString b)"
    using assms valid_host_no_paren int_toString_no_sep by (auto simp: addr_toString_def)
  have "addr_toString a @ CHR '')'' # ''|send_id('' @ int_toString s @ CHR '')'' # ''|recv_id('' @ int_toString r @ '')''
      = addr_toString b @ CHR '')'' # ''|send_id('' @ int_toString s' @ CHR '')'' # ''|recv_id('' @ int_toString r' @ '')''"
    using eq by (simp add: generateUniqueId_def)
  then have "addr_toString a = addr_toString b"
    "int_toString s @ CHR '')'' # ''|recv_id('' @ int_toString r @ '')'' = int_toString s' @ CHR '')'' # ''|recv_id('' @ int_toString r' @ '')''"
    unfolding sep_unique [OF np] by simp_all
  moreover from this(2) have "int_toString s = int_toString s'" "int_toString r = int_toString r'"
    unfolding sep_unique [OF int_toString_no_sep(1) int_toString_no_sep(1)] by simp_all
  ultimately show "a = b \<and> s = s' \<and> r = r'" by (simp add: addr_toString_inj int_toString_inj)
qed simp

text \<open>
  The key of the connection table identifies the connection: on addresses the constructor
  accepts, two identifiers are equal exactly when the remote address and both connection ids are
  equal, although the identifier is a string that joins host names (which may contain colons),
  a port and two numbers.
\<close>

theorem uniqueId_identifies:
  assumes "addr_create p1 h1 = Inr a" and "addr_create p2 h2 = Inr b"
  shows "generateUniqueId a s r = generateUniqueId b s' r' \<longleftrightarrow> addr_equals a b \<and> s = s' \<and> r = r'"
proof -
  have "isValidHostname (ua_hostname a)" "isValidHostname (ua_hostname b)"
    using assms by (auto simp: addr_create_def split: if_splits)
  moreover have "addr_equals a b \<longleftrightarrow> a = b" by (auto simp: addr_equals_def)
  ultimately show ?thesis using generateUniqueId_inj by simp
qed

theorem uniqueId_identifies_witness:
  "generateUniqueId \<lparr>ua_port = 80, ua_hostname = ''localhost''\<rparr> 7 8
   \<noteq> generateUniqueId \<lparr>ua_port = 8, ua_hostname = ''localhost''\<rparr> 7 8"
proof -
  have "addr_create 80 ''localhost'' = Inr \<lparr>ua_port = 80, ua_hostname = ''localhost''\<rparr>"
    "addr_create 8 ''localhost'' = Inr \<lparr>ua_port = 8, ua_hostname = ''localhost''\<rparr>"
    by (simp_all add: addr_create_def isValidHostname_def)
  from uniqueId_identifies [OF this] show ?thesis by (simp add: addr_equals_def)
qed

subsection \<open>The string hash\<close>

lemma word_of_to_int32: "(word_of_int (to_int32 x) :: 32 word) = word_of_int x"
proof (rule bit_word_eqI)
  fix n assume "n < LENGTH(32)"
  then have "min 31 n = n" by simp
  then show "bit (word_of_int (to_int32 x) :: 32 word) n \<longleftrightarrow> bit (word_of_int x :: 32 word) n"
    by (simp add: to_int32_def bit_word_of_int_iff bit_signed_take_bit_iff)
qed

lemma to_int32_sint: "to_int32 x = sint (word_of_int x :: 32 word)"
  by (simp add: to_int32_def signed_of_int)

lemma js_or_0: "js_or x 0 = to_int32 x"
  by (simp add: js_or_def to_int32_def)

lemma hash_step:
  "js_or (js_shl (sint w) 5 - sint w + c) 0 = sint (31 * w + word_of_int c :: 32 word)"
proof -
  have "(word_of_int (js_shl (sint w) 5) :: 32 word) = word_of_int (push_bit 5 (to_int32 (sint w)))"
    by (simp add: js_shl_def word_of_to_int32)
  also have "\<dots> = word_of_int (to_int32 (sint w) * 32)" by (simp add: push_bit_eq_mult)
  also have "\<dots> = word_of_int (to_int32 (sint w)) * 32" by simp
  also have "\<dots> = w * 32" by (simp add: word_of_to_int32)
  finally have "(word_of_int (js_shl (sint w) 5 - sint w + c) :: 32 word) = w * 32 - w + word_of_int c"
    by simp
  then show ?thesis by (simp add: js_or_0 to_int32_sint algebra_simps)
qed

text \<open>
  C30. \<open>hashCode\<close> is the 32-bit polynomial hash: the shift, the subtraction on unbounded integers and
  the final \<open>| 0\<close> of each round amount to \<open>31 h + c\<close> in two's complement 32-bit arithmetic.
\<close>

theorem str_hashCode_word:
  "str_hashCode str = sint (fold (\<lambda>c h. 31 * h + word_of_int (int (of_char c))) str (0 :: 32 word))"
proof -
  have "fold (\<lambda>c hash. js_or (js_shl hash 5 - hash + int (of_char c)) 0) str (sint w)
      = sint (fold (\<lambda>c h. 31 * h + word_of_int (int (of_char c))) str (w :: 32 word))" for w
  proof (induction str arbitrary: w)
    case Nil
    then show ?case by simp
  next
    case (Cons c str)
    then show ?case by (simp only: fold_simps o_apply hash_step)
  qed
  from this [of 0] show ?thesis by (simp add: str_hashCode_def)
qed

end
