(* ===== verification/SendWindow.thy ===== *)
theory SendWindow imports Packet BlockingMap RttTracker Congestion Addr begin

text \<open>
  The send window (\<open>src/utp_send_window.ts\<close>): the packets in flight in a blocking map keyed by
  sequence number, acknowledgement processing (cumulative and selective), the window size, and
  retransmission. What an operation causes outside comes back as a list: \<open>SwSend\<close> is a call of
  \<open>utp.sendUtpPacket\<close>, \<open>SwAdmit\<close> the resolution of a \<open>waitForAck\<close> that was blocked.

  \<open>handleAck\<close> is synchronous. \<open>resend\<close> awaits after each packet it sends, so it is given by its
  atomic part \<open>sw_resendOne\<close>; \<open>sw_resend\<close> is the call when nothing comes in between.
\<close>

definition DEFAULT_MTU :: int where "DEFAULT_MTU = 1400"

definition conn_getMaxPacketSize :: int where
  "conn_getMaxPacketSize = DEFAULT_MTU"

record pkt_info =
  pi_packet :: packet
  pi_resendTimes :: nat
  pi_ackCount :: nat
  pi_sentTime :: int
  pi_remoteAddr :: utp_addr

definition RESEND_TIMES_LIMIT :: nat where "RESEND_TIMES_LIMIT = 3"
definition MAX_WINDOW_SIZE :: rat where "MAX_WINDOW_SIZE = 64"
definition MIN_WINDOW_SIZE :: rat where "MIN_WINDOW_SIZE = 4"

lemmas window_consts = RESEND_TIMES_LIMIT_def MAX_WINDOW_SIZE_def MIN_WINDOW_SIZE_def
  DEFAULT_MTU_def conn_getMaxPacketSize_def

record send_window =
  sw_packetMap :: "(int, pkt_info) bmap"
  sw_ackCounter :: "(int, nat) js_map"
  sw_maxWindow :: rat
  sw_minWindow :: rat
  sw_latest :: "int option"
  sw_cc :: congestion
  sw_rtt :: rtt_tracker
  sw_totalAcked :: nat
  sw_remoteWindowBytes :: "int option"

datatype sw_out = SwSend packet utp_addr | SwAdmit int pkt_info

definition admits :: "(int \<times> pkt_info) list \<Rightarrow> sw_out list" where
  "admits rel = map (\<lambda>(k, v). SwAdmit k v) rel"

definition sw_new :: send_window where
  "sw_new = \<lparr>sw_packetMap = bm_new MIN_WINDOW_SIZE, sw_ackCounter = [], sw_maxWindow = MAX_WINDOW_SIZE,
     sw_minWindow = MIN_WINDOW_SIZE, sw_latest = None, sw_cc = cc_new MIN_WINDOW_SIZE 100,
     sw_rtt = rtt_new, sw_totalAcked = 0, sw_remoteWindowBytes = None\<rparr>"

definition sw_isPacketAcked :: "send_window \<Rightarrow> int \<Rightarrow> bool" where
  "sw_isPacketAcked s seqNr =
     (case sw_latest s of None \<Rightarrow> False | Some latest \<Rightarrow> seq_ge latest seqNr)"

definition sw_getAllSeqNrs :: "send_window \<Rightarrow> int list" where
  "sw_getAllSeqNrs s = bm_keys (sw_packetMap s)"

definition sw_windowSize :: "send_window \<Rightarrow> rat" where
  "sw_windowSize s =
     (let ccWindow = max (sw_minWindow s) (min (sw_maxWindow s) (cc_getWindowSize (sw_cc s))) in
      case sw_remoteWindowBytes s of
        None \<Rightarrow> ccWindow
      | Some bytes \<Rightarrow>
          min ccWindow (of_int (max 1 \<lfloor>fl (of_int bytes / of_int conn_getMaxPacketSize)\<rfloor>)))"

definition sw_applyWindowSize :: "send_window \<Rightarrow> send_window \<times> (int \<times> pkt_info) list" where
  "sw_applyWindowSize s =
     (let (m, rel) = bm_updateCapacity (sw_windowSize s) (sw_packetMap s) in (s\<lparr>sw_packetMap := m\<rparr>, rel))"

definition sw_resendOne :: "int \<Rightarrow> int \<Rightarrow> send_window \<Rightarrow> send_window \<times> sw_out list" where
  "sw_resendOne now seqNr s =
     (case bm_get (sw_packetMap s) seqNr of
        None \<Rightarrow> (s, [])
      | Some info \<Rightarrow>
          if of_int (now - pi_sentTime info) > rt_rto (sw_rtt s) then
            (if pi_resendTimes info \<ge> RESEND_TIMES_LIMIT then
               (let (s1, rel1) = sw_applyWindowSize (s\<lparr>sw_cc := cc_onPacketLoss (sw_cc s)\<rparr>);
                    (m, rel2) = bm_delete seqNr (sw_packetMap s1)
                in (s1\<lparr>sw_packetMap := m\<rparr>, admits (rel1 @ rel2)))
             else
               (let info' = info\<lparr>pi_resendTimes := pi_resendTimes info + 1, pi_sentTime := now\<rparr>;
                    m = sw_packetMap s
                in (s\<lparr>sw_packetMap := m\<lparr>bm_map := jm_set seqNr info' (bm_map m)\<rparr>\<rparr>,
                    [SwSend (pi_packet info') (pi_remoteAddr info')])))
          else (s, []))"

definition sw_resend :: "int \<Rightarrow> send_window \<Rightarrow> send_window \<times> sw_out list" where
  "sw_resend now s = thread (sw_resendOne now) (sw_getAllSeqNrs s) s"

definition sw_timeoutCheck :: "int \<Rightarrow> send_window \<Rightarrow> send_window \<times> sw_out list" where
  "sw_timeoutCheck now s = sw_resend now s"

text \<open>The second component tells whether the caller goes on at once or is left waiting.\<close>

definition sw_waitForAck ::
  "int \<Rightarrow> packet \<Rightarrow> utp_addr \<Rightarrow> send_window \<Rightarrow> send_window \<times> bool \<times> (int \<times> pkt_info) list" where
  "sw_waitForAck now packet remoteAddr s =
     (let (m, admitted, rel) = bm_set (pk_seqNr packet)
            \<lparr>pi_packet = packet, pi_resendTimes = 0, pi_ackCount = 0, pi_sentTime = now,
             pi_remoteAddr = remoteAddr\<rparr> (sw_packetMap s)
      in (s\<lparr>sw_packetMap := m\<rparr>, admitted, rel))"

text \<open>
  The parts of \<open>handleAck\<close>. \<open>clk seqNr\<close> is what \<open>Date.now()\<close> answers when the packet \<open>seqNr\<close> is
  sampled.
\<close>

definition sw_noteAck :: "packet \<Rightarrow> send_window \<Rightarrow> send_window" where
  "sw_noteAck p s =
     (let latest = (case sw_latest s of
                      None \<Rightarrow> Some (pk_ackNr p)
                    | Some l \<Rightarrow> if seq_gt (pk_ackNr p) l then Some (pk_ackNr p) else Some l);
          ackCount = (case jm_get (sw_ackCounter s) (pk_ackNr p) of None \<Rightarrow> 0 | Some n \<Rightarrow> n)
      in s\<lparr>sw_remoteWindowBytes := Some (pk_windowSize p), sw_latest := latest,
           sw_ackCounter := jm_set (pk_ackNr p) (ackCount + 1) (sw_ackCounter s)\<rparr>)"

definition sw_sample :: "int \<Rightarrow> pkt_info \<Rightarrow> send_window \<Rightarrow> send_window" where
  "sw_sample now info s =
     (if pi_resendTimes info = 0 then s\<lparr>sw_rtt := rtt_update now (pi_sentTime info) (sw_rtt s)\<rparr> else s)"

definition sw_remove :: "int \<Rightarrow> send_window \<Rightarrow> send_window \<times> (int \<times> pkt_info) list" where
  "sw_remove seqNr s =
     (let (m, rel) = bm_delete seqNr (sw_packetMap s)
      in (s\<lparr>sw_packetMap := m, sw_totalAcked := sw_totalAcked s + 1\<rparr>, rel))"

definition sw_sackStep :: "(int \<Rightarrow> int) \<Rightarrow> int \<Rightarrow> send_window \<Rightarrow> send_window \<times> (int \<times> pkt_info) list" where
  "sw_sackStep clk seqNr s =
     (case bm_get (sw_packetMap s) seqNr of
        None \<Rightarrow> (s, [])
      | Some info \<Rightarrow> sw_remove seqNr (sw_sample (clk seqNr) info s))"

definition sw_cumulativeStep :: "(int \<Rightarrow> int) \<Rightarrow> int \<Rightarrow> send_window \<Rightarrow> send_window \<times> (int \<times> pkt_info) list" where
  "sw_cumulativeStep clk seqNr s =
     (if sw_isPacketAcked s seqNr then
        (case bm_get (sw_packetMap s) seqNr of
           None \<Rightarrow> sw_remove seqNr s
         | Some info \<Rightarrow> sw_remove seqNr (sw_sample (clk seqNr) info s))
      else (s, []))"

definition sw_ackedBySack :: "packet \<Rightarrow> int list" where
  "sw_ackedBySack p = (case sackExtension p of None \<Rightarrow> [] | Some k \<Rightarrow> sack_getRemoteReceivedSeqNrs k)"

definition sw_handleAck ::
  "(int \<Rightarrow> int) \<Rightarrow> packet \<Rightarrow> send_window \<Rightarrow> send_window \<times> (int \<times> pkt_info) list" where
  "sw_handleAck clk p s =
     (let (s1, rel1) = thread (sw_sackStep clk) (sw_ackedBySack p) (sw_noteAck p s);
          (s2, rel2) = thread (sw_cumulativeStep clk) (sw_getAllSeqNrs s1) s1;
          (s3, rel3) = sw_applyWindowSize (s2\<lparr>sw_cc := cc_updateRtt (rt_rtt (sw_rtt s2)) (sw_cc s2)\<rparr>)
      in (s3, rel1 @ rel2 @ rel3))"

definition sw_isEmpty :: "send_window \<Rightarrow> bool" where
  "sw_isEmpty s \<longleftrightarrow> bm_size (sw_packetMap s) = 0"

definition sw_isNotEmpty :: "send_window \<Rightarrow> bool" where
  "sw_isNotEmpty s \<longleftrightarrow> bm_size (sw_packetMap s) > 0"

definition sw_getSize :: "send_window \<Rightarrow> nat" where
  "sw_getSize s = bm_size (sw_packetMap s)"

definition sw_reset :: "send_window \<Rightarrow> send_window \<times> (int \<times> pkt_info) list" where
  "sw_reset s =
     (let (m, rel) = bm_updateCapacity (sw_minWindow s) (bm_clear (sw_packetMap s))
      in (s\<lparr>sw_packetMap := m, sw_ackCounter := [], sw_latest := None, sw_remoteWindowBytes := None,
            sw_totalAcked := 0, sw_cc := cc_reset (sw_cc s)\<rparr>, rel))"

subsection \<open>The outstanding packets\<close>

text \<open>The packets in flight followed by those waiting to be, in the order they were handed over.\<close>

definition sw_outstanding :: "send_window \<Rightarrow> (int \<times> pkt_info) list" where
  "sw_outstanding s = bm_all (sw_packetMap s)"

definition sw_waitKeys :: "send_window \<Rightarrow> int set" where
  "sw_waitKeys s = bm_waitKeys (sw_packetMap s)"

definition sw_ok :: "send_window \<Rightarrow> bool" where
  "sw_ok s \<longleftrightarrow> bm_inv (sw_packetMap s) \<and> bm_distinct (sw_packetMap s)"

text \<open>
  The contract of a loop over sequence numbers whose body removes the one it is given when a test
  holds that the loop does not change: afterwards exactly the visited ones passing the test are gone.
\<close>

locale removal_loop =
  fixes entries :: "'s \<Rightarrow> ('k \<times> 'v) list"
    and waits :: "'s \<Rightarrow> 'k set"
    and ok :: "'s \<Rightarrow> bool"
    and test :: "'k \<Rightarrow> 's \<Rightarrow> bool"
    and body :: "'k \<Rightarrow> 's \<Rightarrow> 's \<times> 'r list"
  assumes body_ok: "ok s \<Longrightarrow> test k s \<Longrightarrow> k \<notin> waits s \<Longrightarrow> ok (fst (body k s))"
    and body_skip: "\<not> test k s \<Longrightarrow> fst (body k s) = s"
    and body_test: "test j (fst (body k s)) = test j s"
    and body_waits: "waits (fst (body k s)) \<subseteq> waits s"
    and body_entries: "ok s \<Longrightarrow> test k s \<Longrightarrow> k \<notin> waits s
      \<Longrightarrow> entries (fst (body k s)) = filter (\<lambda>e. fst e \<noteq> k) (entries s)"
begin

lemma loop_entries:
  "ok s \<Longrightarrow> \<forall>k \<in> set ks. test k s \<longrightarrow> k \<notin> waits s \<Longrightarrow>
   ok (fst (thread body ks s))
   \<and> entries (fst (thread body ks s)) = filter (\<lambda>e. \<not> (fst e \<in> set ks \<and> test (fst e) s)) (entries s)"
proof (induction ks arbitrary: s)
  case Nil
  then show ?case by simp
next
  case (Cons k ks)
  show ?case
  proof (cases "test k s")
    case True
    then have k: "k \<notin> waits s" using Cons.prems(2) by simp
    have "\<forall>j \<in> set ks. test j (fst (body k s)) \<longrightarrow> j \<notin> waits (fst (body k s))"
      using Cons.prems(2) body_waits [of k s] by (auto simp: body_test)
    from Cons.IH [OF body_ok [OF Cons.prems(1) True k] this]
    show ?thesis
      using body_entries [OF Cons.prems(1) True k] True
      by (auto simp: thread_Cons body_test intro!: filter_cong)
  next
    case False
    then have "filter (\<lambda>e. \<not> (fst e \<in> set ks \<and> test (fst e) s)) (entries s)
        = filter (\<lambda>e. \<not> (fst e \<in> set (k # ks) \<and> test (fst e) s)) (entries s)"
      by (intro filter_cong) auto
    then show ?thesis
      using Cons.IH [of s] Cons.prems False by (simp add: thread_Cons body_skip)
  qed
qed

end

lemma sw_sample_frame [simp]:
  "sw_packetMap (sw_sample now info s) = sw_packetMap s"
  "sw_latest (sw_sample now info s) = sw_latest s"
  "sw_cc (sw_sample now info s) = sw_cc s"
  "sw_totalAcked (sw_sample now info s) = sw_totalAcked s"
  "sw_minWindow (sw_sample now info s) = sw_minWindow s"
  "sw_maxWindow (sw_sample now info s) = sw_maxWindow s"
  "sw_remoteWindowBytes (sw_sample now info s) = sw_remoteWindowBytes s"
  by (simp_all add: sw_sample_def)

lemma sw_remove_eq:
  "sw_remove k s = (s\<lparr>sw_packetMap := fst (bm_delete k (sw_packetMap s)), sw_totalAcked := sw_totalAcked s + 1\<rparr>,
     snd (bm_delete k (sw_packetMap s)))"
  by (simp add: sw_remove_def split_beta)

lemma sw_remove_frame [simp]:
  "sw_packetMap (fst (sw_remove k s)) = fst (bm_delete k (sw_packetMap s))"
  "sw_latest (fst (sw_remove k s)) = sw_latest s"
  "sw_cc (fst (sw_remove k s)) = sw_cc s"
  "sw_rtt (fst (sw_remove k s)) = sw_rtt s"
  "sw_minWindow (fst (sw_remove k s)) = sw_minWindow s"
  "sw_maxWindow (fst (sw_remove k s)) = sw_maxWindow s"
  "sw_remoteWindowBytes (fst (sw_remove k s)) = sw_remoteWindowBytes s"
  "sw_totalAcked (fst (sw_remove k s)) = sw_totalAcked s + 1"
  "snd (sw_remove k s) = snd (bm_delete k (sw_packetMap s))"
  by (simp_all add: sw_remove_eq)

lemma sackStep_map:
  "sw_packetMap (fst (sw_sackStep clk k s)) = fst (bm_delete k (sw_packetMap s))"
  "snd (sw_sackStep clk k s) = snd (bm_delete k (sw_packetMap s))"
  by (simp_all add: sw_sackStep_def bm_get_def bm_delete_def jm_has_def split: option.splits)

lemma cumulativeStep_map:
  "sw_packetMap (fst (sw_cumulativeStep clk k s))
   = (if sw_isPacketAcked s k then fst (bm_delete k (sw_packetMap s)) else sw_packetMap s)"
  "snd (sw_cumulativeStep clk k s)
   = (if sw_isPacketAcked s k then snd (bm_delete k (sw_packetMap s)) else [])"
  by (simp_all add: sw_cumulativeStep_def split: option.splits)

text \<open>What the acknowledgement loops do not touch.\<close>

definition sw_frame :: "send_window \<Rightarrow> int option \<times> congestion \<times> rat \<times> rat \<times> int option" where
  "sw_frame s = (sw_latest s, sw_cc s, sw_minWindow s, sw_maxWindow s, sw_remoteWindowBytes s)"

lemma step_frame [simp]:
  "sw_frame (fst (sw_sackStep clk k s)) = sw_frame s"
  "sw_frame (fst (sw_cumulativeStep clk k s)) = sw_frame s"
  by (simp_all add: sw_sackStep_def sw_cumulativeStep_def sw_frame_def split: option.splits)

lemma isPacketAcked_frame: "sw_frame s = sw_frame s' \<Longrightarrow> sw_isPacketAcked s k = sw_isPacketAcked s' k"
  by (simp add: sw_frame_def sw_isPacketAcked_def)

lemma bm_delete_distinct:
  "bm_distinct m \<Longrightarrow> k \<notin> bm_waitKeys m \<Longrightarrow> bm_distinct (fst (bm_delete k m))"
  unfolding bm_distinct_def [of "fst (bm_delete k m)"]
  by (simp add: bm_all_delete) (simp add: bm_distinct_def distinct_map_filter)

lemma sw_ok_delete:
  "sw_ok s \<Longrightarrow> k \<notin> sw_waitKeys s \<Longrightarrow> sw_packetMap s' = fst (bm_delete k (sw_packetMap s)) \<Longrightarrow> sw_ok s'"
  by (simp add: sw_ok_def sw_waitKeys_def bm_delete_inv bm_delete_distinct)

lemma sw_outstanding_delete:
  "sw_ok s \<Longrightarrow> k \<notin> sw_waitKeys s \<Longrightarrow> sw_packetMap s' = fst (bm_delete k (sw_packetMap s))
   \<Longrightarrow> sw_outstanding s' = filter (\<lambda>e. fst e \<noteq> k) (sw_outstanding s)"
  by (simp add: sw_ok_def sw_waitKeys_def sw_outstanding_def bm_all_delete)

lemma sw_waitKeys_delete:
  "sw_packetMap s' = fst (bm_delete k (sw_packetMap s)) \<Longrightarrow> sw_waitKeys s' \<subseteq> sw_waitKeys s"
  by (simp add: sw_waitKeys_def bm_waitKeys_def image_mono bm_waiting_mono(2))

interpretation sack_loop: removal_loop sw_outstanding sw_waitKeys sw_ok "\<lambda>_ _. True" "sw_sackStep clk"
  for clk
  by unfold_locales
    (auto intro: sw_ok_delete sw_outstanding_delete
      simp: sackStep_map dest: set_mp [OF sw_waitKeys_delete, rotated])

interpretation cumulative_loop:
  removal_loop sw_outstanding sw_waitKeys sw_ok "\<lambda>k s. sw_isPacketAcked s k" "sw_cumulativeStep clk"
  for clk
proof unfold_locales
  fix s k
  assume a: "sw_ok s" "sw_isPacketAcked s k" "k \<notin> sw_waitKeys s"
  then show "sw_ok (fst (sw_cumulativeStep clk k s))"
    by (intro sw_ok_delete [OF a(1,3)]) (simp add: cumulativeStep_map)
  show "sw_outstanding (fst (sw_cumulativeStep clk k s)) = filter (\<lambda>e. fst e \<noteq> k) (sw_outstanding s)"
    using a by (intro sw_outstanding_delete) (simp_all add: cumulativeStep_map)
next
  fix s k assume "\<not> sw_isPacketAcked s k"
  then show "fst (sw_cumulativeStep clk k s) = s" by (simp add: sw_cumulativeStep_def)
next
  fix s j k show "sw_isPacketAcked (fst (sw_cumulativeStep clk k s)) j = sw_isPacketAcked s j"
    by (rule isPacketAcked_frame) simp
next
  fix s k show "sw_waitKeys (fst (sw_cumulativeStep clk k s)) \<subseteq> sw_waitKeys s"
    using sw_waitKeys_delete [of "fst (sw_cumulativeStep clk k s)" k s]
    by (cases "sw_isPacketAcked s k") (simp_all add: cumulativeStep_map sw_waitKeys_def)
qed

interpretation sack_release:
  fifo_release "\<lambda>s. bm_waiting (sw_packetMap s)" "\<lambda>s. bm_inv (sw_packetMap s)" "sw_sackStep clk" for clk
  by unfold_locales (simp_all add: sackStep_map bm_delete_inv bm_delete_fifo [symmetric])

interpretation cumulative_release:
  fifo_release "\<lambda>s. bm_waiting (sw_packetMap s)" "\<lambda>s. bm_inv (sw_packetMap s)" "sw_cumulativeStep clk" for clk
  by unfold_locales (auto simp: cumulativeStep_map bm_delete_inv bm_delete_fifo [symmetric])

subsection \<open>Acknowledgement\<close>

definition sw_acked :: "packet \<Rightarrow> send_window \<Rightarrow> int \<Rightarrow> bool" where
  "sw_acked p s k \<longleftrightarrow> k \<in> set (sw_ackedBySack p) \<or> sw_isPacketAcked (sw_noteAck p s) k"

lemma sw_noteAck_map [simp]: "sw_packetMap (sw_noteAck p s) = sw_packetMap s"
  by (simp add: sw_noteAck_def Let_def)

lemma sw_noteAck_simps [simp]:
  "sw_outstanding (sw_noteAck p s) = sw_outstanding s" "sw_waitKeys (sw_noteAck p s) = sw_waitKeys s"
  "sw_ok (sw_noteAck p s) = sw_ok s"
  by (simp_all add: sw_outstanding_def sw_waitKeys_def sw_ok_def)

lemma sw_apply_eq:
  "sw_applyWindowSize s = (s\<lparr>sw_packetMap := fst (bm_updateCapacity (sw_windowSize s) (sw_packetMap s))\<rparr>,
     snd (bm_updateCapacity (sw_windowSize s) (sw_packetMap s)))"
  by (simp add: sw_applyWindowSize_def split_beta)

lemma sw_apply_outstanding [simp]:
  "sw_ok s \<Longrightarrow> sw_outstanding (fst (sw_applyWindowSize s)) = sw_outstanding s"
  by (simp add: sw_apply_eq sw_outstanding_def sw_ok_def bm_all_updateCapacity)

lemma sw_apply_ok [simp]: "sw_ok s \<Longrightarrow> sw_ok (fst (sw_applyWindowSize s))"
  using bm_all_updateCapacity [of "sw_packetMap s" "sw_windowSize s"]
  by (simp add: sw_apply_eq sw_ok_def bm_updateCapacity_inv bm_inv_def [of "sw_packetMap s"] bm_distinct_def)

lemma sw_cc_update_simps [simp]:
  "sw_outstanding (s\<lparr>sw_cc := c\<rparr>) = sw_outstanding s" "sw_ok (s\<lparr>sw_cc := c\<rparr>) = sw_ok s"
  "sw_waitKeys (s\<lparr>sw_cc := c\<rparr>) = sw_waitKeys s"
  by (simp_all add: sw_outstanding_def sw_ok_def sw_waitKeys_def)

definition sw_afterSack :: "(int \<Rightarrow> int) \<Rightarrow> packet \<Rightarrow> send_window \<Rightarrow> send_window \<times> (int \<times> pkt_info) list" where
  "sw_afterSack clk p s = thread (sw_sackStep clk) (sw_ackedBySack p) (sw_noteAck p s)"

definition sw_afterLoops :: "(int \<Rightarrow> int) \<Rightarrow> packet \<Rightarrow> send_window \<Rightarrow> send_window \<times> (int \<times> pkt_info) list" where
  "sw_afterLoops clk p s =
     thread (sw_cumulativeStep clk) (sw_getAllSeqNrs (fst (sw_afterSack clk p s))) (fst (sw_afterSack clk p s))"

lemma sw_handleAck_eq:
  "sw_handleAck clk p s =
     (let s2 = fst (sw_afterLoops clk p s);
          s3 = s2\<lparr>sw_cc := cc_updateRtt (rt_rtt (sw_rtt s2)) (sw_cc s2)\<rparr>
      in (fst (sw_applyWindowSize s3),
          snd (sw_afterSack clk p s) @ snd (sw_afterLoops clk p s) @ snd (sw_applyWindowSize s3)))"
  by (simp add: sw_handleAck_def sw_afterSack_def sw_afterLoops_def split_beta Let_def)

lemma sw_afterSack_frame: "sw_frame (fst (sw_afterSack clk p s)) = sw_frame (sw_noteAck p s)"
  unfolding sw_afterSack_def by (rule thread_frame) simp

lemma sw_afterLoops_frame: "sw_frame (fst (sw_afterLoops clk p s)) = sw_frame (sw_noteAck p s)"
proof -
  have "sw_frame (fst (sw_afterLoops clk p s)) = sw_frame (fst (sw_afterSack clk p s))"
    unfolding sw_afterLoops_def by (rule thread_frame) simp
  then show ?thesis by (simp add: sw_afterSack_frame)
qed

lemma sw_afterLoops_outstanding:
  assumes ok: "sw_ok s" and unacked: "\<forall>k \<in> sw_waitKeys s. \<not> sw_acked p s k"
  shows "sw_ok (fst (sw_afterLoops clk p s))"
    and "sw_outstanding (fst (sw_afterLoops clk p s)) = filter (\<lambda>e. \<not> sw_acked p s (fst e)) (sw_outstanding s)"
proof -
  let ?s1 = "fst (sw_afterSack clk p s)"
  have waits: "sw_waitKeys ?s1 \<subseteq> sw_waitKeys s"
  proof -
    have "sw_waitKeys (fst (thread (sw_sackStep clk) ks t)) \<subseteq> sw_waitKeys t" for ks t
    proof (induction ks arbitrary: t)
      case (Cons k ks)
      then show ?case using sack_loop.body_waits [of clk k t] by (fastforce simp: thread_Cons)
    qed simp
    from this [of "sw_ackedBySack p" "sw_noteAck p s"] show ?thesis by (simp add: sw_afterSack_def)
  qed
  have 1: "sw_ok ?s1 \<and> sw_outstanding ?s1
      = filter (\<lambda>e. \<not> (fst e \<in> set (sw_ackedBySack p) \<and> True)) (sw_outstanding s)"
    unfolding sw_afterSack_def
    using sack_loop.loop_entries [of "sw_noteAck p s" "sw_ackedBySack p" clk] ok unacked
    by (auto simp: sw_acked_def)
  have latest: "sw_isPacketAcked ?s1 k = sw_isPacketAcked (sw_noteAck p s) k" for k
    by (rule isPacketAcked_frame) (rule sw_afterSack_frame)
  have "\<forall>k \<in> set (sw_getAllSeqNrs ?s1). sw_isPacketAcked ?s1 k \<longrightarrow> k \<notin> sw_waitKeys ?s1"
    using unacked waits by (auto simp: latest sw_acked_def)
  from cumulative_loop.loop_entries [OF conjunct1 [OF 1] this, of clk]
  have 2: "sw_ok (fst (sw_afterLoops clk p s))"
    "sw_outstanding (fst (sw_afterLoops clk p s))
     = filter (\<lambda>e. \<not> (fst e \<in> set (sw_getAllSeqNrs ?s1) \<and> sw_isPacketAcked ?s1 (fst e))) (sw_outstanding ?s1)"
    by (simp_all add: sw_afterLoops_def)
  have "\<not> (fst e \<in> set (sw_getAllSeqNrs ?s1) \<and> sw_isPacketAcked ?s1 (fst e))
      \<longleftrightarrow> \<not> sw_isPacketAcked (sw_noteAck p s) (fst e)" if "e \<in> set (sw_outstanding ?s1)" for e
  proof -
    have "fst e \<in> set (sw_getAllSeqNrs ?s1) \<or> fst e \<in> sw_waitKeys ?s1"
      using that by (auto simp: sw_outstanding_def bm_all_def sw_getAllSeqNrs_def bm_keys_def jm_keys_def
          sw_waitKeys_def bm_waitKeys_def)
    then show ?thesis using unacked waits by (auto simp: latest sw_acked_def)
  qed
  then show "sw_outstanding (fst (sw_afterLoops clk p s)) = filter (\<lambda>e. \<not> sw_acked p s (fst e)) (sw_outstanding s)"
    using 1 unfolding 2(2) by (simp cong: filter_cong) (auto simp: sw_acked_def intro!: filter_cong)
  show "sw_ok (fst (sw_afterLoops clk p s))" by (rule 2(1))
qed

lemma sw_handleAck_release:
  "bm_waiting (sw_packetMap s) = snd (sw_handleAck clk p s) @ bm_waiting (sw_packetMap (fst (sw_handleAck clk p s)))"
proof -
  let ?s2 = "fst (sw_afterLoops clk p s)"
  let ?s3 = "?s2\<lparr>sw_cc := cc_updateRtt (rt_rtt (sw_rtt ?s2)) (sw_cc ?s2)\<rparr>"
  have "bm_waiting (sw_packetMap s)
      = snd (sw_afterSack clk p s) @ bm_waiting (sw_packetMap (fst (sw_afterSack clk p s)))"
    using sack_release.thread_fifo [of "sw_noteAck p s"] by (simp add: sw_afterSack_def)
  also have "bm_waiting (sw_packetMap (fst (sw_afterSack clk p s)))
      = snd (sw_afterLoops clk p s) @ bm_waiting (sw_packetMap ?s3)"
    using cumulative_release.thread_fifo [of "fst (sw_afterSack clk p s)"] by (simp add: sw_afterLoops_def)
  also have "bm_waiting (sw_packetMap ?s3)
      = snd (sw_applyWindowSize ?s3) @ bm_waiting (sw_packetMap (fst (sw_applyWindowSize ?s3)))"
    using bm_updateCapacity_fifo by (simp add: sw_apply_eq)
  finally show ?thesis by (simp add: sw_handleAck_eq Let_def)
qed

text \<open>
  C7. Acknowledgement removes exactly the acknowledged packets. Let the window hold each sequence
  number once and let no packet that was never sent be acknowledged. Then after \<open>handleAck\<close> the
  outstanding packets (in flight, then waiting for room) are those before it, in the same order and
  unchanged, less those the selective mask names or the cumulative number covers, in wrap-around
  order; and the waiting calls are resumed first come, first served.
\<close>

theorem sw_handleAck_exact:
  assumes "sw_ok s" and "\<forall>k \<in> sw_waitKeys s. \<not> sw_acked p s k"
  shows "sw_outstanding (fst (sw_handleAck clk p s)) = filter (\<lambda>e. \<not> sw_acked p s (fst e)) (sw_outstanding s)
    \<and> sw_ok (fst (sw_handleAck clk p s))
    \<and> bm_waiting (sw_packetMap s)
        = snd (sw_handleAck clk p s) @ bm_waiting (sw_packetMap (fst (sw_handleAck clk p s)))"
proof (intro conjI)
  show "sw_outstanding (fst (sw_handleAck clk p s)) = filter (\<lambda>e. \<not> sw_acked p s (fst e)) (sw_outstanding s)"
    using sw_afterLoops_outstanding [OF assms] by (simp add: sw_handleAck_eq Let_def)
  show "sw_ok (fst (sw_handleAck clk p s))"
    using sw_afterLoops_outstanding(1) [OF assms] by (simp add: sw_handleAck_eq Let_def)
qed (rule sw_handleAck_release)

definition sample_info :: "int \<Rightarrow> pkt_info" where
  "sample_info n = \<lparr>pi_packet = \<lparr>pk_type = ST_DATA, pk_version = 1, pk_extension = 0, pk_connId = 7,
     pk_timestamp = 0, pk_tsDiff = Some 0, pk_windowSize = 0, pk_seqNr = n, pk_ackNr = 0,
     pk_extensions = [], pk_data = None\<rparr>, pi_resendTimes = 0, pi_ackCount = 0, pi_sentTime = 0,
     pi_remoteAddr = \<lparr>ua_port = 1, ua_hostname = ''localhost''\<rparr>\<rparr>"

definition sample_window :: send_window where
  "sample_window = sw_new\<lparr>sw_packetMap := \<lparr>
     bm_map = [(65535, sample_info 65535), (0, sample_info 0), (1, sample_info 1), (2, sample_info 2)],
     bm_capacity = 4, bm_waiting = [(3, sample_info 3)]\<rparr>\<rparr>"

definition sample_ack :: packet where
  "sample_ack = (pi_packet (sample_info 9))\<lparr>pk_type := ST_STATE, pk_ackNr := 0, pk_windowSize := 262144\<rparr>"

theorem sw_handleAck_exact_witness:
  "map fst (sw_outstanding (fst (sw_handleAck (\<lambda>_. 100) sample_ack sample_window))) = [1, 2, 3]"
proof -
  have ok: "sw_ok sample_window"
    by (simp add: sw_ok_def sample_window_def bm_inv_def bm_distinct_def bm_all_def jm_wf_def jm_keys_def bm_size_def)
  have acked: "sw_acked sample_ack sample_window k \<longleftrightarrow> seq_ge 0 k" for k
    by (simp add: sw_acked_def sw_ackedBySack_def sackExtension_def sample_ack_def sample_info_def
        sw_isPacketAcked_def sw_noteAck_def sample_window_def sw_new_def)
  have "sw_waitKeys sample_window = {3}"
    by (simp add: sw_waitKeys_def bm_waitKeys_def sample_window_def)
  then have "\<forall>k \<in> sw_waitKeys sample_window. \<not> sw_acked sample_ack sample_window k"
    by (simp add: acked seq_ge_def seq_gt_def seq_simps)
  note exact = conjunct1 [OF sw_handleAck_exact [OF ok this, of "\<lambda>_. 100"]]
  have "sw_outstanding sample_window
      = [(65535, sample_info 65535), (0, sample_info 0), (1, sample_info 1), (2, sample_info 2), (3, sample_info 3)]"
    by (simp add: sw_outstanding_def bm_all_def sample_window_def)
  then show ?thesis
    unfolding exact acked by (simp add: seq_ge_def seq_gt_def seq_simps)
qed

subsection \<open>Runs of the window\<close>

datatype sw_act =
    ActWait int packet utp_addr
  | ActAck "int \<Rightarrow> int" packet
  | ActResend int int
  | ActReset

fun sw_do :: "sw_act \<Rightarrow> send_window \<Rightarrow> send_window \<times> sw_out list" where
  "sw_do (ActWait now p a) s = (fst (sw_waitForAck now p a s), admits (snd (snd (sw_waitForAck now p a s))))"
| "sw_do (ActAck clk p) s = (fst (sw_handleAck clk p s), admits (snd (sw_handleAck clk p s)))"
| "sw_do (ActResend now k) s = sw_resendOne now k s"
| "sw_do ActReset s = (fst (sw_reset s), admits (snd (sw_reset s)))"

text \<open>
  What the environment is relied on for: a packet handed over has a sequence number that is not
  outstanding, and the peer does not acknowledge a packet that was never sent.
\<close>

fun sw_can :: "sw_act \<Rightarrow> send_window \<Rightarrow> bool" where
  "sw_can (ActWait now p a) s \<longleftrightarrow> pk_seqNr p \<notin> fst ` set (sw_outstanding s)"
| "sw_can (ActAck clk p) s \<longleftrightarrow> (\<forall>k \<in> sw_waitKeys s. \<not> sw_acked p s k)"
| "sw_can (ActResend now k) s \<longleftrightarrow> True"
| "sw_can ActReset s \<longleftrightarrow> True"

inductive sw_run :: "send_window \<Rightarrow> sw_act list \<Rightarrow> sw_out list \<Rightarrow> send_window \<Rightarrow> bool" where
  run_nil: "sw_run s [] [] s"
| run_snoc: "sw_run s acts outs t \<Longrightarrow> sw_can a t
    \<Longrightarrow> sw_run s (acts @ [a]) (outs @ snd (sw_do a t)) (fst (sw_do a t))"

lemma jm_set_append: "k \<in> set (jm_keys m) \<Longrightarrow> jm_set k v m @ ws = jm_set k v (m @ ws)"
  by (induction m) (auto simp: jm_set_def jm_keys_def)

lemma map_of_filter_fst: "map_of (filter (\<lambda>e. P (fst e)) xs) k = (if P k then map_of xs k else None)"
  by (induction xs) auto

lemma sw_resendOne_update:
  assumes "bm_get (sw_packetMap s) k = Some info"
    and "of_int (now - pi_sentTime info) > rt_rto (sw_rtt s)" "pi_resendTimes info < RESEND_TIMES_LIMIT"
  shows "snd (sw_resendOne now k s) = [SwSend (pi_packet info) (pi_remoteAddr info)]"
    and "sw_outstanding (fst (sw_resendOne now k s)) =
      jm_set k (info\<lparr>pi_resendTimes := pi_resendTimes info + 1, pi_sentTime := now\<rparr>) (sw_outstanding s)"
proof -
  have "k \<in> set (jm_keys (bm_map (sw_packetMap s)))" using assms(1) by (simp add: jm_keys_dom bm_get_def)
  then show "sw_outstanding (fst (sw_resendOne now k s)) =
      jm_set k (info\<lparr>pi_resendTimes := pi_resendTimes info + 1, pi_sentTime := now\<rparr>) (sw_outstanding s)"
    using assms by (simp add: sw_resendOne_def Let_def sw_outstanding_def bm_all_def jm_set_append)
  show "snd (sw_resendOne now k s) = [SwSend (pi_packet info) (pi_remoteAddr info)]"
    using assms by (simp add: sw_resendOne_def Let_def)
qed

lemma in_map_not_waiting:
  "bm_distinct m \<Longrightarrow> bm_get m k = Some v \<Longrightarrow> k \<notin> bm_waitKeys m"
proof -
  assume d: "bm_distinct m" and "bm_get m k = Some v"
  then have "k \<in> fst ` set (bm_map m)"
    using jm_keys_dom [of k "bm_map m"] by (simp add: bm_get_def jm_keys_def)
  then show ?thesis using d unfolding bm_distinct_def bm_all_def bm_waitKeys_def by auto
qed

lemma sw_resendOne_drop:
  assumes "sw_ok s" "bm_get (sw_packetMap s) k = Some info"
    and "of_int (now - pi_sentTime info) > rt_rto (sw_rtt s)" "RESEND_TIMES_LIMIT \<le> pi_resendTimes info"
  shows "sw_outstanding (fst (sw_resendOne now k s)) = filter (\<lambda>e. fst e \<noteq> k) (sw_outstanding s)"
    and "sw_ok (fst (sw_resendOne now k s))"
    and "\<exists>rel. snd (sw_resendOne now k s) = admits rel"
proof -
  let ?s0 = "s\<lparr>sw_cc := cc_onPacketLoss (sw_cc s)\<rparr>"
  let ?s1 = "fst (sw_applyWindowSize ?s0)"
  have r: "sw_resendOne now k s = (?s1\<lparr>sw_packetMap := fst (bm_delete k (sw_packetMap ?s1))\<rparr>,
      admits (snd (sw_applyWindowSize ?s0) @ snd (bm_delete k (sw_packetMap ?s1))))"
    using assms by (simp add: sw_resendOne_def split_beta)
  have ok1: "sw_ok ?s1" "sw_outstanding ?s1 = sw_outstanding s" using assms(1) by simp_all
  have "k \<notin> sw_waitKeys s"
    using in_map_not_waiting [OF _ assms(2)] assms(1) by (simp add: sw_ok_def sw_waitKeys_def)
  then have w: "k \<notin> sw_waitKeys ?s1"
    using image_mono [OF bm_waiting_mono(3) [of "sw_windowSize ?s0" "sw_packetMap s"], of fst]
    by (auto simp: sw_apply_eq sw_waitKeys_def bm_waitKeys_def)
  show "sw_outstanding (fst (sw_resendOne now k s)) = filter (\<lambda>e. fst e \<noteq> k) (sw_outstanding s)"
    using sw_outstanding_delete [OF ok1(1) w, of "fst (sw_resendOne now k s)"] ok1 by (simp add: r)
  show "sw_ok (fst (sw_resendOne now k s))"
    using sw_ok_delete [OF ok1(1) w, of "fst (sw_resendOne now k s)"] by (simp add: r)
  show "\<exists>rel. snd (sw_resendOne now k s) = admits rel" using r by auto
qed

lemma sw_resendOne_cases:
  obtains (skip) "sw_resendOne now k s = (s, [])"
  | (send) info where "bm_get (sw_packetMap s) k = Some info" "of_int (now - pi_sentTime info) > rt_rto (sw_rtt s)"
      "pi_resendTimes info < RESEND_TIMES_LIMIT"
  | (drop) info where "bm_get (sw_packetMap s) k = Some info" "of_int (now - pi_sentTime info) > rt_rto (sw_rtt s)"
      "RESEND_TIMES_LIMIT \<le> pi_resendTimes info"
proof (cases "bm_get (sw_packetMap s) k")
  case None
  then show ?thesis by (intro skip) (simp add: sw_resendOne_def)
next
  case (Some info)
  show ?thesis
  proof (cases "of_int (now - pi_sentTime info) > rt_rto (sw_rtt s)")
    case True
    then show ?thesis using Some send drop not_le by blast
  next
    case False
    then show ?thesis using Some by (intro skip) (simp add: sw_resendOne_def)
  qed
qed

subsection \<open>Sizes\<close>

text \<open>The part of the invariant about numbers: window limits, capacity, packets in flight.\<close>

definition sw_sized :: "send_window \<Rightarrow> bool" where
  "sw_sized s \<longleftrightarrow> sw_minWindow s = 4 \<and> sw_maxWindow s = 64 \<and> cc_inv (sw_cc s) \<and> 0 \<le> rt_rtt (sw_rtt s)
     \<and> jm_wf (bm_map (sw_packetMap s))
     \<and> 1 \<le> bm_capacity (sw_packetMap s) \<and> bm_capacity (sw_packetMap s) \<le> 64
     \<and> bm_size (sw_packetMap s) \<le> 64"

lemma sw_windowSize_range: "sw_minWindow s = 4 \<Longrightarrow> sw_maxWindow s = 64 \<Longrightarrow> 1 \<le> sw_windowSize s \<and> sw_windowSize s \<le> 64"
  by (auto simp: sw_windowSize_def Let_def min_def max_def split: option.splits)

lemma jm_wf_release: "jm_wf (bm_map m) \<Longrightarrow> jm_wf (bm_map (fst (bm_delete k m)))"
  "jm_wf (bm_map m) \<Longrightarrow> jm_wf (bm_map (fst (bm_updateCapacity c m)))"
  using bm_resolve_inv [of "m\<lparr>bm_map := jm_del k (bm_map m)\<rparr>"] bm_resolve_inv [of "m\<lparr>bm_capacity := c\<rparr>"]
  by (simp_all add: bm_delete_def bm_updateCapacity_def bm_inv_def)

lemma sw_sized_delete:
  assumes "sw_sized s"
  shows "sw_sized (s\<lparr>sw_packetMap := fst (bm_delete k (sw_packetMap s))\<rparr>)"
  using assms bm_delete_size [of "sw_packetMap s" 64 k]
  by (simp add: sw_sized_def jm_wf_release)

lemma sw_sized_apply:
  assumes "sw_sized s" shows "sw_sized (fst (sw_applyWindowSize s))"
  using assms sw_windowSize_range [of s] bm_updateCapacity_size [of "sw_windowSize s" 64 "sw_packetMap s"]
  by (simp add: sw_sized_def sw_apply_eq jm_wf_release)

lemma sw_sized_sample: "sw_sized s \<Longrightarrow> sw_sized (sw_sample now info s)"
  by (simp add: sw_sized_def sw_sample_def rtt_update_nonneg)

lemma sw_sized_remove: "sw_sized s \<Longrightarrow> sw_sized (fst (sw_remove k s))"
  using sw_sized_delete [of s k] by (simp add: sw_remove_eq sw_sized_def)

lemma sw_sized_steps:
  "sw_sized s \<Longrightarrow> sw_sized (fst (sw_sackStep clk k s))" "sw_sized s \<Longrightarrow> sw_sized (fst (sw_cumulativeStep clk k s))"
  by (simp_all add: sw_sackStep_def sw_cumulativeStep_def sw_sized_remove sw_sized_sample split: option.splits)

lemma sw_sized_noteAck: "sw_sized (sw_noteAck p s) = sw_sized s"
  by (simp add: sw_sized_def sw_noteAck_def Let_def)

lemma sw_sized_handleAck: "sw_sized s \<Longrightarrow> sw_sized (fst (sw_handleAck clk p s))"
proof -
  assume "sw_sized s"
  then have "sw_sized (fst (sw_afterSack clk p s))"
    unfolding sw_afterSack_def
    by (intro thread_invariant [where P = sw_sized]) (simp_all add: sw_sized_steps sw_sized_noteAck)
  then have "sw_sized (fst (sw_afterLoops clk p s))"
    unfolding sw_afterLoops_def
    by (intro thread_invariant [where P = sw_sized]) (simp_all add: sw_sized_steps)
  then show ?thesis
    unfolding sw_handleAck_eq Let_def fst_conv
    by (intro sw_sized_apply) (simp add: sw_sized_def cc_updateRtt_inv)
qed

lemma sw_sized_resendOne:
  assumes "sw_sized s" shows "sw_sized (fst (sw_resendOne now k s))"
proof (cases rule: sw_resendOne_cases [of now k s])
  case skip
  then show ?thesis using assms by simp
next
  case (send info)
  then have "k \<in> set (jm_keys (bm_map (sw_packetMap s)))" by (simp add: jm_keys_dom bm_get_def)
  then show ?thesis
    using send assms by (simp add: sw_resendOne_def Let_def sw_sized_def bm_size_def jm_length_set)
next
  case (drop info)
  let ?s0 = "s\<lparr>sw_cc := cc_onPacketLoss (sw_cc s)\<rparr>"
  have "sw_sized (fst (sw_applyWindowSize ?s0))"
    using assms by (intro sw_sized_apply) (simp add: sw_sized_def cc_onPacketLoss_inv)
  then show ?thesis
    using drop by (simp add: sw_resendOne_def split_beta sw_sized_delete)
qed

lemma sw_sized_waitForAck: "sw_sized s \<Longrightarrow> sw_sized (fst (sw_waitForAck now p a s))"
proof -
  assume s: "sw_sized s"
  have wf: "jm_wf (bm_map (fst (bm_set k v m)))" if "jm_wf (bm_map m)" for k v and m :: "(int, pkt_info) bmap"
    using that bm_resolve_inv [of "m\<lparr>bm_map := jm_set k v (bm_map m)\<rparr>"] by (simp add: bm_set_split bm_inv_def)
  show ?thesis
    using s bm_set_size [of "sw_packetMap s" 64] by (simp add: sw_waitForAck_def split_beta sw_sized_def wf)
qed

lemma sw_sized_reset: "sw_sized s \<Longrightarrow> sw_sized (fst (sw_reset s))"
  using bm_updateCapacity_size [of 4 64 "bm_clear (sw_packetMap s)"]
  by (simp add: sw_reset_def split_beta sw_sized_def jm_wf_release cc_reset_inv bm_clear_def bm_size_def)

lemma sw_sized_do: "sw_sized s \<Longrightarrow> sw_sized (fst (sw_do a s))"
  by (cases a) (simp_all add: sw_sized_handleAck sw_sized_resendOne sw_sized_waitForAck sw_sized_reset)

lemma sw_new_sized: "sw_sized sw_new"
  by (simp add: sw_sized_def sw_new_def window_consts cc_new_inv bm_new_def bm_size_def rtt_new_def)

subsection \<open>Entries\<close>

definition sw_entry_ok :: "int \<times> pkt_info \<Rightarrow> bool" where
  "sw_entry_ok e \<longleftrightarrow> fst e = pk_seqNr (pi_packet (snd e)) \<and> pi_resendTimes (snd e) \<le> RESEND_TIMES_LIMIT"

definition sw_entries_ok :: "send_window \<Rightarrow> bool" where
  "sw_entries_ok s \<longleftrightarrow> sw_ok s \<and> list_all sw_entry_ok (sw_outstanding s)"

lemma sw_ok_distinct: "sw_ok s \<Longrightarrow> distinct (map fst (sw_outstanding s))"
  by (simp add: sw_ok_def bm_distinct_def sw_outstanding_def)

lemma sw_get_outstanding: "sw_ok s \<Longrightarrow> bm_get (sw_packetMap s) k = Some v \<Longrightarrow> (k, v) \<in> set (sw_outstanding s)"
  by (auto simp: sw_outstanding_def bm_all_def bm_get_def jm_get_def dest: map_of_SomeD)

lemma sw_waitForAck_outstanding:
  assumes "sw_ok s" "pk_seqNr p \<notin> fst ` set (sw_outstanding s)"
  shows "sw_outstanding (fst (sw_waitForAck now p a s)) = sw_outstanding s
      @ [(pk_seqNr p, \<lparr>pi_packet = p, pi_resendTimes = 0, pi_ackCount = 0, pi_sentTime = now, pi_remoteAddr = a\<rparr>)]"
    and "sw_ok (fst (sw_waitForAck now p a s))"
proof -
  show o: "sw_outstanding (fst (sw_waitForAck now p a s)) = sw_outstanding s
      @ [(pk_seqNr p, \<lparr>pi_packet = p, pi_resendTimes = 0, pi_ackCount = 0, pi_sentTime = now, pi_remoteAddr = a\<rparr>)]"
    using assms by (simp add: sw_waitForAck_def split_beta sw_outstanding_def sw_ok_def bm_all_set)
  show "sw_ok (fst (sw_waitForAck now p a s))"
    using assms o by (simp add: sw_ok_def sw_waitForAck_def split_beta bm_set_inv bm_distinct_def sw_outstanding_def)
qed

lemma sw_reset_outstanding:
  assumes "sw_ok s"
  shows "sw_outstanding (fst (sw_reset s)) = bm_waiting (sw_packetMap s)" and "sw_ok (fst (sw_reset s))"
    and "bm_waiting (sw_packetMap s) = snd (sw_reset s) @ bm_waiting (sw_packetMap (fst (sw_reset s)))"
proof -
  let ?m = "bm_clear (sw_packetMap s)"
  have d: "bm_distinct ?m" "bm_all ?m = bm_waiting (sw_packetMap s)"
    using assms by (simp_all add: sw_ok_def bm_distinct_def bm_all_def bm_clear_def)
  show o: "sw_outstanding (fst (sw_reset s)) = bm_waiting (sw_packetMap s)"
    using bm_all_updateCapacity [OF d(1)] d(2) by (simp add: sw_reset_def split_beta sw_outstanding_def)
  show "sw_ok (fst (sw_reset s))"
    using bm_updateCapacity_inv [of ?m] o d
    by (simp add: sw_ok_def sw_reset_def split_beta bm_distinct_def sw_outstanding_def bm_clear_def)
  show "bm_waiting (sw_packetMap s) = snd (sw_reset s) @ bm_waiting (sw_packetMap (fst (sw_reset s)))"
    using bm_updateCapacity_fifo [of ?m] by (simp add: sw_reset_def split_beta bm_clear_def)
qed

lemma set_update_subset_aux: "set (AList.update k v xs) \<subseteq> insert (k, v) (set xs)"
  by (induction xs) auto

lemma sw_resendOne_send_ok:
  assumes "sw_ok s" "bm_get (sw_packetMap s) k = Some info"
    and "of_int (now - pi_sentTime info) > rt_rto (sw_rtt s)" "pi_resendTimes info < RESEND_TIMES_LIMIT"
  shows "sw_ok (fst (sw_resendOne now k s))"
proof -
  let ?info = "info\<lparr>pi_resendTimes := pi_resendTimes info + 1, pi_sentTime := now\<rparr>"
  have "k \<in> set (jm_keys (bm_map (sw_packetMap s)))" using assms(2) by (simp add: jm_keys_dom bm_get_def)
  then show ?thesis
    using assms jm_keys_set [of k ?info "bm_map (sw_packetMap s)"]
    by (simp add: sw_resendOne_def Let_def sw_ok_def bm_inv_def bm_distinct_def bm_all_def bm_size_def
        jm_length_set jm_keys_def)
qed

lemma sw_resendOne_ok:
  assumes "sw_entries_ok s" shows "sw_entries_ok (fst (sw_resendOne now k s))"
proof (cases rule: sw_resendOne_cases [of now k s])
  case skip
  then show ?thesis using assms by simp
next
  case (send info)
  let ?info = "info\<lparr>pi_resendTimes := pi_resendTimes info + 1, pi_sentTime := now\<rparr>"
  have ok: "sw_ok s" using assms by (simp add: sw_entries_ok_def)
  have "sw_entry_ok (k, info)"
    using assms sw_get_outstanding [OF ok send(1)] by (auto simp: sw_entries_ok_def list_all_iff)
  then have e: "sw_entry_ok (k, ?info)" using send(3) by (simp add: sw_entry_ok_def)
  have "set (jm_set k ?info (sw_outstanding s)) \<subseteq> insert (k, ?info) (set (sw_outstanding s))"
    unfolding jm_set_def by (rule set_update_subset_aux)
  then have "list_all sw_entry_ok (sw_outstanding (fst (sw_resendOne now k s)))"
    unfolding sw_resendOne_update(2) [OF send] using assms e by (auto simp: sw_entries_ok_def list_all_iff)
  then show ?thesis using sw_resendOne_send_ok [OF ok send] by (simp add: sw_entries_ok_def)
next
  case (drop info)
  have ok: "sw_ok s" using assms by (simp add: sw_entries_ok_def)
  note d = sw_resendOne_drop [OF ok drop]
  show ?thesis using assms d(1,2) by (auto simp: sw_entries_ok_def list_all_iff)
qed

subsection \<open>What holds in every run\<close>

definition sw_inv :: "send_window \<Rightarrow> bool" where
  "sw_inv s \<longleftrightarrow> sw_sized s \<and> sw_entries_ok s"

lemma sw_entries_ok_do:
  assumes "sw_entries_ok s" "sw_can a s" shows "sw_entries_ok (fst (sw_do a s))"
proof (cases a)
  case (ActWait now p addr)
  then show ?thesis
    using assms sw_waitForAck_outstanding [of s p now addr]
    by (simp add: sw_entries_ok_def sw_entry_ok_def)
next
  case (ActAck clk p)
  then have "sw_ok s" "\<forall>k \<in> sw_waitKeys s. \<not> sw_acked p s k" using assms by (simp_all add: sw_entries_ok_def)
  then have "sw_outstanding (fst (sw_do a s)) = filter (\<lambda>e. \<not> sw_acked p s (fst e)) (sw_outstanding s)"
    "sw_ok (fst (sw_do a s))"
    using sw_afterLoops_outstanding [of s p clk] ActAck by (simp_all add: sw_handleAck_eq Let_def)
  then show ?thesis using assms(1) by (auto simp: sw_entries_ok_def list_all_iff)
next
  case (ActResend now k)
  then show ?thesis using assms by (simp add: sw_resendOne_ok)
next
  case ActReset
  have "set (bm_waiting (sw_packetMap s)) \<subseteq> set (sw_outstanding s)" by (simp add: sw_outstanding_def bm_all_def)
  then show ?thesis
    using assms(1) sw_reset_outstanding [of s] ActReset by (auto simp: sw_entries_ok_def list_all_iff)
qed

lemma sw_do_inv: "sw_inv s \<Longrightarrow> sw_can a s \<Longrightarrow> sw_inv (fst (sw_do a s))"
  by (simp add: sw_inv_def sw_sized_do sw_entries_ok_do)

lemma sw_new_inv: "sw_inv sw_new"
proof -
  have m: "sw_packetMap sw_new = bm_new MIN_WINDOW_SIZE" by (simp add: sw_new_def)
  have a: "bm_all (bm_new MIN_WINDOW_SIZE) = []" by (simp add: bm_all_def bm_new_def)
  have "sw_entries_ok sw_new"
    unfolding sw_entries_ok_def sw_ok_def sw_outstanding_def bm_distinct_def m a by simp
  then show ?thesis unfolding sw_inv_def using sw_new_sized by blast
qed

lemma sw_run_inv: "sw_run s acts outs t \<Longrightarrow> sw_inv s \<Longrightarrow> sw_inv t"
  by (induction rule: sw_run.induct) (simp_all add: sw_do_inv)

text \<open>
  C18. Over every run of the window (hand-overs, acknowledgements, single retransmissions, resets, in
  any order): at most 64 packets are in flight and the capacity stays between 1 and 64; every
  outstanding packet is filed once, under its own sequence number, and was retransmitted at most
  three times; and a caller is left waiting only while a packet is in flight, so an acknowledgement
  or a loss will wake it.
\<close>

theorem sw_run_invariant:
  assumes "sw_run sw_new acts outs s"
  shows "sw_getSize s \<le> 64 \<and> 1 \<le> bm_capacity (sw_packetMap s) \<and> bm_capacity (sw_packetMap s) \<le> 64
    \<and> distinct (map fst (sw_outstanding s))
    \<and> list_all (\<lambda>(k, info). pk_seqNr (pi_packet info) = k \<and> pi_resendTimes info \<le> 3) (sw_outstanding s)
    \<and> (bm_waiting (sw_packetMap s) = [] \<or> sw_isNotEmpty s)"
proof -
  have inv: "sw_inv s" by (rule sw_run_inv [OF assms sw_new_inv])
  then have sized: "sw_sized s" and entries: "sw_entries_ok s" by (simp_all add: sw_inv_def)
  have "bm_waiting (sw_packetMap s) = [] \<or> bm_capacity (sw_packetMap s) \<le> of_nat (bm_size (sw_packetMap s))"
    using entries by (auto simp: sw_entries_ok_def sw_ok_def bm_inv_def)
  moreover have "1 \<le> bm_capacity (sw_packetMap s)" using sized by (simp add: sw_sized_def)
  ultimately have "bm_waiting (sw_packetMap s) = [] \<or> sw_isNotEmpty s"
    by (auto simp: sw_isNotEmpty_def intro!: Nat.gr0I)
  moreover have "list_all (\<lambda>(k, info). pk_seqNr (pi_packet info) = k \<and> pi_resendTimes info \<le> 3) (sw_outstanding s)"
    using entries by (auto simp: sw_entries_ok_def list_all_iff sw_entry_ok_def RESEND_TIMES_LIMIT_def)
  ultimately show ?thesis
    using sized entries sw_ok_distinct by (simp add: sw_sized_def sw_getSize_def sw_entries_ok_def)
qed

definition sends_of :: "int \<Rightarrow> sw_out list \<Rightarrow> nat" where
  "sends_of k outs =
     length (filter (\<lambda>out. case out of SwSend p a \<Rightarrow> pk_seqNr p = k | SwAdmit j v \<Rightarrow> False) outs)"

fun hands_of :: "int \<Rightarrow> sw_act list \<Rightarrow> nat" where
  "hands_of k [] = 0"
| "hands_of k (ActWait now p a # as) = (if pk_seqNr p = k then 1 else 0) + hands_of k as"
| "hands_of k (_ # as) = hands_of k as"

lemma hands_of_append: "hands_of k (as @ bs) = hands_of k as + hands_of k bs"
  by (induction as rule: hands_of.induct) simp_all

lemma sends_of_simps [simp]:
  "sends_of k [] = 0" "sends_of k (xs @ ys) = sends_of k xs + sends_of k ys" "sends_of k (admits rel) = 0"
  by (auto simp: sends_of_def admits_def filter_empty_conv)

text \<open>How many more times the outstanding packet \<open>k\<close> may be sent again.\<close>

definition sw_budget :: "int \<Rightarrow> send_window \<Rightarrow> nat" where
  "sw_budget k s = (case map_of (sw_outstanding s) k of None \<Rightarrow> 0 | Some info \<Rightarrow> 3 - pi_resendTimes info)"

lemma budget_filter:
  "sw_outstanding t = filter (\<lambda>e. P (fst e)) (sw_outstanding s) \<Longrightarrow> sw_budget k t \<le> sw_budget k s"
  by (simp add: sw_budget_def map_of_filter_fst)

lemma budget_resend:
  assumes "sw_entries_ok s"
  shows "sends_of k (snd (sw_resendOne now j s)) + sw_budget k (fst (sw_resendOne now j s)) \<le> sw_budget k s"
proof (cases rule: sw_resendOne_cases [of now j s])
  case skip
  then show ?thesis by simp
next
  case (send info)
  have ok: "sw_ok s" using assms by (simp add: sw_entries_ok_def)
  have m: "(j, info) \<in> set (sw_outstanding s)" by (rule sw_get_outstanding [OF ok send(1)])
  then have "map_of (sw_outstanding s) j = Some info" using sw_ok_distinct [OF ok] by simp
  moreover have "pk_seqNr (pi_packet info) = j"
    using assms m by (auto simp: sw_entries_ok_def list_all_iff sw_entry_ok_def)
  moreover have "pi_resendTimes info < 3" using send(3) by (simp add: RESEND_TIMES_LIMIT_def)
  ultimately show ?thesis
    unfolding sw_resendOne_update(1) [OF send] sw_budget_def sw_resendOne_update(2) [OF send]
    by (auto simp: sends_of_def jm_set_def update_conv')
next
  case (drop info)
  have ok: "sw_ok s" using assms by (simp add: sw_entries_ok_def)
  note d = sw_resendOne_drop [OF ok drop]
  then show ?thesis using budget_filter [OF d(1), of k] by auto
qed

lemma budget_do:
  assumes "sw_entries_ok s" "sw_can a s"
  shows "sends_of k (snd (sw_do a s)) + sw_budget k (fst (sw_do a s)) \<le> sw_budget k s + 3 * hands_of k [a]"
proof (cases a)
  case (ActWait now p addr)
  have "map_of (sw_outstanding s) (pk_seqNr p) = None"
    using assms(2) ActWait by (simp add: map_of_eq_None_iff)
  then show ?thesis
    using assms sw_waitForAck_outstanding [of s p now addr] ActWait
    by (auto simp: sw_entries_ok_def sw_budget_def map_add_def split: option.splits)
next
  case (ActAck clk p)
  then have "sw_ok s" "\<forall>k \<in> sw_waitKeys s. \<not> sw_acked p s k" using assms by (simp_all add: sw_entries_ok_def)
  then have "sw_outstanding (fst (sw_do a s)) = filter (\<lambda>e. \<not> sw_acked p s (fst e)) (sw_outstanding s)"
    using sw_afterLoops_outstanding [of s p clk] ActAck by (simp add: sw_handleAck_eq Let_def)
  from budget_filter [OF this] show ?thesis using ActAck by simp
next
  case (ActResend now j)
  then show ?thesis using budget_resend [OF assms(1)] by simp
next
  case ActReset
  have ok: "sw_ok s" using assms(1) by (simp add: sw_entries_ok_def)
  let ?M = "bm_map (sw_packetMap s)" and ?W = "bm_waiting (sw_packetMap s)"
  have d: "distinct (map fst (?M @ ?W))"
    using sw_ok_distinct [OF ok] unfolding sw_outstanding_def bm_all_def .
  have "map_of ?W k = None \<or> map_of (?M @ ?W) k = map_of ?W k"
  proof (cases "map_of ?W k")
    case (Some v)
    then have "(k, v) \<in> set (?M @ ?W)" by (simp add: map_of_SomeD)
    then show ?thesis using map_of_is_SomeI [OF d] Some by simp
  qed simp
  then have "sw_budget k (fst (sw_do a s)) \<le> sw_budget k s"
    using sw_reset_outstanding(1) [OF ok] ActReset
    unfolding sw_budget_def sw_outstanding_def [of s] bm_all_def by (auto split: option.splits)
  then show ?thesis using ActReset by simp
qed

lemma sends_run:
  "sw_run s acts outs t \<Longrightarrow> sw_inv s \<Longrightarrow>
   sends_of k outs + sw_budget k t \<le> sw_budget k s + 3 * hands_of k acts"
proof (induction rule: sw_run.induct)
  case (run_nil s)
  then show ?case by simp
next
  case (run_snoc s acts outs t a)
  have "sw_entries_ok t" using sw_run_inv [OF run_snoc.hyps(1) run_snoc.prems] by (simp add: sw_inv_def)
  from budget_do [OF this run_snoc.hyps(2), of k] show ?case
    using run_snoc.IH [OF run_snoc.prems] by (simp add: hands_of_append)
qed

text \<open>
  C15. No packet is retransmitted more than three times: over every run, the number of
  retransmissions carrying sequence number \<open>k\<close> is at most three times the number of packets with that
  sequence number that were handed over, however acknowledgements, losses, timer rounds and resets
  interleave.
\<close>

theorem sw_retransmissions_bounded:
  assumes "sw_run sw_new acts outs s"
  shows "sends_of k outs \<le> 3 * hands_of k acts"
proof -
  have "sw_budget k sw_new = 0" by (simp add: sw_budget_def sw_outstanding_def sw_new_def bm_all_def bm_new_def)
  then show ?thesis using sends_run [OF assms sw_new_inv, of k] by simp
qed

definition sample_addr :: utp_addr where
  "sample_addr = \<lparr>ua_port = 1, ua_hostname = ''localhost''\<rparr>"

definition sample_sent :: send_window where
  "sample_sent = fst (sw_do (ActWait 0 (pi_packet (sample_info 1)) sample_addr) sw_new)"

lemma sample_sent_outstanding:
  "sw_packetMap sample_sent = \<lparr>bm_map = [(1, \<lparr>pi_packet = pi_packet (sample_info 1), pi_resendTimes = 0,
     pi_ackCount = 0, pi_sentTime = 0, pi_remoteAddr = sample_addr\<rparr>)], bm_capacity = 4, bm_waiting = []\<rparr>"
  by (simp add: sample_sent_def sw_waitForAck_def sw_new_def bm_set_split bm_new_def bm_resolveNextSetter_def
      window_consts jm_set_def) (simp add: sample_info_def)

lemma sample_sent_run:
  "sw_run sw_new ([ActWait 0 (pi_packet (sample_info 1)) sample_addr] @ [ActResend 2000 1])
     ((snd (sw_do (ActWait 0 (pi_packet (sample_info 1)) sample_addr) sw_new)) @ snd (sw_do (ActResend 2000 1) sample_sent))
     (fst (sw_do (ActResend 2000 1) sample_sent))"
proof -
  let ?w = "ActWait 0 (pi_packet (sample_info 1)) sample_addr"
  have "sw_can ?w sw_new" by (simp add: sw_outstanding_def sw_new_def bm_all_def bm_new_def)
  from run_snoc [OF run_nil this] have "sw_run sw_new [?w] (snd (sw_do ?w sw_new)) sample_sent"
    by (simp only: append_Nil sample_sent_def)
  from run_snoc [OF this, of "ActResend 2000 1"] show ?thesis by simp
qed

theorem sw_run_invariant_witness:
  "sw_getSize (fst (sw_do (ActResend 2000 1) sample_sent)) \<le> 64
   \<and> distinct (map fst (sw_outstanding (fst (sw_do (ActResend 2000 1) sample_sent))))"
  using sw_run_invariant [OF sample_sent_run] by blast

theorem sw_retransmissions_bounded_witness:
  "sends_of 1 (snd (sw_do (ActResend 2000 1) sample_sent)) = 1
   \<and> sends_of 1 (snd (sw_do (ActResend 2000 1) sample_sent)) \<le> 3"
proof
  have r: "sw_rtt sample_sent = rtt_new" by (simp add: sample_sent_def sw_waitForAck_def split_beta sw_new_def)
  then show "sends_of 1 (snd (sw_do (ActResend 2000 1) sample_sent)) = 1"
    by (simp add: sw_resendOne_def bm_get_def jm_get_def sample_sent_outstanding rtt_new_def MIN_RTO_def
        RESEND_TIMES_LIMIT_def Let_def sends_of_def sample_info_def)
  have "sends_of 1 (snd (sw_do (ActWait 0 (pi_packet (sample_info 1)) sample_addr) sw_new)
      @ snd (sw_do (ActResend 2000 1) sample_sent))
    \<le> 3 * hands_of 1 ([ActWait 0 (pi_packet (sample_info 1)) sample_addr] @ [ActResend 2000 1])"
    by (rule sw_retransmissions_bounded [OF sample_sent_run])
  then show "sends_of 1 (snd (sw_do (ActResend 2000 1) sample_sent)) \<le> 3"
    by (simp add: sample_info_def)
qed

subsection \<open>Window size and round-trip samples after an acknowledgement\<close>

lemma floor_fl_div:
  fixes b :: int
  assumes "0 \<le> b" "b < 2 ^ 32"
  shows "\<lfloor>fl (of_int b / 1400)\<rfloor> = b div 1400"
proof -
  define q where "q = b div 1400"
  have "b = 1400 * q + b mod 1400" "0 \<le> b mod 1400" "b mod 1400 < 1400" by (simp_all add: q_def)
  then have q: "1400 * q \<le> b" "b \<le> 1400 * q + 1399" by linarith+
  have q0: "0 \<le> q" "q \<le> b" using assms q by linarith+
  have qs: "q < 2 ^ 32" using q0 assms by linarith
  have "representable (of_int q)" using q0 qs by (intro representable_int) simp
  moreover have lo: "(of_int q :: rat) \<le> of_int b / 1400"
    using of_int_le_iff [where 'a = rat, THEN iffD2, OF q(1)] by simp
  ultimately have 1: "of_int q \<le> fl (of_int b / 1400)" by (rule dbl.rnd_ge)
  let ?u = "of_int (2048 * (q + 1) - 1) / 2 ^ 11 :: rat"
  have "representable ?u" using q0 qs by (intro representable_dyadic) simp_all
  moreover have "(of_int b :: rat) / 1400 \<le> ?u"
    using of_int_le_iff [where 'a = rat, THEN iffD2, OF q(2)] by (simp add: field_simps)
  ultimately have "fl (of_int b / 1400) \<le> ?u" by (rule dbl.rnd_le)
  also have "?u < of_int q + 1" by (simp add: field_simps)
  finally have "fl (of_int b / 1400) < of_int q + 1" .
  with 1 show ?thesis by (simp add: q_def [symmetric] floor_eq_iff)
qed

lemma handleAck_cc_window:
  assumes "sw_sized s"
  shows "sw_minWindow (fst (sw_afterLoops clk p s)) = 4" "sw_maxWindow (fst (sw_afterLoops clk p s)) = 64"
    "sw_remoteWindowBytes (fst (sw_afterLoops clk p s)) = Some (pk_windowSize p)"
  using sw_afterLoops_frame [of clk p s] assms
  by (simp_all add: sw_frame_def sw_noteAck_def Let_def sw_sized_def)

text \<open>
  C22. After an acknowledgement the capacity, in packets, is the congestion window clamped to 4..64,
  or the receive window the peer announced divided by the MTU when that is smaller, and never 0; the
  floating-point division is exact integer division for every window that fits the 32-bit field.
\<close>

theorem sw_capacity_after_ack:
  assumes "sw_sized s" and "0 \<le> pk_windowSize p" and "pk_windowSize p < 2 ^ 32"
  shows "bm_capacity (sw_packetMap (fst (sw_handleAck clk p s)))
    = min (max 4 (min 64 (cc_windowSize (sw_cc (fst (sw_handleAck clk p s))))))
          (of_int (max 1 (pk_windowSize p div 1400)))"
  using handleAck_cc_window [OF assms(1), of clk p] floor_fl_div [OF assms(2,3)]
  by (simp add: sw_handleAck_eq Let_def sw_apply_eq sw_windowSize_def cc_getWindowSize_def window_consts)

theorem sw_capacity_after_ack_witness:
  "bm_capacity (sw_packetMap (fst (sw_handleAck (\<lambda>_. 100) (sample_ack\<lparr>pk_windowSize := 3000\<rparr>) sw_new))) = 2"
proof -
  let ?s = "fst (sw_handleAck (\<lambda>_. 100) (sample_ack\<lparr>pk_windowSize := 3000\<rparr>) sw_new)"
  have "bm_capacity (sw_packetMap ?s)
      = min (max 4 (min 64 (cc_windowSize (sw_cc ?s)))) (of_int (max 1 (3000 div 1400)))"
    using sw_capacity_after_ack [OF sw_new_sized, of "sample_ack\<lparr>pk_windowSize := 3000\<rparr>"] by simp
  also have "\<dots> = 2" by simp
  finally show ?thesis .
qed

subsection \<open>Round-trip samples\<close>

text \<open>The samples of a list of packets: when it was acknowledged, when it was sent.\<close>

definition samples :: "(int \<Rightarrow> int) \<Rightarrow> (int \<times> pkt_info) list \<Rightarrow> (int \<times> int) list" where
  "samples clk L = map (\<lambda>(k, info). (clk k, pi_sentTime info)) L"

definition fresh_acked :: "packet \<Rightarrow> send_window \<Rightarrow> int \<times> pkt_info \<Rightarrow> bool" where
  "fresh_acked p s e \<longleftrightarrow> sw_acked p s (fst e) \<and> pi_resendTimes (snd e) = 0"

text \<open>In the loops: \<open>L\<close> are the packets sampled so far, those that are gone and were never sent again.\<close>

definition karn_inv :: "(int \<Rightarrow> int) \<Rightarrow> packet \<Rightarrow> send_window \<Rightarrow> (int \<times> pkt_info) list \<Rightarrow> send_window \<Rightarrow> bool" where
  "karn_inv clk p s L t \<longleftrightarrow> sw_ok t \<and> sw_waitKeys t \<subseteq> sw_waitKeys s \<and> sw_frame t = sw_frame (sw_noteAck p s)
     \<and> sw_rtt t = rtt_updates (samples clk L) (sw_rtt s) \<and> distinct L
     \<and> set (sw_outstanding t) \<subseteq> set (sw_outstanding s) \<and> set L \<inter> set (sw_outstanding t) = {}
     \<and> set L \<subseteq> {e \<in> set (sw_outstanding s). fresh_acked p s e}
     \<and> {e \<in> set (sw_outstanding s). fresh_acked p s e} \<subseteq> set L \<union> set (sw_outstanding t)"

lemma karn_step:
  assumes s: "sw_ok s" "\<forall>k \<in> sw_waitKeys s. \<not> sw_acked p s k"
    and t: "karn_inv clk p s L t" and k: "sw_acked p s k" and get: "bm_get (sw_packetMap t) k = Some info"
  shows "\<exists>L'. karn_inv clk p s L' (fst (sw_remove k (sw_sample (clk k) info t)))"
proof -
  let ?t = "sw_sample (clk k) info t"
  let ?v = "fst (sw_remove k ?t)"
  let ?L = "if pi_resendTimes info = 0 then L @ [(k, info)] else L"
  have ok: "sw_ok t" and w: "k \<notin> sw_waitKeys t" using s(2) t k by (auto simp: karn_inv_def)
  have e: "(k, info) \<in> set (sw_outstanding t)" by (rule sw_get_outstanding [OF ok get])
  have only: "e' = (k, info)" if "e' \<in> set (sw_outstanding t)" "fst e' = k" for e'
    using that e sw_ok_distinct [OF ok] by (metis eq_key_imp_eq_value prod.collapse)
  have v: "sw_ok ?v" "sw_outstanding ?v = filter (\<lambda>e. fst e \<noteq> k) (sw_outstanding t)" "sw_waitKeys ?v \<subseteq> sw_waitKeys t"
    using sw_ok_delete [OF ok w, of ?v] sw_outstanding_delete [OF ok w, of ?v] sw_waitKeys_delete [of ?v k t] by simp_all
  have "sw_frame ?v = sw_frame t" by (simp add: sw_frame_def)
  moreover have "sw_rtt ?v = rtt_updates (samples clk ?L) (sw_rtt s)"
    using t by (simp add: sw_sample_def karn_inv_def rtt_updates_def samples_def)
  moreover have "distinct ?L" "set ?L \<inter> set (sw_outstanding ?v) = {}"
    using t e by (auto simp: karn_inv_def v(2))
  moreover have "set ?L \<subseteq> {e \<in> set (sw_outstanding s). fresh_acked p s e}"
    using t e k by (auto simp: karn_inv_def fresh_acked_def)
  moreover have "{e \<in> set (sw_outstanding s). fresh_acked p s e} \<subseteq> set ?L \<union> set (sw_outstanding ?v)"
  proof
    fix e' assume e': "e' \<in> {e \<in> set (sw_outstanding s). fresh_acked p s e}"
    then have "e' \<in> set L \<or> e' \<in> set (sw_outstanding t)" using t by (auto simp: karn_inv_def)
    moreover have "pi_resendTimes (snd e') = 0" using e' by (simp add: fresh_acked_def)
    ultimately show "e' \<in> set ?L \<union> set (sw_outstanding ?v)" using only [of e'] by (cases e') (auto simp: v(2))
  qed
  ultimately have "karn_inv clk p s ?L ?v" using t v by (auto simp: karn_inv_def)
  then show ?thesis by blast
qed

lemma karn_loops:
  assumes "sw_ok s" "\<forall>k \<in> sw_waitKeys s. \<not> sw_acked p s k"
  shows "\<exists>L. karn_inv clk p s L (fst (sw_afterLoops clk p s))"
proof -
  note step = karn_step [OF assms]
  have 0: "\<exists>L. karn_inv clk p s L (sw_noteAck p s)"
    using assms(1) by (intro exI [of _ "[]"]) (simp add: karn_inv_def rtt_updates_def samples_def, simp add: sw_noteAck_def Let_def)
  have 1: "\<exists>L. karn_inv clk p s L (fst (sw_afterSack clk p s))"
    unfolding sw_afterSack_def
  proof (rule thread_invariant [where P = "\<lambda>t. \<exists>L. karn_inv clk p s L t", OF _ 0])
    fix k t assume "k \<in> set (sw_ackedBySack p)" and t: "\<exists>L. karn_inv clk p s L t"
    then have "sw_acked p s k" by (simp add: sw_acked_def)
    then show "\<exists>L. karn_inv clk p s L (fst (sw_sackStep clk k t))"
      using t step [of clk _ t k] by (auto simp: sw_sackStep_def split: option.splits)
  qed
  show ?thesis
    unfolding sw_afterLoops_def
  proof (rule thread_invariant [where P = "\<lambda>t. \<exists>L. karn_inv clk p s L t", OF _ 1])
    fix k t assume "k \<in> set (sw_getAllSeqNrs (fst (sw_afterSack clk p s)))" and t: "\<exists>L. karn_inv clk p s L t"
    then obtain L where L: "karn_inv clk p s L t" by blast
    show "\<exists>L. karn_inv clk p s L (fst (sw_cumulativeStep clk k t))"
    proof (cases "sw_isPacketAcked t k")
      case True
      then have "sw_acked p s k"
        using L isPacketAcked_frame [of t "sw_noteAck p s" k] by (simp add: karn_inv_def sw_acked_def)
      moreover from this have "karn_inv clk p s L (fst (sw_remove k t))" if "bm_get (sw_packetMap t) k = None"
        using L that
        by (simp add: karn_inv_def sw_ok_def sw_waitKeys_def sw_outstanding_def sw_frame_def bm_delete_def bm_get_def jm_has_def)
      ultimately show ?thesis
        using True L step [OF L] by (auto simp: sw_cumulativeStep_def split: option.splits)
    next
      case False
      then show ?thesis using t by (simp add: sw_cumulativeStep_def)
    qed
  qed
qed

text \<open>
  C23. Karn's rule, packet by packet. An acknowledgement gives the round-trip estimator one sample for
  each outstanding packet it covers that was never sent again, and none for a packet that was, also
  when it covers both: the estimator afterwards is the one before, updated once with each packet of a
  list without repetition whose members are exactly those packets.
\<close>

theorem sw_karn:
  assumes "sw_ok s" and "\<forall>k \<in> sw_waitKeys s. \<not> sw_acked p s k"
  shows "\<exists>L. distinct L
    \<and> set L = {(k, info) \<in> set (sw_outstanding s). sw_acked p s k \<and> pi_resendTimes info = 0}
    \<and> sw_rtt (fst (sw_handleAck clk p s)) = rtt_updates (map (\<lambda>(k, info). (clk k, pi_sentTime info)) L) (sw_rtt s)"
proof -
  obtain L where L: "karn_inv clk p s L (fst (sw_afterLoops clk p s))" using karn_loops [OF assms] by blast
  have "sw_outstanding (fst (sw_afterLoops clk p s)) = filter (\<lambda>e. \<not> sw_acked p s (fst e)) (sw_outstanding s)"
    using sw_afterLoops_outstanding [OF assms] by simp
  then have "set L = {e \<in> set (sw_outstanding s). fresh_acked p s e}" using L by (auto simp: karn_inv_def fresh_acked_def)
  moreover have "sw_rtt (fst (sw_handleAck clk p s)) = sw_rtt (fst (sw_afterLoops clk p s))"
    by (simp add: sw_handleAck_eq Let_def sw_apply_eq)
  ultimately show ?thesis
    using L by (intro exI [of _ L]) (auto simp: karn_inv_def fresh_acked_def samples_def)
qed

text \<open>An acknowledgement of two packets, one of which was sent twice.\<close>

definition sample_mixed :: send_window where
  "sample_mixed = sample_window\<lparr>sw_packetMap := \<lparr>
     bm_map = [(65535, sample_info 65535), (0, (sample_info 0)\<lparr>pi_resendTimes := 1\<rparr>), (1, sample_info 1)],
     bm_capacity = 4, bm_waiting = []\<rparr>\<rparr>"

theorem sw_karn_witness:
  "sw_rtt (fst (sw_handleAck (\<lambda>_. 100) sample_ack sample_mixed)) = rtt_update 100 0 rtt_new"
proof -
  have ok: "sw_ok sample_mixed"
    by (simp add: sw_ok_def sample_mixed_def bm_inv_def bm_distinct_def bm_all_def jm_wf_def jm_keys_def bm_size_def)
  have acked: "sw_acked sample_ack sample_mixed k \<longleftrightarrow> seq_ge 0 k" for k
    by (simp add: sw_acked_def sw_ackedBySack_def sackExtension_def sample_ack_def sample_info_def
        sw_isPacketAcked_def sw_noteAck_def sample_mixed_def sample_window_def sw_new_def)
  have "\<forall>k \<in> sw_waitKeys sample_mixed. \<not> sw_acked sample_ack sample_mixed k"
    by (simp add: sw_waitKeys_def bm_waitKeys_def sample_mixed_def)
  from sw_karn [OF ok this, of "\<lambda>_. 100"] obtain L where L: "distinct L"
    "set L = {(k, info) \<in> set (sw_outstanding sample_mixed). sw_acked sample_ack sample_mixed k \<and> pi_resendTimes info = 0}"
    "sw_rtt (fst (sw_handleAck (\<lambda>_. 100) sample_ack sample_mixed))
      = rtt_updates (map (\<lambda>(k, info). (100, pi_sentTime info)) L) (sw_rtt sample_mixed)"
    by blast
  have "set L = {(65535, sample_info 65535)}"
    unfolding L(2) acked
    by (auto simp: sw_outstanding_def bm_all_def sample_mixed_def seq_ge_def seq_gt_def seq_simps sample_info_def)
  moreover from this have "length L = 1" using distinct_card [OF L(1)] by simp
  then obtain e where "L = [e]" by (cases L) auto
  ultimately have "L = [(65535, sample_info 65535)]" by simp
  then show ?thesis
    using L(3) by (simp add: rtt_updates_def sample_info_def sample_mixed_def sample_window_def sw_new_def)
qed

end
