(* ===== verification/CircularQueue.thy ===== *)
theory CircularQueue imports Prelude begin

text \<open>
  The keyed queue that holds out-of-order packets (\<open>src/circular_queue.ts\<close>). Items are objects
  in this program, so the truth test of \<open>dequeueByKey\<close> is presence. \<open>keys()\<close> sorts
  numerically; a full queue evicts the item with the smallest key.
\<close>

record 'v cqueue =
  cq_capacity :: nat
  cq_items :: "(int, 'v) js_map"
  cq_oldestKey :: "int option"

definition cq_new :: "nat \<Rightarrow> 'v cqueue" where
  "cq_new capacity = \<lparr>cq_capacity = capacity, cq_items = [], cq_oldestKey = None\<rparr>"

definition cq_size :: "'v cqueue \<Rightarrow> nat" where
  "cq_size q = length (cq_items q)"

definition cq_isEmpty :: "'v cqueue \<Rightarrow> bool" where
  "cq_isEmpty q \<longleftrightarrow> length (cq_items q) = 0"

definition cq_keys :: "'v cqueue \<Rightarrow> int list" where
  "cq_keys q = sort (jm_keys (cq_items q))"

definition cq_maxKey :: "'v cqueue \<Rightarrow> int option" where
  "cq_maxKey q = (if cq_isEmpty q then None else Some (Max (set (jm_keys (cq_items q)))))"

definition cq_minKey :: "'v cqueue \<Rightarrow> int option" where
  "cq_minKey q = (if cq_isEmpty q then None else Some (Min (set (jm_keys (cq_items q)))))"

definition cq_has :: "'v cqueue \<Rightarrow> int \<Rightarrow> bool" where
  "cq_has q k = jm_has (cq_items q) k"

definition cq_isAtCapacity :: "'v cqueue \<Rightarrow> bool" where
  "cq_isAtCapacity q \<longleftrightarrow> length (cq_items q) \<ge> cq_capacity q"

definition cq_updateOldestKey :: "'v cqueue \<Rightarrow> 'v cqueue" where
  "cq_updateOldestKey q =
     (if cq_isEmpty q then q\<lparr>cq_oldestKey := None\<rparr>
      else q\<lparr>cq_oldestKey := Some (Min (set (jm_keys (cq_items q))))\<rparr>)"

definition cq_enqueue :: "int \<Rightarrow> 'v \<Rightarrow> 'v cqueue \<Rightarrow> 'v cqueue" where
  "cq_enqueue key item q =
     (if jm_has (cq_items q) key then q\<lparr>cq_items := jm_set key item (cq_items q)\<rparr>
      else
        (let q1 = (if cq_isAtCapacity q then
                     (case cq_oldestKey q of
                        Some old \<Rightarrow> q\<lparr>cq_items := jm_del old (cq_items q)\<rparr>
                      | None \<Rightarrow> q)
                   else q)
         in cq_updateOldestKey (q1\<lparr>cq_items := jm_set key item (cq_items q1)\<rparr>)))"

definition cq_dequeueByKey :: "int \<Rightarrow> 'v cqueue \<Rightarrow> 'v option \<times> 'v cqueue" where
  "cq_dequeueByKey key q =
     (case jm_get (cq_items q) key of
        None \<Rightarrow> (None, q)
      | Some item \<Rightarrow>
          (let q1 = q\<lparr>cq_items := jm_del key (cq_items q)\<rparr>
           in (Some item, if Some key = cq_oldestKey q then cq_updateOldestKey q1 else q1)))"

definition cq_clear :: "'v cqueue \<Rightarrow> 'v cqueue" where
  "cq_clear q = q\<lparr>cq_items := [], cq_oldestKey := None\<rparr>"

subsection \<open>Invariant\<close>

definition cq_get :: "'v cqueue \<Rightarrow> int \<Rightarrow> 'v option" where
  "cq_get q k = jm_get (cq_items q) k"

definition cq_inv :: "'v cqueue \<Rightarrow> bool" where
  "cq_inv q \<longleftrightarrow> jm_wf (cq_items q) \<and> cq_oldestKey q = cq_minKey q \<and> cq_size q \<le> max 1 (cq_capacity q)"

lemma cq_keys_set: "k \<in> set (cq_keys q) \<longleftrightarrow> cq_get q k \<noteq> None"
  by (simp add: cq_keys_def cq_get_def jm_keys_dom)

lemma cq_keys_sorted: "sorted (cq_keys q)"
  by (simp add: cq_keys_def)

lemma cq_keys_distinct: "cq_inv q \<Longrightarrow> distinct (cq_keys q)"
  by (simp add: cq_inv_def cq_keys_def jm_wf_def)

lemma cq_updateOldestKey_simps [simp]:
  "cq_items (cq_updateOldestKey q) = cq_items q"
  "cq_capacity (cq_updateOldestKey q) = cq_capacity q"
  "cq_oldestKey (cq_updateOldestKey q) = cq_minKey q"
  "cq_minKey (cq_updateOldestKey q) = cq_minKey q"
  by (simp_all add: cq_updateOldestKey_def cq_minKey_def cq_isEmpty_def)

lemma cq_enqueue_capacity [simp]: "cq_capacity (cq_enqueue k v q) = cq_capacity q"
  by (simp add: cq_enqueue_def Let_def split: option.splits)

lemma cq_dequeue_capacity [simp]: "cq_capacity (snd (cq_dequeueByKey k q)) = cq_capacity q"
  by (simp add: cq_dequeueByKey_def Let_def split: option.splits)

lemma cq_new_inv [simp, inv_intros]: "cq_inv (cq_new n)"
  by (simp add: cq_inv_def cq_new_def cq_minKey_def cq_isEmpty_def cq_size_def)

lemma cq_clear_inv [simp, inv_intros]: "cq_inv (cq_clear q)"
  by (simp add: cq_inv_def cq_clear_def cq_minKey_def cq_isEmpty_def cq_size_def)

text \<open>The key a full queue gives up.\<close>

definition cq_evicted :: "int \<Rightarrow> 'v cqueue \<Rightarrow> int option" where
  "cq_evicted k q = (if cq_has q k \<or> \<not> cq_isAtCapacity q then None else cq_minKey q)"

lemma cq_minKey_in: "cq_minKey q = Some k \<Longrightarrow> k \<in> set (jm_keys (cq_items q))"
  by (auto simp: cq_minKey_def cq_isEmpty_def split: if_splits
      intro!: Min_in dest: arg_cong [of _ _ length])

lemma cq_enqueue_items:
  assumes "cq_inv q"
  shows "cq_items (cq_enqueue k v q) = jm_set k v
    (case cq_evicted k q of None \<Rightarrow> cq_items q | Some old \<Rightarrow> jm_del old (cq_items q))"
  using assms
  by (auto simp: cq_enqueue_def cq_evicted_def cq_has_def cq_inv_def Let_def split: option.splits)

lemma cq_enqueue_get:
  assumes "cq_inv q"
  shows "cq_get (cq_enqueue k v q) j =
    (if j = k then Some v else if Some j = cq_evicted k q then None else cq_get q j)"
  by (auto simp: cq_get_def cq_enqueue_items [OF assms] jm_get_set jm_get_del split: option.splits)

lemma cq_dequeue_get:
  "fst (cq_dequeueByKey k q) = cq_get q k"
  "cq_get (snd (cq_dequeueByKey k q)) j = (if j = k then None else cq_get q j)"
  by (auto simp: cq_dequeueByKey_def cq_get_def jm_get_del Let_def split: option.splits)

lemma Min_Diff_other:
  assumes "finite S" "k \<noteq> Min S" "S - {k} \<noteq> {}"
  shows "Min (S - {k}) = Min (S :: int set)"
proof (rule Min_eqI)
  have "Min S \<in> S" using assms by (intro Min_in) auto
  then show "Min S \<in> S - {k}" using assms(2) by simp
qed (use assms in auto)

lemma cq_minKey_del:
  assumes "Some k \<noteq> cq_minKey q" "jm_get (cq_items q) k = Some v"
  shows "cq_minKey (q\<lparr>cq_items := jm_del k (cq_items q)\<rparr>) = cq_minKey q"
proof -
  let ?K = "set (jm_keys (cq_items q))"
  have k: "k \<in> ?K" using assms(2) by (simp add: jm_keys_dom)
  then have ne: "cq_items q \<noteq> []" by auto
  with assms(1) have km: "k \<noteq> Min ?K" by (simp add: cq_minKey_def cq_isEmpty_def)
  have "Min ?K \<in> ?K" using k by (intro Min_in) auto
  then have d: "?K - {k} \<noteq> {}" using km by auto
  then have ne': "jm_del k (cq_items q) \<noteq> []"
    using jm_set_keys_del [of k "cq_items q"] by (metis jm_keys_Nil list.set(1))
  show ?thesis
    using ne ne' Min_Diff_other [OF _ km d] by (simp add: cq_minKey_def cq_isEmpty_def)
qed

lemma cq_dequeue_inv [inv_intros]:
  assumes "cq_inv q"
  shows "cq_inv (snd (cq_dequeueByKey k q))"
proof (cases "jm_get (cq_items q) k")
  case None
  then show ?thesis using assms by (simp add: cq_dequeueByKey_def)
next
  case (Some v)
  let ?q1 = "q\<lparr>cq_items := jm_del k (cq_items q)\<rparr>"
  have size: "cq_size ?q1 \<le> max 1 (cq_capacity q)" and wf: "jm_wf (jm_del k (cq_items q))"
    using assms jm_length_del_le [of k "cq_items q"] by (auto simp: cq_inv_def cq_size_def)
  show ?thesis
  proof (cases "Some k = cq_oldestKey q")
    case True
    then show ?thesis using size wf by (simp add: cq_dequeueByKey_def Some Let_def cq_inv_def cq_size_def)
  next
    case False
    then have "cq_minKey ?q1 = cq_minKey q"
      using assms Some by (intro cq_minKey_del) (auto simp: cq_inv_def)
    then show ?thesis
      using assms size wf False by (simp add: cq_dequeueByKey_def Some Let_def cq_inv_def cq_size_def)
  qed
qed

lemma cq_enqueue_size:
  assumes "cq_inv q"
  shows "cq_size (cq_enqueue k v q)
    = (if cq_has q k then cq_size q else if cq_evicted k q = None then cq_size q + 1 else cq_size q)"
proof -
  have wf: "jm_wf (cq_items q)" using assms by (simp add: cq_inv_def)
  have k: "cq_has q k \<longleftrightarrow> k \<in> set (jm_keys (cq_items q))"
    by (simp add: cq_has_def jm_has_def jm_keys_dom)
  show ?thesis
  proof (cases "cq_evicted k q")
    case None
    then show ?thesis by (simp add: cq_size_def cq_enqueue_items [OF assms] jm_length_set k)
  next
    case (Some old)
    then have nk: "\<not> cq_has q k" and old: "old \<in> set (jm_keys (cq_items q))"
      using cq_minKey_in by (auto simp: cq_evicted_def split: if_splits)
    then have "0 < length (cq_items q)" by (auto simp: jm_keys_def)
    then show ?thesis
      using Some nk old
      by (auto simp: cq_size_def cq_enqueue_items [OF assms] jm_length_set jm_length_del [OF wf] k)
  qed
qed

lemma cq_enqueue_minKey:
  assumes "cq_inv q"
  shows "cq_oldestKey (cq_enqueue k v q) = cq_minKey (cq_enqueue k v q)"
proof (cases "cq_has q k")
  case True
  then have "jm_keys (jm_set k v (cq_items q)) = jm_keys (cq_items q)"
    by (simp add: cq_has_def jm_has_def jm_keys_set jm_keys_dom)
  moreover from this have "length (jm_set k v (cq_items q)) = length (cq_items q)"
    by (metis jm_keys_length)
  ultimately show ?thesis
    using True assms by (simp add: cq_enqueue_def cq_has_def cq_inv_def cq_minKey_def cq_isEmpty_def)
next
  case False
  then show ?thesis by (simp add: cq_enqueue_def cq_has_def Let_def)
qed

lemma cq_enqueue_inv [inv_intros]:
  assumes "cq_inv q"
  shows "cq_inv (cq_enqueue k v q)"
proof -
  have "jm_wf (cq_items (cq_enqueue k v q))"
    using assms by (auto simp: cq_enqueue_items [OF assms] cq_inv_def split: option.splits)
  moreover have "cq_size (cq_enqueue k v q) \<le> max 1 (cq_capacity q)"
    using assms cq_enqueue_size [OF assms, of k v]
    by (auto simp: cq_inv_def cq_evicted_def cq_isAtCapacity_def cq_size_def cq_minKey_def cq_isEmpty_def
        split: if_splits)
  ultimately show ?thesis using cq_enqueue_minKey [OF assms] by (simp add: cq_inv_def)
qed

subsection \<open>The interface the receiver relies on\<close>

text \<open>
  A keyed store whose entries leave only by \<open>take_key\<close>; \<open>keys\<close> lists the present keys once, in
  ascending order.
\<close>

locale keyed_store =
  fixes lookup :: "'q \<Rightarrow> int \<Rightarrow> 'v option"
    and take_key :: "int \<Rightarrow> 'q \<Rightarrow> 'v option \<times> 'q"
    and keys :: "'q \<Rightarrow> int list"
    and wf :: "'q \<Rightarrow> bool"
  assumes take_value: "fst (take_key k q) = lookup q k"
    and take_lookup: "lookup (snd (take_key k q)) j = (if j = k then None else lookup q j)"
    and take_wf: "wf q \<Longrightarrow> wf (snd (take_key k q))"
    and keys_lookup: "k \<in> set (keys q) \<longleftrightarrow> lookup q k \<noteq> None"
    and keys_sorted: "sorted (keys q)"
    and keys_distinct: "wf q \<Longrightarrow> distinct (keys q)"
begin

lemma take_absent: "lookup q k = None \<Longrightarrow> lookup (snd (take_key k q)) = lookup q"
  by (rule ext) (auto simp: take_lookup)

lemma keys_take: "set (keys (snd (take_key k q))) = set (keys q) - {k}"
  by (auto simp: keys_lookup take_lookup split: if_splits)

lemma keys_take_list:
  assumes "wf q"
  shows "keys (snd (take_key k q)) = filter (\<lambda>j. j \<noteq> k) (keys q)"
proof (rule sorted_distinct_set_unique)
  show "sorted (keys (snd (take_key k q)))" by (rule keys_sorted)
  show "distinct (keys (snd (take_key k q)))" by (rule keys_distinct [OF take_wf [OF assms]])
  show "sorted (filter (\<lambda>j. j \<noteq> k) (keys q))"
    using sorted_filter [of "\<lambda>x. x" "keys q"] keys_sorted by simp
  show "distinct (filter (\<lambda>j. j \<noteq> k) (keys q))" using keys_distinct [OF assms] by simp
  show "set (keys (snd (take_key k q))) = set (filter (\<lambda>j. j \<noteq> k) (keys q))"
    by (auto simp: keys_take)
qed

end

interpretation cqs: keyed_store cq_get cq_dequeueByKey cq_keys cq_inv
  by unfold_locales (simp_all add: cq_dequeue_get cq_dequeue_inv cq_keys_set cq_keys_sorted cq_keys_distinct)

text \<open>
  C32. The reordering queue behaves as a bounded map: enqueueing stores the item and keeps every
  other entry, except that a full queue gives up exactly its smallest key; the recorded oldest key
  is always that smallest key and the size never exceeds the capacity; dequeueing a stored key
  returns the item last stored under it and removes nothing else.
\<close>

theorem cq_enqueue_dequeue:
  assumes "cq_inv q" and "1 \<le> cq_capacity q"
  shows "cq_inv (cq_enqueue k v q)
    \<and> (\<forall>j. cq_get (cq_enqueue k v q) j
            = (if j = k then Some v else if Some j = cq_evicted k q then None else cq_get q j))
    \<and> cq_evicted k q = (if cq_has q k \<or> cq_size q < cq_capacity q then None else cq_minKey q)
    \<and> cq_size (cq_enqueue k v q) \<le> cq_capacity q
    \<and> fst (cq_dequeueByKey k (cq_enqueue k v q)) = Some v
    \<and> (\<forall>j. cq_get (snd (cq_dequeueByKey k (cq_enqueue k v q))) j
            = (if j = k \<or> Some j = cq_evicted k q then None else cq_get q j))
    \<and> cq_inv (snd (cq_dequeueByKey k (cq_enqueue k v q)))"
proof -
  have inv: "cq_inv (cq_enqueue k v q)" by (rule cq_enqueue_inv [OF assms(1)])
  then have "cq_size (cq_enqueue k v q) \<le> cq_capacity q"
    using assms(2) by (simp add: cq_inv_def)
  moreover have "cq_evicted k q = (if cq_has q k \<or> cq_size q < cq_capacity q then None else cq_minKey q)"
    by (auto simp: cq_evicted_def cq_isAtCapacity_def cq_size_def)
  moreover have "cq_inv (snd (cq_dequeueByKey k (cq_enqueue k v q)))"
    by (rule cqs.take_wf [OF inv])
  ultimately show ?thesis
    using inv by (simp add: cqs.take_value cqs.take_lookup cq_enqueue_get [OF assms(1)])
qed

theorem cq_enqueue_dequeue_witness:
  "let q = cq_enqueue 5 ''b'' (cq_enqueue 9 ''a'' (cq_new 2)) in
   cq_get (cq_enqueue 7 ''c'' q) 5 = None \<and> cq_get (cq_enqueue 7 ''c'' q) 9 = Some ''a''
   \<and> cq_size (cq_enqueue 7 ''c'' q) \<le> 2"
proof -
  define q where "q = cq_enqueue 5 ''b'' (cq_enqueue 9 ''a'' (cq_new 2))"
  have i: "cq_inv q" unfolding q_def by (intro cq_enqueue_inv cq_new_inv)
  have e: "cq_evicted 7 q = Some 5" "cq_get q 9 = Some ''a''" "cq_capacity q = 2"
    unfolding q_def by code_simp+
  have c: "1 \<le> cq_capacity q" by (simp add: e)
  from cq_enqueue_dequeue [OF i c, of 7 "''c''"]
  have "cq_size (cq_enqueue 7 ''c'' q) \<le> cq_capacity q"
    "\<forall>j. cq_get (cq_enqueue 7 ''c'' q) j
      = (if j = 7 then Some ''c'' else if Some j = cq_evicted 7 q then None else cq_get q j)"
    by blast+
  then show ?thesis unfolding Let_def q_def [symmetric] by (simp add: e)
qed

end
