(* ===== verification/BlockingBuffer.thy ===== *)
theory BlockingBuffer imports Prelude "HOL-Library.Sublist" begin

text \<open>
  The receive buffer (\<open>src/blocking_buffer.ts\<close>): a byte queue whose \<open>read\<close> waits when it is
  empty. The \<open>Buffer\<close> of the standard library is its unread bytes: \<open>write\<close> appends, \<open>read\<close>
  moves up to the reader's length from the front and answers \<open>null\<close> when there is nothing.
  A waiting read is its caller and the length of its array; an output \<open>(r, Some bs)\<close> resolves
  the read of \<open>r\<close> with the bytes copied for it, \<open>(r, None)\<close> resolves it with \<open>null\<close> (EOF).

  \<open>write\<close> appends before its first \<open>await\<close> and serves the waiting reads after it, one per
  \<open>await\<close>. \<open>bb_append\<close> and \<open>bb_serveOne\<close> are those atomic parts, \<open>bb_write\<close> the uninterrupted
  call, and a run is any interleaving of the parts with the other operations.
\<close>

record 'r bbuf =
  bb_totalWritten :: nat
  bb_totalRead :: nat
  bb_buffer :: "byte list"
  bb_readers :: "('r \<times> nat) list"
  bb_closed :: bool
  bb_closedForWriting :: bool
  bb_maxBytes :: nat

type_synonym 'r bb_out = "'r \<times> byte list option"

definition bb_new :: "nat \<Rightarrow> 'r bbuf" where
  "bb_new maxBytes =
     \<lparr>bb_totalWritten = 0, bb_totalRead = 0, bb_buffer = [], bb_readers = [], bb_closed = False,
      bb_closedForWriting = False, bb_maxBytes = maxBytes\<rparr>"

definition bb_defaultMaxBytes :: nat where
  "bb_defaultMaxBytes = 256 * 1024"

definition bb_length :: "'r bbuf \<Rightarrow> nat" where
  "bb_length s = length (bb_buffer s)"

definition bb_freeSpace :: "'r bbuf \<Rightarrow> int" where
  "bb_freeSpace s = max 0 (int (bb_maxBytes s) - int (length (bb_buffer s)))"

definition bb_isEmpty :: "'r bbuf \<Rightarrow> bool" where
  "bb_isEmpty s \<longleftrightarrow> bb_length s = 0"

text \<open>\<open>Buffer.read\<close> into an array of length \<open>n\<close>.\<close>

definition buffer_read :: "nat \<Rightarrow> byte list \<Rightarrow> byte list option \<times> byte list" where
  "buffer_read n buf =
     (if buf = [] then (if n = 0 then Some [] else None, []) else (Some (take n buf), drop n buf))"

definition bb_append :: "byte list \<Rightarrow> 'r bbuf \<Rightarrow> 'r bbuf" where
  "bb_append d s = s\<lparr>bb_buffer := bb_buffer s @ d, bb_totalWritten := bb_totalWritten s + length d\<rparr>"

definition bb_readInto :: "'r \<Rightarrow> nat \<Rightarrow> 'r bbuf \<Rightarrow> 'r bbuf \<times> 'r bb_out list" where
  "bb_readInto r n s =
     (let (res, rest) = buffer_read n (bb_buffer s);
          got = (case res of None \<Rightarrow> 0 | Some bs \<Rightarrow> length bs)
      in (s\<lparr>bb_buffer := rest, bb_totalRead := bb_totalRead s + got\<rparr>, [(r, res)]))"

definition bb_serveOne :: "'r bbuf \<Rightarrow> 'r bbuf \<times> 'r bb_out list" where
  "bb_serveOne s =
     (case bb_readers s of
        [] \<Rightarrow> (s, [])
      | (r, n) # rs \<Rightarrow>
          if bb_length s > 0 then bb_readInto r n (s\<lparr>bb_readers := rs\<rparr>) else (s, []))"

text \<open>Every iteration of the loop of \<open>write\<close> takes one of the waiting reads.\<close>

lemma bb_serveOne_shrinks:
  "bb_readers s \<noteq> [] \<Longrightarrow> 0 < bb_length s \<Longrightarrow> length (bb_readers (fst (bb_serveOne s))) < length (bb_readers s)"
  by (auto simp: bb_serveOne_def bb_readInto_def Let_def split: list.split prod.split)

function bb_serveLoop :: "'r bbuf \<Rightarrow> 'r bbuf \<times> 'r bb_out list" where
  "bb_serveLoop s =
     (if bb_readers s \<noteq> [] \<and> bb_length s > 0 then
        (let served = bb_serveOne s; rest = bb_serveLoop (fst served) in (fst rest, snd served @ snd rest))
      else (s, []))"
  by pat_completeness auto
termination
  by (relation "measure (\<lambda>s. length (bb_readers s))") (simp_all add: bb_serveOne_shrinks)

declare bb_serveLoop.simps [simp del]

lemma bb_serveLoop_step:
  "bb_readers s \<noteq> [] \<Longrightarrow> 0 < bb_length s \<Longrightarrow>
   bb_serveLoop s = (fst (bb_serveLoop (fst (bb_serveOne s))), snd (bb_serveOne s) @ snd (bb_serveLoop (fst (bb_serveOne s))))"
  "\<not> (bb_readers s \<noteq> [] \<and> 0 < bb_length s) \<Longrightarrow> bb_serveLoop s = (s, [])"
  using bb_serveLoop.simps [of s] by (auto simp: Let_def)

lemma bb_serveLoop_rule [case_names stop serve]:
  assumes stop: "\<And>s. \<not> (bb_readers s \<noteq> [] \<and> 0 < bb_length s) \<Longrightarrow> P s"
    and serve: "\<And>s. bb_readers s \<noteq> [] \<Longrightarrow> 0 < bb_length s \<Longrightarrow> P (fst (bb_serveOne s)) \<Longrightarrow> P s"
  shows "P s"
proof (induction "length (bb_readers s)" arbitrary: s rule: less_induct)
  case less
  show ?case
  proof (cases "bb_readers s \<noteq> [] \<and> 0 < bb_length s")
    case True
    then show ?thesis using less [OF bb_serveOne_shrinks] serve by blast
  next
    case False
    then show ?thesis by (rule stop)
  qed
qed

definition bb_write :: "byte list \<Rightarrow> 'r bbuf \<Rightarrow> 'r bbuf \<times> 'r bb_out list" where
  "bb_write d s = bb_serveLoop (bb_append d s)"

definition bb_read :: "'r \<Rightarrow> nat \<Rightarrow> 'r bbuf \<Rightarrow> js_error + 'r bbuf \<times> 'r bb_out list" where
  "bb_read r n s =
     (if bb_closed s then
        (if bb_readers s \<noteq> [] then Inl AssertionError
         else if bb_length s \<noteq> 0 then Inl AssertionError
         else Inr (s, [(r, None)]))
      else if bb_length s > 0 then Inr (bb_readInto r n s)
      else if bb_closedForWriting s then Inr (s\<lparr>bb_closed := True\<rparr>, [(r, None)])
      else Inr (s\<lparr>bb_readers := bb_readers s @ [(r, n)]\<rparr>, []))"

definition bb_drain :: "'r bbuf \<Rightarrow> 'r bbuf \<times> 'r bb_out list" where
  "bb_drain s =
     (if bb_closed s \<or> bb_closedForWriting s then (s, [])
      else
        (let s1 = s\<lparr>bb_closedForWriting := True\<rparr> in
         if bb_length s1 = 0 then
           (s1\<lparr>bb_closed := True, bb_readers := []\<rparr>, map (\<lambda>(r, _). (r, None)) (bb_readers s1))
         else (s1, [])))"

definition bb_close :: "'r bbuf \<Rightarrow> 'r bbuf \<times> 'r bb_out list" where
  "bb_close s =
     (s\<lparr>bb_closed := True, bb_buffer := [], bb_readers := []\<rparr>, map (\<lambda>(r, _). (r, None)) (bb_readers s))"

definition bb_canSafelyClose :: "'r bbuf \<Rightarrow> bool" where
  "bb_canSafelyClose s \<longleftrightarrow> bb_isEmpty s \<and> length (bb_readers s) = 0 \<and> \<not> bb_closed s"

definition bb_trySafeClose :: "'r bbuf \<Rightarrow> 'r bbuf \<times> 'r bb_out list \<times> bool" where
  "bb_trySafeClose s =
     (if bb_closed s then (s, [], False)
      else if bb_canSafelyClose s then (fst (bb_close s), snd (bb_close s), True)
      else (s, [], False))"

subsection \<open>Serving\<close>

lemma bb_serveOne_cases:
  assumes "bb_readers s \<noteq> []" "0 < bb_length s"
  obtains r n rs where "bb_readers s = (r, n) # rs"
    and "bb_serveOne s = (s\<lparr>bb_readers := rs, bb_buffer := drop n (bb_buffer s),
           bb_totalRead := bb_totalRead s + length (take n (bb_buffer s))\<rparr>, [(r, Some (take n (bb_buffer s)))])"
proof -
  obtain r n rs where r: "bb_readers s = (r, n) # rs" using assms(1) by (metis list.exhaust surj_pair)
  have "bb_buffer s \<noteq> []" using assms(2) by (simp add: bb_length_def)
  then show ?thesis
    using that [OF r] assms r by (simp add: bb_serveOne_def bb_readInto_def buffer_read_def)
qed

lemma bb_serveLoop_done: "bb_readers (fst (bb_serveLoop s)) = [] \<or> bb_length (fst (bb_serveLoop s)) = 0"
  by (induction s rule: bb_serveLoop_rule) (auto simp: bb_serveLoop_step)

lemma bb_serveLoop_fifo:
  "bb_readers s = take (length (snd (bb_serveLoop s))) (bb_readers s) @ bb_readers (fst (bb_serveLoop s))
   \<and> map fst (snd (bb_serveLoop s)) = map fst (take (length (snd (bb_serveLoop s))) (bb_readers s))"
proof (induction s rule: bb_serveLoop_rule)
  case (serve s)
  then obtain r n rs s1 x where "bb_readers s = (r, n) # rs" "bb_serveOne s = (s1, [(r, x)])" "bb_readers s1 = rs"
    by (auto elim!: bb_serveOne_cases [of s])
  then show ?case using serve by (simp add: bb_serveLoop_step)
qed (simp add: bb_serveLoop_step)

subsection \<open>The byte stream\<close>

definition out_bytes :: "'r bb_out list \<Rightarrow> byte list" where
  "out_bytes os = concat (map (\<lambda>(r, x). case x of None \<Rightarrow> [] | Some bs \<Rightarrow> bs) os)"

lemma out_bytes_simps [simp]:
  "out_bytes [] = []" "out_bytes (os @ os') = out_bytes os @ out_bytes os'"
  "out_bytes ((r, x) # os) = (case x of None \<Rightarrow> [] | Some bs \<Rightarrow> bs) @ out_bytes os"
  by (simp_all add: out_bytes_def)

lemma out_bytes_nulls [simp]: "out_bytes (map (\<lambda>(r, _). (r, None)) rs) = []"
  by (induction rs) auto

text \<open>
  Between uninterrupted calls: nobody waits for bytes that are there, nor after the end of the
  stream was announced.
\<close>

definition bb_inv :: "'r bbuf \<Rightarrow> bool" where
  "bb_inv s \<longleftrightarrow>
     (bb_closed s \<or> bb_closedForWriting s \<longrightarrow> bb_readers s = [])
     \<and> (bb_readers s \<noteq> [] \<longrightarrow> bb_buffer s = [])"

lemma buffer_read_bytes:
  "buffer_read n buf = (res, rest) \<Longrightarrow> (case res of None \<Rightarrow> [] | Some bs \<Rightarrow> bs) @ rest = buf"
  by (auto simp: buffer_read_def split: if_splits)

lemma bb_readInto_bytes:
  "out_bytes (snd (bb_readInto r n s)) @ bb_buffer (fst (bb_readInto r n s)) = bb_buffer s"
  using buffer_read_bytes [of n "bb_buffer s"] by (simp add: bb_readInto_def split_beta Let_def)

lemma bb_readInto_frame [simp]:
  "bb_readers (fst (bb_readInto r n s)) = bb_readers s" "bb_closed (fst (bb_readInto r n s)) = bb_closed s"
  "bb_closedForWriting (fst (bb_readInto r n s)) = bb_closedForWriting s"
  "bb_maxBytes (fst (bb_readInto r n s)) = bb_maxBytes s"
  by (simp_all add: bb_readInto_def split_beta Let_def)

lemma bb_serveOne_bytes: "out_bytes (snd (bb_serveOne s)) @ bb_buffer (fst (bb_serveOne s)) = bb_buffer s"
  using bb_readInto_bytes [of _ _ "s\<lparr>bb_readers := _\<rparr>"]
  by (auto simp: bb_serveOne_def split: list.splits)

lemma bb_serveOne_frame:
  "bb_closed (fst (bb_serveOne s)) = bb_closed s"
  "bb_closedForWriting (fst (bb_serveOne s)) = bb_closedForWriting s"
  "set (bb_readers (fst (bb_serveOne s))) \<subseteq> set (bb_readers s)"
  by (auto simp: bb_serveOne_def split: list.splits if_splits)

lemma bb_serveLoop_bytes: "out_bytes (snd (bb_serveLoop s)) @ bb_buffer (fst (bb_serveLoop s)) = bb_buffer s"
proof (induction s rule: bb_serveLoop_rule)
  case (serve s)
  then show ?case using bb_serveOne_bytes [of s] by (simp add: bb_serveLoop_step)
qed (simp add: bb_serveLoop_step)

lemma bb_serveLoop_frame:
  "bb_closed (fst (bb_serveLoop s)) = bb_closed s
   \<and> bb_closedForWriting (fst (bb_serveLoop s)) = bb_closedForWriting s
   \<and> set (bb_readers (fst (bb_serveLoop s))) \<subseteq> set (bb_readers s)"
proof (induction s rule: bb_serveLoop_rule)
  case (serve s)
  then show ?case using bb_serveOne_frame [of s] by (auto simp: bb_serveLoop_step)
qed (simp add: bb_serveLoop_step)

lemma bb_write_bytes:
  "out_bytes (snd (bb_write d s)) @ bb_buffer (fst (bb_write d s)) = bb_buffer s @ d"
  using bb_serveLoop_bytes [of "bb_append d s"] by (simp add: bb_write_def bb_append_def)

text \<open>The interface the connection relies on: writes and reads move bytes without reordering.\<close>

locale byte_stream =
  fixes buffered :: "'s \<Rightarrow> byte list"
    and put :: "byte list \<Rightarrow> 's \<Rightarrow> 's \<times> 'r bb_out list"
    and ok :: "'s \<Rightarrow> bool"
  assumes write_stream: "out_bytes (snd (put d s)) @ buffered (fst (put d s)) = buffered s @ d"
    and write_ok: "ok s \<Longrightarrow> ok (fst (put d s))"
begin

lemma thread_stream:
  "out_bytes (snd (thread put ds s)) @ buffered (fst (thread put ds s)) = buffered s @ concat ds"
proof (induction ds arbitrary: s)
  case Nil
  then show ?case by simp
next
  case (Cons d ds)
  have "out_bytes (snd (thread put (d # ds) s)) @ buffered (fst (thread put (d # ds) s))
      = out_bytes (snd (put d s)) @ buffered (fst (put d s)) @ concat ds"
    using Cons.IH [of "fst (put d s)"] by (simp add: thread_Cons)
  also have "\<dots> = buffered s @ d @ concat ds"
    using write_stream [of d s] by (metis append.assoc)
  finally show ?case by simp
qed

lemma thread_write_ok: "ok s \<Longrightarrow> ok (fst (thread put ds s))"
  by (rule thread_invariant) (simp_all add: write_ok)

end

lemma bb_write_inv [inv_intros]:
  assumes "bb_inv s"
  shows "bb_inv (fst (bb_write d s))"
proof -
  let ?s = "fst (bb_write d s)"
  have "bb_readers ?s = [] \<or> bb_length ?s = 0"
    using bb_serveLoop_done [of "bb_append d s"] by (simp add: bb_write_def bb_append_def)
  moreover have "bb_closed ?s = bb_closed s" "bb_closedForWriting ?s = bb_closedForWriting s"
    "set (bb_readers ?s) \<subseteq> set (bb_readers s)"
    using bb_serveLoop_frame [of "bb_append d s"]
    by (simp_all add: bb_write_def bb_append_def)
  ultimately show ?thesis using assms by (auto simp: bb_inv_def bb_length_def)
qed

lemma bb_new_inv [simp, inv_intros]: "bb_inv (bb_new n)"
  by (simp add: bb_inv_def bb_new_def)

lemma bb_read_inv [inv_intros]: "bb_inv s \<Longrightarrow> bb_read r n s = Inr (s', out) \<Longrightarrow> bb_inv s'"
  by (auto simp: bb_inv_def bb_read_def bb_readInto_def buffer_read_def bb_length_def Let_def split: if_splits)

lemma bb_drain_inv [inv_intros]: "bb_inv s \<Longrightarrow> bb_inv (fst (bb_drain s))"
  by (auto simp: bb_inv_def bb_drain_def bb_length_def Let_def)

lemma bb_close_inv [inv_intros]: "bb_inv (fst (bb_close s))"
  by (simp add: bb_inv_def bb_close_def)

interpretation bbs: byte_stream bb_buffer bb_write bb_inv
  by unfold_locales (rule bb_write_bytes bb_write_inv; assumption?)+

subsection \<open>Runs: any interleaving\<close>

datatype 'r bb_act = ActAppend "byte list" | ActServe | ActRead 'r nat | ActDrain | ActClose

text \<open>A read that throws rejects its own promise and changes nothing.\<close>

fun bb_step :: "'r bb_act \<Rightarrow> 'r bbuf \<Rightarrow> 'r bbuf \<times> 'r bb_out list" where
  "bb_step (ActAppend d) s = (bb_append d s, [])"
| "bb_step ActServe s = bb_serveOne s"
| "bb_step (ActRead r n) s = (case bb_read r n s of Inl e \<Rightarrow> (s, []) | Inr res \<Rightarrow> res)"
| "bb_step ActDrain s = bb_drain s"
| "bb_step ActClose s = bb_close s"

definition act_bytes :: "'r bb_act list \<Rightarrow> byte list" where
  "act_bytes acts = concat (map (\<lambda>a. case a of ActAppend d \<Rightarrow> d | _ \<Rightarrow> []) acts)"

lemma bb_step_bytes:
  "a \<noteq> ActClose \<Longrightarrow> out_bytes (snd (bb_step a s)) @ bb_buffer (fst (bb_step a s)) = bb_buffer s @ act_bytes [a]"
  using bb_serveOne_bytes [of s] bb_readInto_bytes [of _ _ s]
  by (cases a) (auto simp: bb_read_def bb_drain_def Let_def bb_append_def act_bytes_def)

lemma bb_thread_bytes:
  "ActClose \<notin> set acts \<Longrightarrow>
   out_bytes (snd (thread bb_step acts s)) @ bb_buffer (fst (thread bb_step acts s)) = bb_buffer s @ act_bytes acts"
proof (induction acts arbitrary: s)
  case Nil
  then show ?case by (simp add: act_bytes_def)
next
  case (Cons a acts)
  let ?s1 = "fst (bb_step a s)"
  have "out_bytes (snd (thread bb_step (a # acts) s)) @ bb_buffer (fst (thread bb_step (a # acts) s))
      = (out_bytes (snd (bb_step a s)) @ bb_buffer ?s1) @ act_bytes acts"
    using Cons by (simp add: thread_Cons)
  also have "\<dots> = bb_buffer s @ act_bytes [a] @ act_bytes acts"
    using bb_step_bytes [of a s] Cons.prems by auto
  finally show ?case by (simp add: act_bytes_def)
qed

text \<open>
  C27. The receive buffer is a stream: under every interleaving of the parts of \<open>write\<close> with
  reads and \<open>drain\<close>, the bytes handed to readers, in the order they were taken, followed by the
  unread bytes, are the bytes initially buffered followed by the bytes written. Nothing is lost,
  duplicated or reordered, and draining discards nothing.
\<close>

theorem bb_stream_any_interleaving:
  assumes "ActClose \<notin> set acts"
  shows "out_bytes (snd (thread bb_step acts s)) @ bb_buffer (fst (thread bb_step acts s))
    = bb_buffer s @ act_bytes acts"
  by (rule bb_thread_bytes [OF assms])

theorem bb_stream_any_interleaving_witness:
  "out_bytes (snd (thread bb_step [ActRead ''a'' 1, ActAppend [1, 2], ActRead ''b'' 5, ActServe] (bb_new 9)))
   @ bb_buffer (fst (thread bb_step [ActRead ''a'' 1, ActAppend [1, 2], ActRead ''b'' 5, ActServe] (bb_new 9)))
   = [1, 2]"
  using bb_stream_any_interleaving
    [of "[ActRead ''a'' 1, ActAppend [1, 2], ActRead ''b'' 5, ActServe]" "bb_new 9"]
  by (simp add: act_bytes_def bb_new_def)

lemma bb_write_served:
  "map fst (bb_readers s) = map fst (snd (bb_write d s)) @ map fst (bb_readers (fst (bb_write d s)))"
proof -
  let ?l = "bb_serveLoop (bb_append d s)"
  have r: "bb_readers (bb_append d s) = bb_readers s" by (simp add: bb_append_def)
  have "bb_readers s = take (length (snd ?l)) (bb_readers s) @ bb_readers (fst ?l)"
    and "map fst (snd ?l) = map fst (take (length (snd ?l)) (bb_readers s))"
    using bb_serveLoop_fifo [of "bb_append d s"] unfolding r by blast+
  then show ?thesis unfolding bb_write_def by (metis map_append)
qed

lemma bb_read_to_eof:
  assumes "bb_closedForWriting s" "\<not> bb_closed s" "bb_readers s = []" "0 < n"
  shows "\<exists>bs. length bs \<le> length (bb_buffer s) \<and> concat bs = bb_buffer s
    \<and> snd (thread bb_step (replicate (Suc (length bs)) (ActRead r n)) s)
        = map (\<lambda>b. (r, Some b)) bs @ [(r, None)]
    \<and> bb_closed (fst (thread bb_step (replicate (Suc (length bs)) (ActRead r n)) s))"
  using assms
proof (induction "length (bb_buffer s)" arbitrary: s rule: less_induct)
  case less
  show ?case
  proof (cases "bb_buffer s = []")
    case True
    then show ?thesis using less.prems
      by (intro exI [of _ "[]"]) (simp add: thread_Cons bb_read_def bb_length_def)
  next
    case False
    define s1 where "s1 = s\<lparr>bb_buffer := drop n (bb_buffer s),
      bb_totalRead := bb_totalRead s + length (take n (bb_buffer s))\<rparr>"
    have step: "bb_step (ActRead r n) s = (s1, [(r, Some (take n (bb_buffer s)))])"
      using False less.prems
      by (simp add: s1_def bb_read_def bb_length_def bb_readInto_def buffer_read_def)
    have "length (bb_buffer s1) < length (bb_buffer s)"
      using False less.prems(4) by (simp add: s1_def)
    moreover have "bb_closedForWriting s1" "\<not> bb_closed s1" "bb_readers s1 = []"
      using less.prems by (simp_all add: s1_def)
    ultimately obtain bs where bs: "length bs \<le> length (bb_buffer s1)" "concat bs = bb_buffer s1"
      "snd (thread bb_step (replicate (Suc (length bs)) (ActRead r n)) s1) = map (\<lambda>b. (r, Some b)) bs @ [(r, None)]"
      "bb_closed (fst (thread bb_step (replicate (Suc (length bs)) (ActRead r n)) s1))"
      using less.hyps less.prems(4) by blast
    have "length bs + 1 \<le> length (bb_buffer s)"
      using bs(1) \<open>length (bb_buffer s1) < length (bb_buffer s)\<close> by simp
    moreover have "thread bb_step (replicate (Suc (Suc (length bs))) (ActRead r n)) s
        = (fst (thread bb_step (replicate (Suc (length bs)) (ActRead r n)) s1),
           (r, Some (take n (bb_buffer s))) # snd (thread bb_step (replicate (Suc (length bs)) (ActRead r n)) s1))"
      by (subst replicate_Suc) (simp only: thread_Cons step fst_conv snd_conv append_Cons append_Nil)
    ultimately show ?thesis
      using bs(2-4) by (intro exI [of _ "take n (bb_buffer s) # bs"]) (simp add: s1_def)
  qed
qed

text \<open>What \<open>drain\<close> leaves of a buffer that is open.\<close>

lemma bb_drain_open:
  assumes "bb_inv s" "\<not> bb_closed s" "\<not> bb_closedForWriting s"
  shows "snd (bb_drain s) = map (\<lambda>(r, _). (r, None)) (bb_readers s)"
    and "bb_buffer (fst (bb_drain s)) = bb_buffer s" "bb_readers (fst (bb_drain s)) = []"
    and "bb_closedForWriting (fst (bb_drain s))" "bb_closed (fst (bb_drain s)) \<longleftrightarrow> bb_buffer s = []"
  using assms by (auto simp: bb_drain_def bb_inv_def bb_length_def Let_def)

lemma bb_drain_reads:
  fixes s :: "'r bbuf"
  assumes "bb_inv s" "\<not> bb_closed s" "\<not> bb_closedForWriting s" "0 < n"
  shows "\<exists>bs. concat bs = bb_buffer s
    \<and> snd (thread bb_step (ActDrain # replicate (Suc (length bs)) (ActRead r n)) s)
        = map (\<lambda>(r', _). (r', None)) (bb_readers s) @ map (\<lambda>b. (r, Some b)) bs @ [(r, None)]"
proof -
  note d = bb_drain_open [OF assms(1-3)]
  have "\<exists>bs. concat bs = bb_buffer s
    \<and> snd (thread bb_step (replicate (Suc (length bs)) (ActRead r n)) (fst (bb_drain s))) = map (\<lambda>b. (r, Some b)) bs @ [(r, None)]"
  proof (cases "bb_buffer s = []")
    case True
    then show ?thesis
      using d by (intro exI [of _ "[]"]) (simp add: thread_Cons bb_read_def bb_length_def)
  next
    case False
    then show ?thesis using bb_read_to_eof [of "fst (bb_drain s)" n r] d assms(4) by auto
  qed
  then show ?thesis using d(1) by (auto simp: thread_Cons)
qed

text \<open>
  C31. Blocked reads are served in arrival order, and draining loses nothing. An uninterrupted \<open>write\<close>
  keeps the invariant of the buffer and resolves a front part of the waiting reads, in order. Draining an
  open buffer answers every read that waits with \<open>null\<close>, in order; a reader that then repeats \<open>read\<close>
  with a non-empty array gets all the bytes that were buffered, and then \<open>null\<close>, after finitely many
  reads.
\<close>

theorem bb_fifo_and_eof:
  fixes s :: "'r bbuf"
  assumes "bb_inv s"
  shows "bb_inv (fst (bb_write d s)) \<and> bb_inv (fst (bb_drain s))
    \<and> map fst (bb_readers s) = map fst (snd (bb_write d s)) @ map fst (bb_readers (fst (bb_write d s)))
    \<and> (\<forall>r n. 0 < n \<and> \<not> bb_closed s \<and> \<not> bb_closedForWriting s \<longrightarrow>
         (\<exists>bs. concat bs = bb_buffer s
           \<and> snd (thread bb_step (ActDrain # replicate (Suc (length bs)) (ActRead r n)) s)
               = map (\<lambda>(r', _). (r', None)) (bb_readers s) @ map (\<lambda>b. (r, Some b)) bs @ [(r, None)]))
    \<and> (\<forall>r n. 0 < n \<and> bb_closedForWriting s \<and> \<not> bb_closed s \<longrightarrow>
         (\<exists>bs. concat bs = bb_buffer s
           \<and> snd (thread bb_step (replicate (Suc (length bs)) (ActRead r n)) s)
               = map (\<lambda>b. (r, Some b)) bs @ [(r, None)]))"
proof (intro conjI allI impI)
  show "bb_inv (fst (bb_write d s))" "bb_inv (fst (bb_drain s))"
    using assms by (simp_all add: bb_write_inv bb_drain_inv)
  show "map fst (bb_readers s) = map fst (snd (bb_write d s)) @ map fst (bb_readers (fst (bb_write d s)))"
    by (rule bb_write_served)
next
  fix r :: 'r and n :: nat assume "0 < n \<and> \<not> bb_closed s \<and> \<not> bb_closedForWriting s"
  with bb_drain_reads [OF assms, of n r] show "\<exists>bs. concat bs = bb_buffer s
      \<and> snd (thread bb_step (ActDrain # replicate (Suc (length bs)) (ActRead r n)) s)
          = map (\<lambda>(r', _). (r', None)) (bb_readers s) @ map (\<lambda>b. (r, Some b)) bs @ [(r, None)]" by blast
next
  fix r :: 'r and n :: nat assume a: "0 < n \<and> bb_closedForWriting s \<and> \<not> bb_closed s"
  then have "bb_readers s = []" using assms by (simp add: bb_inv_def)
  with a bb_read_to_eof [of s n r] show "\<exists>bs. concat bs = bb_buffer s
      \<and> snd (thread bb_step (replicate (Suc (length bs)) (ActRead r n)) s)
          = map (\<lambda>b. (r, Some b)) bs @ [(r, None)]" by blast
qed

theorem bb_fifo_and_eof_witness:
  "\<exists>bs. concat bs = [7, 8, 9]
     \<and> snd (thread bb_step (ActDrain # replicate (Suc (length bs)) (ActRead ''r'' 2)) (fst (bb_write [7, 8, 9] (bb_new 4))))
         = map (\<lambda>b. (''r'', Some b)) bs @ [(''r'', None)]"
proof -
  define s :: "string bbuf" where "s = fst (bb_write [7, 8, 9] (bb_new 4))"
  have i: "bb_inv s" unfolding s_def by (intro bb_write_inv bb_new_inv)
  have e: "\<not> bb_closedForWriting s" "\<not> bb_closed s" "bb_buffer s = [7, 8, 9]" "bb_readers s = []"
    unfolding s_def by (simp_all add: bb_write_def bb_new_def bb_append_def bb_length_def bb_serveLoop_step)
  show ?thesis unfolding s_def [symmetric] using bb_fifo_and_eof [OF i] e by auto
qed

end
