(* ===== verification/Statistic.thy ===== *)
theory Statistic imports JsFloat begin

text \<open>
  The traffic counters of a connection (\<open>src/statistic.ts\<close>). \<open>stat_tick\<close> is the body of the
  one-second interval; \<open>st_interval\<close> tells whether the interval is set (the id itself is the
  runtime's). A minimum that is still \<open>Infinity\<close> is \<open>None\<close>.
\<close>

record traffic =
  tr_total :: nat
  tr_lastSecond :: nat
  tr_accumulator :: nat
  tr_measurements :: nat
  tr_max :: nat
  tr_min :: "nat option"

record statistic =
  st_sent :: traffic
  st_recv :: traffic
  st_interval :: bool
  st_started :: bool

definition traffic_zero :: traffic where
  "traffic_zero = \<lparr>tr_total = 0, tr_lastSecond = 0, tr_accumulator = 0, tr_measurements = 0,
                   tr_max = 0, tr_min = None\<rparr>"

definition stat_new :: statistic where
  "stat_new = \<lparr>st_sent = traffic_zero, st_recv = traffic_zero, st_interval = False, st_started = False\<rparr>"

definition traffic_average :: "traffic \<Rightarrow> rat" where
  "traffic_average t =
     (if tr_measurements t > 0 then fl (of_nat (tr_accumulator t) / of_nat (tr_measurements t)) else 0)"

definition traffic_minSpeed :: "traffic \<Rightarrow> nat" where
  "traffic_minSpeed t = (case tr_min t of None \<Rightarrow> 0 | Some n \<Rightarrow> n)"

definition stat_startSpeedMeasurement :: "statistic \<Rightarrow> statistic" where
  "stat_startSpeedMeasurement s =
     (if st_started s then s else s\<lparr>st_started := True, st_interval := True\<rparr>)"

definition traffic_add :: "nat \<Rightarrow> traffic \<Rightarrow> traffic" where
  "traffic_add amount t = t\<lparr>tr_total := tr_total t + amount, tr_lastSecond := tr_lastSecond t + amount\<rparr>"

definition stat_updateSentData :: "nat \<Rightarrow> statistic \<Rightarrow> statistic" where
  "stat_updateSentData amount s0 =
     (let s = (if \<not> st_started s0 then stat_startSpeedMeasurement s0 else s0)
      in s\<lparr>st_sent := traffic_add amount (st_sent s)\<rparr>)"

definition stat_updateRecvData :: "nat \<Rightarrow> statistic \<Rightarrow> statistic" where
  "stat_updateRecvData amount s0 =
     (let s = (if \<not> st_started s0 then stat_startSpeedMeasurement s0 else s0)
      in s\<lparr>st_recv := traffic_add amount (st_recv s)\<rparr>)"

definition traffic_tick :: "traffic \<Rightarrow> traffic" where
  "traffic_tick t =
     (let speed = tr_lastSecond t;
          t1 = (if speed > 0 then
                  t\<lparr>tr_max := max (tr_max t) speed,
                    tr_min := (case tr_min t of None \<Rightarrow> Some speed | Some m \<Rightarrow> Some (min m speed)),
                    tr_accumulator := tr_accumulator t + speed,
                    tr_measurements := tr_measurements t + 1\<rparr>
                else t)
      in t1\<lparr>tr_lastSecond := 0\<rparr>)"

definition stat_tick :: "statistic \<Rightarrow> statistic" where
  "stat_tick s = s\<lparr>st_sent := traffic_tick (st_sent s), st_recv := traffic_tick (st_recv s)\<rparr>"

definition stat_release :: "statistic \<Rightarrow> statistic" where
  "stat_release s = (if st_interval s then s\<lparr>st_interval := False, st_started := False\<rparr> else s)"

definition stat_clear :: "statistic \<Rightarrow> statistic" where
  "stat_clear s = (stat_release s)\<lparr>st_sent := traffic_zero, st_recv := traffic_zero\<rparr>"

subsection \<open>What a program reads\<close>

definition stat_totalSentData :: "statistic \<Rightarrow> nat" where
  "stat_totalSentData s = tr_total (st_sent s)"

definition stat_averageSentSpeed :: "statistic \<Rightarrow> rat" where
  "stat_averageSentSpeed s = traffic_average (st_sent s)"

definition stat_maxSentSpeed :: "statistic \<Rightarrow> nat" where
  "stat_maxSentSpeed s = tr_max (st_sent s)"

definition stat_minSentSpeed :: "statistic \<Rightarrow> nat" where
  "stat_minSentSpeed s = traffic_minSpeed (st_sent s)"

definition stat_lastSentSpeed :: "statistic \<Rightarrow> nat" where
  "stat_lastSentSpeed s = tr_lastSecond (st_sent s)"

definition stat_totalRecvData :: "statistic \<Rightarrow> nat" where
  "stat_totalRecvData s = tr_total (st_recv s)"

definition stat_averageRecvSpeed :: "statistic \<Rightarrow> rat" where
  "stat_averageRecvSpeed s = traffic_average (st_recv s)"

definition stat_maxRecvSpeed :: "statistic \<Rightarrow> nat" where
  "stat_maxRecvSpeed s = tr_max (st_recv s)"

definition stat_minRecvSpeed :: "statistic \<Rightarrow> nat" where
  "stat_minRecvSpeed s = traffic_minSpeed (st_recv s)"

definition stat_lastRecvSpeed :: "statistic \<Rightarrow> nat" where
  "stat_lastRecvSpeed s = tr_lastSecond (st_recv s)"

subsection \<open>Invariant\<close>

definition traffic_inv :: "traffic \<Rightarrow> bool" where
  "traffic_inv t \<longleftrightarrow> tr_total t = tr_accumulator t + tr_lastSecond t
     \<and> (case tr_min t of
          None \<Rightarrow> tr_measurements t = 0 \<and> tr_accumulator t = 0 \<and> tr_max t = 0
        | Some m \<Rightarrow> 0 < m \<and> 0 < tr_measurements t
            \<and> m * tr_measurements t \<le> tr_accumulator t \<and> tr_accumulator t \<le> tr_max t * tr_measurements t)"

definition stat_inv :: "statistic \<Rightarrow> bool" where
  "stat_inv s \<longleftrightarrow> traffic_inv (st_sent s) \<and> traffic_inv (st_recv s) \<and> st_interval s = st_started s"

lemma traffic_zero_inv [simp]: "traffic_inv traffic_zero"
  by (simp add: traffic_inv_def traffic_zero_def)

lemma traffic_add_inv: "traffic_inv t \<Longrightarrow> traffic_inv (traffic_add n t)"
  by (simp add: traffic_inv_def traffic_add_def split: option.splits)

lemma traffic_tick_inv:
  assumes "traffic_inv t" shows "traffic_inv (traffic_tick t)"
proof (cases "tr_lastSecond t = 0")
  case True
  then show ?thesis using assms by (simp add: traffic_inv_def traffic_tick_def split: option.splits)
next
  case False
  let ?v = "tr_lastSecond t"
  show ?thesis
  proof (cases "tr_min t")
    case None
    then show ?thesis using assms False by (simp add: traffic_inv_def traffic_tick_def Let_def)
  next
    case (Some m)
    have "min m ?v * tr_measurements t \<le> m * tr_measurements t" "min m ?v \<le> ?v" by simp_all
    moreover have "tr_max t * tr_measurements t \<le> max (tr_max t) ?v * tr_measurements t" "?v \<le> max (tr_max t) ?v"
      by simp_all
    moreover have "m * tr_measurements t \<le> tr_accumulator t" "tr_accumulator t \<le> tr_max t * tr_measurements t"
      using assms Some by (simp_all add: traffic_inv_def)
    ultimately have "min m ?v * tr_measurements t + min m ?v \<le> tr_accumulator t + ?v"
      "tr_accumulator t + ?v \<le> max (tr_max t) ?v * tr_measurements t + max (tr_max t) ?v"
      by linarith+
    then show ?thesis using assms False Some by (simp add: traffic_inv_def traffic_tick_def Let_def algebra_simps)
  qed
qed

datatype stat_op = StSent nat | StRecv nat | StTick | StRelease | StClear

fun stat_do :: "stat_op \<Rightarrow> statistic \<Rightarrow> statistic" where
  "stat_do (StSent n) s = stat_updateSentData n s"
| "stat_do (StRecv n) s = stat_updateRecvData n s"
| "stat_do StTick s = stat_tick s"
| "stat_do StRelease s = stat_release s"
| "stat_do StClear s = stat_clear s"

lemma stat_do_inv [inv_intros]: "stat_inv s \<Longrightarrow> stat_inv (stat_do op s)"
  by (cases op) (simp_all add: stat_inv_def stat_updateSentData_def stat_updateRecvData_def
      stat_startSpeedMeasurement_def stat_tick_def stat_release_def stat_clear_def Let_def
      traffic_add_inv traffic_tick_inv)

lemma stat_run_inv: "stat_inv s \<Longrightarrow> stat_inv (fold stat_do ops s)"
  by (induction ops arbitrary: s) (simp_all add: stat_do_inv)

lemma stat_new_inv [inv_intros]: "stat_inv stat_new"
  by (simp add: stat_inv_def stat_new_def)

lemma traffic_average_between:
  assumes "traffic_inv t" "tr_min t = Some m" "tr_max t \<le> 2 ^ 53"
  shows "of_nat m \<le> traffic_average t" and "traffic_average t \<le> of_nat (tr_max t)"
proof -
  have n: "0 < tr_measurements t" and lo: "m * tr_measurements t \<le> tr_accumulator t"
    and hi: "tr_accumulator t \<le> tr_max t * tr_measurements t"
    using assms by (simp_all add: traffic_inv_def)
  have lo': "of_nat m \<le> (of_nat (tr_accumulator t) / of_nat (tr_measurements t) :: rat)"
    using n of_nat_mono [OF lo, where 'a = rat] by (simp add: pos_le_divide_eq)
  have hi': "(of_nat (tr_accumulator t) / of_nat (tr_measurements t) :: rat) \<le> of_nat (tr_max t)"
    using n of_nat_mono [OF hi, where 'a = rat] by (simp add: pos_divide_le_eq)
  have "(of_nat m :: rat) \<le> of_nat (tr_max t)" using lo' hi' by (rule order_trans)
  then have "int m \<le> 2 ^ 53" "int (tr_max t) \<le> 2 ^ 53" using assms(3) by (simp_all add: of_nat_le_iff)
  then have "representable (of_nat m)" "representable (of_nat (tr_max t))"
    using representable_int [of "int m"] representable_int [of "int (tr_max t)"] by simp_all
  then show "of_nat m \<le> traffic_average t" "traffic_average t \<le> of_nat (tr_max t)"
    using n lo' hi' by (simp_all add: traffic_average_def dbl.rnd_ge dbl.rnd_le)
qed

lemma traffic_average_bounds:
  assumes "traffic_inv t" "tr_max t \<le> 2 ^ 53"
  shows "of_nat (traffic_minSpeed t) \<le> traffic_average t \<and> traffic_average t \<le> of_nat (tr_max t)"
proof (cases "tr_min t")
  case None
  then show ?thesis using assms(1) by (simp add: traffic_inv_def traffic_minSpeed_def traffic_average_def)
next
  case (Some m)
  then show ?thesis using traffic_average_between [OF assms(1) Some assms(2)] by (simp add: traffic_minSpeed_def)
qed

text \<open>
  The counters are conservative: after any sequence of updates, ticks, releases and clears, the
  total of each direction is the sum of the per-second measurements plus what was counted since the
  last tick, the interval is set exactly while the measurement is started, and the rounded average
  lies between the reported minimum and maximum speeds.
\<close>

theorem stat_conservation:
  assumes "s = fold stat_do ops stat_new" and "t = st_sent s \<or> t = st_recv s" and "tr_max t \<le> 2 ^ 53"
  shows "tr_total t = tr_accumulator t + tr_lastSecond t \<and> (st_interval s \<longleftrightarrow> st_started s)
    \<and> of_nat (traffic_minSpeed t) \<le> traffic_average t \<and> traffic_average t \<le> of_nat (tr_max t)"
proof -
  have "stat_inv s" unfolding assms(1) by (rule stat_run_inv [OF stat_new_inv])
  then have inv: "traffic_inv t" "st_interval s = st_started s" using assms(2) by (auto simp: stat_inv_def)
  then show ?thesis using inv traffic_average_bounds [OF inv(1) assms(3)] by (simp add: traffic_inv_def)
qed

theorem stat_conservation_witness:
  "of_nat (traffic_minSpeed (st_sent (fold stat_do [StSent 10, StTick, StSent 4, StTick, StSent 1] stat_new)))
   \<le> traffic_average (st_sent (fold stat_do [StSent 10, StTick, StSent 4, StTick, StSent 1] stat_new))"
  using stat_conservation [of _ "[StSent 10, StTick, StSent 4, StTick, StSent 1]"
      "st_sent (fold stat_do [StSent 10, StTick, StSent 4, StTick, StSent 1] stat_new)", OF refl]
  by (simp add: stat_new_def stat_updateSentData_def stat_startSpeedMeasurement_def stat_tick_def
      traffic_tick_def traffic_add_def traffic_zero_def)

end
