(* ===== verification/Effects.thy ===== *)
theory Effects imports Prelude begin

text \<open>
  Asynchronous methods as state-changing computations: a computation changes the state of its
  object, causes events outside it (packets handed to the socket, promises settled) and returns a
  value or throws. The events of a computation that throws stay: they happened.
\<close>

type_synonym ('s, 'e, 'a) eff = "'s \<Rightarrow> 's \<times> 'e list \<times> (js_error + 'a)"

definition eff_return :: "'a \<Rightarrow> ('s, 'e, 'a) eff" where
  "eff_return x = (\<lambda>s. (s, [], Inr x))"

definition eff_throw :: "js_error \<Rightarrow> ('s, 'e, 'a) eff" where
  "eff_throw err = (\<lambda>s. (s, [], Inl err))"

definition eff_bind :: "('s, 'e, 'a) eff \<Rightarrow> ('a \<Rightarrow> ('s, 'e, 'b) eff) \<Rightarrow> ('s, 'e, 'b) eff" where
  "eff_bind m f = (\<lambda>s. case m s of
     (s1, e1, Inl err) \<Rightarrow> (s1, e1, Inl err)
   | (s1, e1, Inr x) \<Rightarrow> (case f x s1 of (s2, e2, r) \<Rightarrow> (s2, e1 @ e2, r)))"

definition eff_then :: "('s, 'e, 'a) eff \<Rightarrow> ('s, 'e, 'b) eff \<Rightarrow> ('s, 'e, 'b) eff" where
  "eff_then m n = eff_bind m (\<lambda>_. n)"

text \<open>\<open>try\<close> with a handler.\<close>

definition eff_try :: "('s, 'e, 'a) eff \<Rightarrow> (js_error \<Rightarrow> ('s, 'e, 'a) eff) \<Rightarrow> ('s, 'e, 'a) eff" where
  "eff_try m h = (\<lambda>s. case m s of
     (s1, e1, Inl err) \<Rightarrow> (case h err s1 of (s2, e2, r) \<Rightarrow> (s2, e1 @ e2, r))
   | (s1, e1, Inr x) \<Rightarrow> (s1, e1, Inr x))"

definition eff_get :: "('s, 'e, 's) eff" where
  "eff_get = (\<lambda>s. (s, [], Inr s))"

definition eff_modify :: "('s \<Rightarrow> 's) \<Rightarrow> ('s, 'e, unit) eff" where
  "eff_modify f = (\<lambda>s. (f s, [], Inr ()))"

definition eff_emit :: "'e list \<Rightarrow> ('s, 'e, unit) eff" where
  "eff_emit es = (\<lambda>s. (s, es, Inr ()))"

text \<open>An update of the state that also causes events.\<close>

definition eff_update :: "('s \<Rightarrow> 's \<times> 'e list) \<Rightarrow> ('s, 'e, unit) eff" where
  "eff_update f = (\<lambda>s. (fst (f s), snd (f s), Inr ()))"

definition eff_when :: "bool \<Rightarrow> ('s, 'e, unit) eff \<Rightarrow> ('s, 'e, unit) eff" where
  "eff_when b m = (if b then m else eff_return ())"

definition eff_read :: "('s \<Rightarrow> 'a) \<Rightarrow> ('a \<Rightarrow> ('s, 'e, 'b) eff) \<Rightarrow> ('s, 'e, 'b) eff" where
  "eff_read f k = (\<lambda>s. k (f s) s)"

fun eff_forEach :: "('a \<Rightarrow> ('s, 'e, unit) eff) \<Rightarrow> 'a list \<Rightarrow> ('s, 'e, unit) eff" where
  "eff_forEach f [] = eff_return ()"
| "eff_forEach f (x # xs) = eff_then (f x) (eff_forEach f xs)"

lemmas eff_defs = eff_return_def eff_throw_def eff_then_def eff_bind_def eff_try_def eff_get_def
  eff_modify_def eff_emit_def eff_update_def eff_when_def eff_read_def

text \<open>Reading the three parts of a result.\<close>

definition final :: "'s \<times> 'e list \<times> (js_error + 'a) \<Rightarrow> 's" where "final x = fst x"
definition events :: "'s \<times> 'e list \<times> (js_error + 'a) \<Rightarrow> 'e list" where "events x = fst (snd x)"
definition result :: "'s \<times> 'e list \<times> (js_error + 'a) \<Rightarrow> js_error + 'a" where "result x = snd (snd x)"

lemma parts [simp]:
  "final (s, es, r) = s" "events (s, es, r) = es" "result (s, es, r) = r"
  by (simp_all add: final_def events_def result_def)

lemma parts_collapse: "x = (final x, events x, result x)"
  by (cases x) simp

lemma parts_simple [simp]:
  "final (eff_return x s) = s" "events (eff_return x s) = []" "result (eff_return x s) = Inr x"
  "final (eff_throw e s) = s" "events (eff_throw e s) = []" "result (eff_throw e s) = Inl e"
  "final (eff_modify f s) = f s" "events (eff_modify f s) = []" "result (eff_modify f s) = Inr ()"
  "final (eff_emit es s) = s" "events (eff_emit es s) = es" "result (eff_emit es s) = Inr ()"
  "final (eff_update g s) = fst (g s)" "events (eff_update g s) = snd (g s)" "result (eff_update g s) = Inr ()"
  by (simp_all add: eff_defs)

lemma eff_read_apply [simp]: "eff_read f k s = k (f s) s"
  by (simp add: eff_read_def)

lemma eff_when_apply [simp]: "eff_when b m s = (if b then m s else eff_return () s)"
  by (simp add: eff_when_def)

lemma bind_parts:
  "final (eff_bind m f s) = (case result (m s) of Inl e \<Rightarrow> final (m s) | Inr x \<Rightarrow> final (f x (final (m s))))"
  "events (eff_bind m f s) = events (m s) @ (case result (m s) of Inl e \<Rightarrow> [] | Inr x \<Rightarrow> events (f x (final (m s))))"
  "result (eff_bind m f s) = (case result (m s) of Inl e \<Rightarrow> Inl e | Inr x \<Rightarrow> result (f x (final (m s))))"
  by (cases "m s" rule: prod_cases3; simp add: eff_bind_def split: sum.splits prod.splits)+

lemma then_parts:
  "final (eff_then m n s) = (case result (m s) of Inl e \<Rightarrow> final (m s) | Inr x \<Rightarrow> final (n (final (m s))))"
  "events (eff_then m n s) = events (m s) @ (case result (m s) of Inl e \<Rightarrow> [] | Inr x \<Rightarrow> events (n (final (m s))))"
  "result (eff_then m n s) = (case result (m s) of Inl e \<Rightarrow> Inl e | Inr x \<Rightarrow> result (n (final (m s))))"
  by (simp_all add: eff_then_def bind_parts)

lemma try_parts:
  "final (eff_try m h s) = (case result (m s) of Inl e \<Rightarrow> final (h e (final (m s))) | Inr x \<Rightarrow> final (m s))"
  "events (eff_try m h s) = events (m s) @ (case result (m s) of Inl e \<Rightarrow> events (h e (final (m s))) | Inr x \<Rightarrow> [])"
  "result (eff_try m h s) = (case result (m s) of Inl e \<Rightarrow> result (h e (final (m s))) | Inr x \<Rightarrow> Inr x)"
  by (cases "m s" rule: prod_cases3; simp add: eff_try_def split: sum.splits prod.splits)+

lemmas eff_parts = bind_parts then_parts try_parts

text \<open>The monad laws, at a state.\<close>

lemma bind_laws:
  "eff_bind (eff_return x) f s = f x s"
  "eff_bind (eff_bind m f) g s = eff_bind m (\<lambda>x. eff_bind (f x) g) s"
  "eff_bind (eff_then m n) g s = eff_then m (eff_bind n g) s"
  "eff_bind (eff_read h k) g s = eff_bind (k (h s)) g s"
  by (auto simp: eff_defs split: prod.splits sum.splits)

subsection \<open>Histories\<close>

text \<open>
  A relation between the state before, the events caused and the state after that holds when nothing
  happens and composes. \<open>obeys_at H m s\<close>: the run of \<open>m\<close> from \<open>s\<close> satisfies it; a method satisfies it
  when its parts do.
\<close>

definition obeys_at :: "('s \<Rightarrow> 'e list \<Rightarrow> 's \<Rightarrow> bool) \<Rightarrow> ('s, 'e, 'a) eff \<Rightarrow> 's \<Rightarrow> bool" where
  "obeys_at H m s \<longleftrightarrow> H s (events (m s)) (final (m s))"

definition obeys :: "('s \<Rightarrow> 'e list \<Rightarrow> 's \<Rightarrow> bool) \<Rightarrow> ('s, 'e, 'a) eff \<Rightarrow> bool" where
  "obeys H m \<longleftrightarrow> (\<forall>s. obeys_at H m s)"

lemma obeysI: "(\<And>s. obeys_at H m s) \<Longrightarrow> obeys H m"
  by (simp add: obeys_def)

lemma obeysD: "obeys H m \<Longrightarrow> H s (events (m s)) (final (m s))"
  by (simp add: obeys_def obeys_at_def)

locale history =
  fixes H :: "'s \<Rightarrow> 'e list \<Rightarrow> 's \<Rightarrow> bool"
  assumes hist_refl: "H s [] s"
    and hist_trans: "H s es t \<Longrightarrow> H t fs u \<Longrightarrow> H s (es @ fs) u"
begin

lemma at_simple: "obeys_at H (eff_return x) s" "obeys_at H (eff_throw e) s" "obeys_at H eff_get s"
  by (simp_all add: obeys_at_def hist_refl eff_defs)

lemma at_steps:
  "H s [] (f s) \<Longrightarrow> obeys_at H (eff_modify f) s"
  "H s (snd (g s)) (fst (g s)) \<Longrightarrow> obeys_at H (eff_update g) s"
  "H s es s \<Longrightarrow> obeys_at H (eff_emit es) s"
  by (simp_all add: obeys_at_def)

lemma at_bind:
  "obeys_at H m s \<Longrightarrow> (\<And>x. result (m s) = Inr x \<Longrightarrow> obeys_at H (f x) (final (m s))) \<Longrightarrow> obeys_at H (eff_bind m f) s"
  by (auto simp: obeys_at_def bind_parts split: sum.splits intro: hist_trans)

lemma at_then:
  "obeys_at H m s \<Longrightarrow> (\<And>x. result (m s) = Inr x \<Longrightarrow> obeys_at H n (final (m s))) \<Longrightarrow> obeys_at H (eff_then m n) s"
  unfolding eff_then_def by (rule at_bind)

lemma at_try:
  "obeys_at H m s \<Longrightarrow> (\<And>e. result (m s) = Inl e \<Longrightarrow> obeys_at H (h e) (final (m s))) \<Longrightarrow> obeys_at H (eff_try m h) s"
  by (auto simp: obeys_at_def try_parts split: sum.splits intro: hist_trans)

lemma at_control:
  "(b \<Longrightarrow> obeys_at H m s) \<Longrightarrow> obeys_at H (eff_when b m) s"
  "obeys_at H (k (f s)) s \<Longrightarrow> obeys_at H (eff_read f k) s"
  by (simp_all add: eff_when_def at_simple) (simp add: obeys_at_def)

lemma obeys_simple: "obeys H (eff_return x)" "obeys H (eff_throw e)" "obeys H eff_get"
  by (simp_all add: obeys_def at_simple)

lemma obeys_steps:
  "(\<And>s. H s [] (f s)) \<Longrightarrow> obeys H (eff_modify f)"
  "(\<And>s. H s (snd (g s)) (fst (g s))) \<Longrightarrow> obeys H (eff_update g)"
  "(\<And>s. H s es s) \<Longrightarrow> obeys H (eff_emit es)"
  by (simp_all add: obeys_def at_steps)

lemma obeys_bind: "obeys H m \<Longrightarrow> (\<And>x. obeys H (f x)) \<Longrightarrow> obeys H (eff_bind m f)"
  by (simp add: obeys_def at_bind)

lemma obeys_then: "obeys H m \<Longrightarrow> obeys H n \<Longrightarrow> obeys H (eff_then m n)"
  by (simp add: obeys_def at_then)

lemma obeys_try: "obeys H m \<Longrightarrow> (\<And>e. obeys H (h e)) \<Longrightarrow> obeys H (eff_try m h)"
  by (simp add: obeys_def at_try)

lemma obeys_when: "obeys H m \<Longrightarrow> obeys H (eff_when b m)"
  by (simp add: obeys_def at_control)

lemma obeys_read: "(\<And>x. obeys H (k x)) \<Longrightarrow> obeys H (eff_read f k)"
  by (simp add: obeys_def at_control)

lemma obeys_if: "(b \<Longrightarrow> obeys H m) \<Longrightarrow> (\<not> b \<Longrightarrow> obeys H n) \<Longrightarrow> obeys H (if b then m else n)"
  by simp

lemma obeys_forEach: "(\<And>x. obeys H (f x)) \<Longrightarrow> obeys H (eff_forEach f xs)"
  by (induction xs) (simp_all add: obeys_simple obeys_then)

lemma forEach_elem: "(\<And>x s. x \<in> set xs \<Longrightarrow> obeys_at H (f x) s) \<Longrightarrow> obeys H (eff_forEach f xs)"
  by (induction xs) (simp_all add: obeys_simple obeys_then obeysI)

lemmas obeys_intros = obeys_simple obeys_bind obeys_then obeys_try obeys_when obeys_read obeys_forEach
lemmas at_intros = at_simple at_bind at_then at_try at_control

end

text \<open>A preorder on states is a history that does not look at the events.\<close>

locale preorder_rel =
  fixes R :: "'s \<Rightarrow> 's \<Rightarrow> bool"
  assumes rel_refl: "R s s"
    and rel_trans: "R s t \<Longrightarrow> R t u \<Longrightarrow> R s u"

sublocale preorder_rel \<subseteq> history "\<lambda>s es t. R s t"
  by unfold_locales (rule rel_refl, rule rel_trans)

text \<open>A view of the state that does not change is equality of the view.\<close>

definition same :: "('s \<Rightarrow> 'v) \<Rightarrow> 's \<Rightarrow> 's \<Rightarrow> bool" where
  "same view s t \<longleftrightarrow> view t = view s"

interpretation same_view: preorder_rel "same view" for view :: "'s \<Rightarrow> 'v"
  by unfold_locales (simp_all add: same_def)

text \<open>Every event satisfies a test.\<close>

interpretation emits: history "\<lambda>s es t. list_all Q es" for Q :: "'e \<Rightarrow> bool"
  by unfold_locales simp_all

end
