(* ===== verification/Conn.thy ===== *)
theory Conn imports SendWindow CircularQueue BlockingBuffer Statistic Effects begin

text \<open>
  One connection (\<open>src/utp_conn.ts\<close>) and the packets it builds (\<open>src/utp_packet.ts\<close>,
  \<open>createSynPacket\<close> to \<open>createResetPacket\<close>). A method is a computation on the record \<open>conn\<close>; what it
  causes outside is an event: a packet given to \<open>utp.sendUtpPacket\<close>, the connection entering or
  leaving the socket's table, a promise that settles, a promise nobody awaits that rejects
  (\<open>EvUnhandled\<close>).

  The environment gives the two clocks (one reading of each per method call), the clock readings of
  \<open>handleAck\<close>, and \<open>env_send\<close>: what \<open>utp.sendUtpPacket\<close> answers for a packet, a byte count or an error.
  A method runs uninterrupted up to its end; the one await that really waits, for room in the send
  window, ends the call with the result \<open>None\<close>, and the packet goes out when an acknowledgement
  admits it (\<open>EvResume\<close> then \<open>EvSend\<close>).
\<close>

datatype conn_state =
  CS_SYN_SENT | CS_SYN_RECV | CS_CONNECTED | CS_RESET | CS_CLOSE_WAIT | CS_CLOSED

datatype conn_ev =
    EvSend packet utp_addr
  | EvResume int
  | EvAddConn string
  | EvRemoveConn string
  | EvSettle nat conn_state
  | EvConnectTimeout nat
  | EvRead nat "byte list option"
  | EvUnhandled js_error

record env =
  env_now :: int
  env_perf :: rat
  env_clk :: "int \<Rightarrow> int"
  env_send :: "packet \<Rightarrow> js_error + nat"

record conn =
  cn_recvId :: int
  cn_sendId :: int
  cn_seqNr :: int
  cn_ackNr :: int
  cn_state :: conn_state
  cn_remoteFin :: "packet option"
  cn_localFin :: "packet option"
  cn_localSyn :: "packet option"
  cn_isInitiator :: bool
  cn_remoteAddr :: utp_addr
  cn_lastPacketTs :: "int option"
  cn_lastLiveTime :: rat
  cn_listeners :: "nat list"
  cn_recvQueue :: "packet cqueue"
  cn_recvBuffer :: "nat bbuf"
  cn_sendWindow :: send_window
  cn_statistic :: statistic
  cn_closeStartTime :: "rat option"

type_synonym 'a conn_eff = "(conn, conn_ev, 'a) eff"

definition CONNECT_TIMEOUT_DURATION :: int where "CONNECT_TIMEOUT_DURATION = 5000"
definition CLOSE_TIMEOUT_DURATION :: rat where "CLOSE_TIMEOUT_DURATION = 10000"
definition KEEP_ALIVE_INTERVAL :: rat where "KEEP_ALIVE_INTERVAL = 29000"
definition MAX_RECV_QUEUE_SIZE :: nat where "MAX_RECV_QUEUE_SIZE = 8192"
definition MIN_RECV_QUEUE_SIZE :: nat where "MIN_RECV_QUEUE_SIZE = 4096"
definition DEFAULT_CHUNK_SIZE :: int where "DEFAULT_CHUNK_SIZE = 64 * 1024"

definition currentMicroseconds :: "env \<Rightarrow> int" where
  "currentMicroseconds env = env_now env * 1000"

definition conn_uniqueId :: "conn \<Rightarrow> string" where
  "conn_uniqueId s = generateUniqueId (cn_remoteAddr s) (cn_sendId s) (cn_recvId s)"

definition conn_new :: "env \<Rightarrow> conn_state \<Rightarrow> utp_addr \<Rightarrow> int \<Rightarrow> int \<Rightarrow> int \<Rightarrow> int \<Rightarrow> conn \<times> conn_ev list" where
  "conn_new env initState remoteAddr sendId recvId seqNr ackNr =
     (let c = \<lparr>cn_recvId = recvId, cn_sendId = sendId, cn_seqNr = seqNr, cn_ackNr = ackNr,
        cn_state = initState, cn_remoteFin = None, cn_localFin = None, cn_localSyn = None,
        cn_isInitiator = (initState = CS_SYN_SENT), cn_remoteAddr = remoteAddr, cn_lastPacketTs = None,
        cn_lastLiveTime = env_perf env, cn_listeners = [],
        cn_recvQueue = cq_new (if initState = CS_SYN_SENT then MAX_RECV_QUEUE_SIZE else MIN_RECV_QUEUE_SIZE),
        cn_recvBuffer = bb_new bb_defaultMaxBytes, cn_sendWindow = sw_new, cn_statistic = stat_new,
        cn_closeStartTime = None\<rparr>
      in (c, [EvAddConn (conn_uniqueId c)]))"

subsection \<open>Fields with setters\<close>

definition set_localSeqNr :: "int \<Rightarrow> conn \<Rightarrow> conn" where
  "set_localSeqNr n s = s\<lparr>cn_seqNr := js_and n 65535\<rparr>"

definition set_localAckNr :: "int \<Rightarrow> conn \<Rightarrow> conn" where
  "set_localAckNr n s = s\<lparr>cn_ackNr := js_and n 65535\<rparr>"

text \<open>
  \<open>onStateChange\<close>, the one kind of listener there is, removes itself and settles its promise when
  the state is one of three. The loop of \<open>forEach\<close> runs over the indices the array had at its start
  and skips those it no longer has; a listener that removes itself shifts the later ones.
\<close>

definition settles :: "conn_state \<Rightarrow> bool" where
  "settles st \<longleftrightarrow> st = CS_CONNECTED \<or> st = CS_RESET \<or> st = CS_CLOSED"

fun notifyLoop :: "conn_state \<Rightarrow> nat \<Rightarrow> nat \<Rightarrow> nat list \<Rightarrow> nat list \<times> conn_ev list" where
  "notifyLoop st i 0 ls = (ls, [])"
| "notifyLoop st i (Suc n) ls =
     (if i < length ls \<and> settles st then
        (let (ls', evs) = notifyLoop st (Suc i) n (remove1 (ls ! i) ls) in (ls', EvSettle (ls ! i) st # evs))
      else notifyLoop st (Suc i) n ls)"

definition notifyStateChange :: "conn \<Rightarrow> conn \<times> conn_ev list" where
  "notifyStateChange s =
     (let (ls, evs) = notifyLoop (cn_state s) 0 (length (cn_listeners s)) (cn_listeners s)
      in (s\<lparr>cn_listeners := ls\<rparr>, evs))"

definition set_localState :: "conn_state \<Rightarrow> conn \<Rightarrow> conn \<times> conn_ev list" where
  "set_localState st s = (if cn_state s = st then (s, []) else notifyStateChange (s\<lparr>cn_state := st\<rparr>))"

definition conn_addListener :: "nat \<Rightarrow> conn \<Rightarrow> conn" where
  "conn_addListener l s = s\<lparr>cn_listeners := cn_listeners s @ [l]\<rparr>"

definition conn_removeListener :: "nat \<Rightarrow> conn \<Rightarrow> conn" where
  "conn_removeListener l s = s\<lparr>cn_listeners := remove1 l (cn_listeners s)\<rparr>"

definition conn_isConnected :: "conn \<Rightarrow> bool" where
  "conn_isConnected s \<longleftrightarrow> cn_state s = CS_CONNECTED"

definition conn_isClosed :: "conn \<Rightarrow> bool" where
  "conn_isClosed s \<longleftrightarrow> cn_state s = CS_CLOSED"

definition conn_getIncomingBufferLeftBytes :: "conn \<Rightarrow> int" where
  "conn_getIncomingBufferLeftBytes s = bb_freeSpace (cn_recvBuffer s)"

subsection \<open>Packets the connection builds\<close>

text \<open>The fields of a fresh packet, then what every constructor but that of SYN sets alike.\<close>

definition packet_blank :: packet where
  "packet_blank = \<lparr>pk_type = ST_SYN, pk_version = 1, pk_extension = 0, pk_connId = 0, pk_timestamp = - 1,
     pk_tsDiff = Some 0, pk_windowSize = 0, pk_seqNr = 0, pk_ackNr = 0, pk_extensions = [], pk_data = None\<rparr>"

definition timestampDifference :: "env \<Rightarrow> conn \<Rightarrow> int option" where
  "timestampDifference env s =
     (case cn_lastPacketTs s of None \<Rightarrow> None | Some t \<Rightarrow> Some (currentMicroseconds env - t))"

definition createSynPacket :: "env \<Rightarrow> conn \<Rightarrow> packet" where
  "createSynPacket env s = packet_blank\<lparr>pk_type := ST_SYN, pk_connId := cn_recvId s, pk_seqNr := cn_seqNr s,
     pk_ackNr := 0, pk_timestamp := currentMicroseconds env, pk_windowSize := 0, pk_extension := 2,
     pk_extensions := [extBits_create]\<rparr>"

definition createAckPacket :: "env \<Rightarrow> sack option \<Rightarrow> conn \<Rightarrow> packet" where
  "createAckPacket env sack s = packet_blank\<lparr>pk_type := ST_STATE,
     pk_extension := (case sack of None \<Rightarrow> 0 | Some k \<Rightarrow> 1), pk_connId := cn_sendId s,
     pk_seqNr := cn_seqNr s, pk_ackNr := cn_ackNr s, pk_timestamp := currentMicroseconds env,
     pk_tsDiff := timestampDifference env s, pk_windowSize := conn_getIncomingBufferLeftBytes s,
     pk_extensions := (case sack of None \<Rightarrow> [] | Some k \<Rightarrow> [SackExt k])\<rparr>"

definition createDataPacket :: "env \<Rightarrow> byte list \<Rightarrow> conn \<Rightarrow> packet \<times> conn" where
  "createDataPacket env data s =
     (packet_blank\<lparr>pk_type := ST_DATA, pk_timestamp := currentMicroseconds env,
        pk_tsDiff := timestampDifference env s, pk_seqNr := cn_seqNr s, pk_connId := cn_sendId s,
        pk_ackNr := cn_ackNr s, pk_windowSize := conn_getIncomingBufferLeftBytes s, pk_data := Some data\<rparr>,
      set_localSeqNr (cn_seqNr s + 1) s)"

definition createFinPacket :: "env \<Rightarrow> conn \<Rightarrow> packet \<times> conn" where
  "createFinPacket env s =
     (packet_blank\<lparr>pk_type := ST_FIN, pk_connId := cn_sendId s, pk_seqNr := cn_seqNr s, pk_ackNr := cn_ackNr s,
        pk_timestamp := currentMicroseconds env, pk_tsDiff := timestampDifference env s,
        pk_windowSize := conn_getIncomingBufferLeftBytes s\<rparr>,
      set_localSeqNr (cn_seqNr s + 1) s)"

definition createResetPacket :: "env \<Rightarrow> conn \<Rightarrow> packet" where
  "createResetPacket env s = packet_blank\<lparr>pk_type := ST_RESET, pk_connId := cn_sendId s, pk_seqNr := cn_seqNr s,
     pk_ackNr := cn_ackNr s, pk_timestamp := currentMicroseconds env, pk_tsDiff := timestampDifference env s,
     pk_windowSize := 0, pk_extension := 0\<rparr>"

definition sack_createFromConn :: "conn \<Rightarrow> sack option" where
  "sack_createFromConn s = sack_create (cn_ackNr s) (cq_keys (cn_recvQueue s))"

subsection \<open>Sending\<close>

text \<open>\<open>utp.sendUtpPacket\<close>: the call is made, then it answers.\<close>

definition utp_send :: "env \<Rightarrow> packet \<Rightarrow> utp_addr \<Rightarrow> nat conn_eff" where
  "utp_send env p addr =
     eff_then (eff_emit [EvSend p addr])
       (case env_send env p of Inl e \<Rightarrow> eff_throw e | Inr n \<Rightarrow> eff_return n)"

text \<open>The blocked \<open>sendUtpPacket\<close> calls that go on, each giving its packet to the socket.\<close>

definition resumed :: "conn \<Rightarrow> (int \<times> pkt_info) list \<Rightarrow> conn_ev list" where
  "resumed s rel = concat (map (\<lambda>(k, info). [EvResume k, EvSend (pi_packet info) (cn_remoteAddr s)]) rel)"

definition conn_waitForAck :: "env \<Rightarrow> packet \<Rightarrow> bool conn_eff" where
  "conn_waitForAck env p =
     eff_read (\<lambda>s. sw_waitForAck (env_now env) p (cn_remoteAddr s) (cn_sendWindow s)) (\<lambda>(sw, admitted, rel).
     eff_then (eff_update (\<lambda>s. (s\<lparr>cn_sendWindow := sw\<rparr>, resumed s rel)))
       (eff_return admitted))"

text \<open>The result is \<open>Some\<close> byte count, or \<open>None\<close> while the packet waits for room in the window.\<close>

definition conn_sendUtpPacket :: "env \<Rightarrow> packet \<Rightarrow> nat option conn_eff" where
  "conn_sendUtpPacket env p =
     eff_then (eff_modify (\<lambda>s. s\<lparr>cn_lastLiveTime := env_perf env\<rparr>))
     (eff_read (\<lambda>s. s) (\<lambda>s.
      if conn_isClosed s then eff_throw ConnClosedError
      else if cn_state s = CS_CONNECTED \<and> pk_type p \<in> {ST_DATA, ST_FIN} then
        eff_bind (conn_waitForAck env p) (\<lambda>admitted.
          if admitted then eff_bind (utp_send env p (cn_remoteAddr s)) (\<lambda>n. eff_return (Some n))
          else eff_return None)
      else eff_bind (utp_send env p (cn_remoteAddr s)) (\<lambda>n. eff_return (Some n))))"

definition conn_handleAck :: "env \<Rightarrow> packet \<Rightarrow> unit conn_eff" where
  "conn_handleAck env p =
     eff_update (\<lambda>s. let (sw, rel) = sw_handleAck (env_clk env) p (cn_sendWindow s)
                     in (s\<lparr>cn_sendWindow := sw\<rparr>, resumed s rel))"

definition conn_sendAck :: "env \<Rightarrow> nat option conn_eff" where
  "conn_sendAck env =
     eff_read (\<lambda>s. createAckPacket env (sack_createFromConn s) s) (\<lambda>ackPacket. conn_sendUtpPacket env ackPacket)"

subsection \<open>Closing\<close>

text \<open>The reads a buffer operation resolves.\<close>

definition read_events :: "nat bb_out list \<Rightarrow> conn_ev list" where
  "read_events outs = map (\<lambda>(r, x). EvRead r x) outs"

definition conn_drain :: "unit conn_eff" where
  "conn_drain = eff_update (\<lambda>s. let (b, outs) = bb_drain (cn_recvBuffer s)
                                in (s\<lparr>cn_recvBuffer := b\<rparr>, read_events outs))"

definition conn_removeSelf :: "unit conn_eff" where
  "conn_removeSelf = eff_update (\<lambda>s. (s, [EvRemoveConn (conn_uniqueId s)]))"

definition conn_statRelease :: "unit conn_eff" where
  "conn_statRelease = eff_modify (\<lambda>s. s\<lparr>cn_statistic := stat_release (cn_statistic s)\<rparr>)"

definition conn_forceClose :: "unit conn_eff" where
  "conn_forceClose =
     eff_then conn_drain
     (eff_then conn_removeSelf
     (eff_then conn_statRelease
     (eff_update (set_localState CS_CLOSED))))"

definition conn_sendFin :: "env \<Rightarrow> nat option conn_eff" where
  "conn_sendFin env =
     eff_read (createFinPacket env) (\<lambda>(fin, s1).
     eff_then (eff_modify (\<lambda>_. s1\<lparr>cn_localFin := Some fin\<rparr>)) (conn_sendUtpPacket env fin))"

definition closeElapsed :: "env \<Rightarrow> conn \<Rightarrow> rat" where
  "closeElapsed env s =
     (let closeStartTime = (case cn_closeStartTime s of None \<Rightarrow> env_perf env
                            | Some t \<Rightarrow> if t = 0 then env_perf env else t)
      in fl (env_perf env - closeStartTime))"

definition conn_trySafeRelease :: "env \<Rightarrow> unit conn_eff" where
  "conn_trySafeRelease env =
     eff_read (\<lambda>s. s) (\<lambda>s.
     if cn_state s \<noteq> CS_CLOSE_WAIT then eff_throw NotInCloseWait
     else if closeElapsed env s > CLOSE_TIMEOUT_DURATION then conn_forceClose
     else if cn_remoteFin s \<noteq> None \<and> sw_isEmpty (cn_sendWindow s) then conn_forceClose
     else if sw_isNotEmpty (cn_sendWindow s) then eff_return ()
     else if cn_remoteFin s = None \<and> cn_localFin s = None then
       eff_bind (conn_sendFin env) (\<lambda>_. eff_return ())
     else
       eff_then conn_removeSelf (eff_then conn_statRelease (eff_update (set_localState CS_CLOSED))))"

subsection \<open>Receiving\<close>

definition conn_recvWrite :: "byte list \<Rightarrow> unit conn_eff" where
  "conn_recvWrite data =
     eff_then (eff_update (\<lambda>s. let (b, outs) = bb_write data (cn_recvBuffer s)
                               in (s\<lparr>cn_recvBuffer := b\<rparr>, read_events outs)))
       (eff_modify (\<lambda>s. s\<lparr>cn_statistic := stat_updateRecvData (length data) (cn_statistic s)\<rparr>))"

definition processOne :: "int \<Rightarrow> unit conn_eff" where
  "processOne seq =
     eff_read (\<lambda>s. s) (\<lambda>s.
     if seq_add (cn_ackNr s) 1 \<noteq> seq then eff_return ()
     else
       eff_then (eff_modify (set_localAckNr seq))
       (eff_read (\<lambda>s. cq_dequeueByKey seq (cn_recvQueue s)) (\<lambda>(packet, q).
        eff_then (eff_modify (\<lambda>s. s\<lparr>cn_recvQueue := q\<rparr>))
        (case packet of
           None \<Rightarrow> eff_return ()
         | Some p \<Rightarrow>
             (case pk_data p of
                None \<Rightarrow> eff_return ()
              | Some d \<Rightarrow> eff_when (pk_type p = ST_DATA) (conn_recvWrite d))))))"

definition processReceivedPackets :: "unit conn_eff" where
  "processReceivedPackets = eff_read (\<lambda>s. cq_keys (cn_recvQueue s)) (\<lambda>keys. eff_forEach processOne keys)"

definition handleAtSynSent :: "packet \<Rightarrow> bool conn_eff" where
  "handleAtSynSent p =
     (if pk_type p \<noteq> ST_STATE then eff_return False
      else
        eff_then (eff_modify (set_localAckNr (seq_add (pk_seqNr p) (- 1))))
        (eff_then (eff_update (set_localState CS_CONNECTED)) (eff_return True)))"

definition handleAtSynReceived :: "env \<Rightarrow> packet \<Rightarrow> bool conn_eff" where
  "handleAtSynReceived env p =
     (if pk_type p \<noteq> ST_DATA then eff_return False
      else
        eff_read cn_seqNr (\<lambda>localSeqNr.
        if pk_ackNr p \<noteq> seq_add localSeqNr (- 1) then eff_return False
        else
          eff_then (eff_modify (set_localAckNr (pk_seqNr p)))
          (eff_then (eff_update (set_localState CS_CONNECTED))
          (eff_then (case pk_data p of None \<Rightarrow> eff_return () | Some d \<Rightarrow> conn_recvWrite d)
          (eff_then (conn_sendAck env) (eff_return True))))))"

text \<open>The branch of a FIN packet: the half close, our own FIN, the end of the receive stream.\<close>

definition handleFin :: "env \<Rightarrow> packet \<Rightarrow> unit conn_eff" where
  "handleFin env p =
     eff_then (eff_modify (\<lambda>s. s\<lparr>cn_remoteFin := Some p\<rparr>))
     (eff_then (eff_update (set_localState CS_CLOSE_WAIT))
     (eff_then
        (eff_read (\<lambda>s. cn_localFin s = None \<and> \<not> conn_isClosed s) (\<lambda>b.
         eff_when b (eff_try (eff_bind (conn_sendFin env) (\<lambda>_. eff_return ())) (\<lambda>_. eff_return ()))))
     (eff_then conn_drain (conn_trySafeRelease env))))"

definition handleAtConnected :: "env \<Rightarrow> packet \<Rightarrow> bool conn_eff" where
  "handleAtConnected env p =
     eff_read (\<lambda>s. s) (\<lambda>s.
     if conn_isClosed s then eff_return False
     else if pk_type p \<noteq> ST_FIN \<and> pk_type p \<noteq> ST_DATA then eff_return False
     else if pk_seqNr p = cn_ackNr s then eff_return False
     else if (case cn_remoteFin s of None \<Rightarrow> False | Some fin \<Rightarrow> seq_gt (pk_seqNr p) (pk_seqNr fin))
       then eff_return False
     else
       eff_then (eff_when (cq_size (cn_recvQueue s) \<ge> cq_capacity (cn_recvQueue s)) processReceivedPackets)
       (eff_then (eff_modify (\<lambda>s. s\<lparr>cn_recvQueue := cq_enqueue (pk_seqNr p) p (cn_recvQueue s)\<rparr>))
       (eff_then processReceivedPackets
       (eff_then (eff_when (pk_type p = ST_FIN) (handleFin env p))
       (eff_read conn_isClosed (\<lambda>closed.
        if closed then eff_return True
        else eff_then (eff_try (conn_sendAck env) (\<lambda>_. eff_return None)) (eff_return True)))))))"

definition handleIncomingPacket :: "env \<Rightarrow> packet \<Rightarrow> bool conn_eff" where
  "handleIncomingPacket env p =
     eff_then (eff_when (pk_type p = ST_STATE) (conn_handleAck env p))
     (eff_bind
        (eff_read cn_state (\<lambda>st. case st of
           CS_SYN_SENT \<Rightarrow> handleAtSynSent p
         | CS_SYN_RECV \<Rightarrow> handleAtSynReceived env p
         | CS_CONNECTED \<Rightarrow> handleAtConnected env p
         | CS_CLOSE_WAIT \<Rightarrow>
             (if pk_type p = ST_STATE then eff_then (conn_handleAck env p) (eff_return True)
              else eff_return False)
         | CS_CLOSED \<Rightarrow> eff_return False
         | CS_RESET \<Rightarrow> eff_return False))
        (\<lambda>handled.
           eff_then (eff_when handled (eff_modify (\<lambda>s. s\<lparr>cn_lastPacketTs := Some (currentMicroseconds env)\<rparr>)))
             (eff_return handled)))"

subsection \<open>Connecting, reading, writing\<close>

text \<open>
  \<open>waitForConnecting\<close> up to the promise it returns: \<open>pid\<close> names the promise, settled by an
  \<open>EvSettle\<close> or by the timer \<open>conn_connectTimeout\<close>, which is cleared when the promise settles. The
  method awaits the sending of its packet before it makes the promise, so it has two parts:
  \<open>conn_connectSend\<close> up to that await, whose result tells whether there is something to wait for, and
  \<open>conn_awaitConnected\<close> after it. Other methods can run between the two; \<open>waitForConnecting\<close> is the
  method when nothing does.
\<close>

definition conn_connectSend :: "env \<Rightarrow> bool conn_eff" where
  "conn_connectSend env =
     eff_read (\<lambda>s. s) (\<lambda>s.
     if cn_state s = CS_CONNECTED then eff_return False
     else if cn_isInitiator s then
       (let packet = createSynPacket env s in
        eff_then (eff_modify (\<lambda>s. set_localSeqNr (cn_seqNr s + 1) (s\<lparr>cn_localSyn := Some packet\<rparr>)))
        (eff_then (conn_sendUtpPacket env packet) (eff_return True)))
     else
       eff_then (conn_sendUtpPacket env (createAckPacket env None s)) (eff_return True))"

definition conn_awaitConnected :: "nat \<Rightarrow> unit conn_eff" where
  "conn_awaitConnected pid = eff_modify (conn_addListener pid)"

definition waitForConnecting :: "env \<Rightarrow> nat \<Rightarrow> unit conn_eff" where
  "waitForConnecting env pid =
     eff_bind (conn_connectSend env) (\<lambda>pending.
       if pending then conn_awaitConnected pid else eff_emit [EvSettle pid CS_CONNECTED])"

definition conn_connectTimeout :: "nat \<Rightarrow> unit conn_eff" where
  "conn_connectTimeout pid =
     eff_update (\<lambda>s. if pid \<in> set (cn_listeners s) then (conn_removeListener pid s, [EvConnectTimeout pid]) else (s, []))"

text \<open>The one-second interval of the statistics, which runs while it is set.\<close>

definition conn_statTick :: "unit conn_eff" where
  "conn_statTick = eff_modify (\<lambda>s. if st_interval (cn_statistic s) then s\<lparr>cn_statistic := stat_tick (cn_statistic s)\<rparr> else s)"

definition conn_read :: "nat \<Rightarrow> nat \<Rightarrow> unit conn_eff" where
  "conn_read r n =
     eff_read (\<lambda>s. bb_read r n (cn_recvBuffer s)) (\<lambda>res. case res of
       Inl e \<Rightarrow> eff_throw e
     | Inr (b, outs) \<Rightarrow> eff_update (\<lambda>s. (s\<lparr>cn_recvBuffer := b\<rparr>, read_events outs)))"

text \<open>What a program reads of a connection's speeds, and the size of its packets.\<close>

definition conn_maxWriteSpeed :: "conn \<Rightarrow> nat" where "conn_maxWriteSpeed s = stat_maxSentSpeed (cn_statistic s)"
definition conn_minWriteSpeed :: "conn \<Rightarrow> nat" where "conn_minWriteSpeed s = stat_minSentSpeed (cn_statistic s)"
definition conn_averageWriteSpeed :: "conn \<Rightarrow> rat" where "conn_averageWriteSpeed s = stat_averageSentSpeed (cn_statistic s)"
definition conn_maxReadSpeed :: "conn \<Rightarrow> nat" where "conn_maxReadSpeed s = stat_maxRecvSpeed (cn_statistic s)"
definition conn_minReadSpeed :: "conn \<Rightarrow> nat" where "conn_minReadSpeed s = stat_minRecvSpeed (cn_statistic s)"
definition conn_averageReadSpeed :: "conn \<Rightarrow> rat" where "conn_averageReadSpeed s = stat_averageRecvSpeed (cn_statistic s)"

definition conn_getMaxPacketSize :: int where
  "conn_getMaxPacketSize = DEFAULT_MTU"

definition chunkSize :: int where
  "chunkSize = min DEFAULT_CHUNK_SIZE (DEFAULT_MTU - int HEADER_SIZE)"

lemma chunkSize_eq: "chunkSize = 1380"
  by (simp add: chunkSize_def DEFAULT_CHUNK_SIZE_def DEFAULT_MTU_def HEADER_SIZE_def)

text \<open>
  The loop of \<open>write\<close> from some offset on. The result is what is left to do: \<open>None\<close> when all was
  sent, \<open>Some (p, rest)\<close> when the packet \<open>p\<close> of the current chunk waits for room, \<open>rest\<close> being the
  data after it. Once \<open>p\<close> was admitted and sent, and the socket answered \<open>n\<close>, the loop goes on with
  \<open>conn_resumeWrite\<close>.
\<close>

function conn_write :: "env \<Rightarrow> byte list \<Rightarrow> (packet \<times> byte list) option conn_eff" where
  "conn_write env data =
     (if data = [] then eff_return None
      else
        (let chunk = take (nat chunkSize) data in
         eff_read (createDataPacket env chunk) (\<lambda>(dataPacket, s1).
         eff_then (eff_modify (\<lambda>_. s1))
         (eff_bind (conn_sendUtpPacket env dataPacket) (\<lambda>n. case n of
            None \<Rightarrow> eff_return (Some (dataPacket, drop (length chunk) data))
          | Some n \<Rightarrow>
              if n \<noteq> packet_length dataPacket then eff_throw AssertionError
              else
                eff_then (eff_modify (\<lambda>s. s\<lparr>cn_statistic := stat_updateSentData (length chunk) (cn_statistic s)\<rparr>))
                  (conn_write env (drop (length chunk) data)))))))"
  by pat_completeness auto
termination
  by (relation "measure (\<lambda>(env, data). length data)") (auto simp: chunkSize_eq)

declare conn_write.simps [simp del]

definition conn_resumeWrite :: "env \<Rightarrow> packet \<Rightarrow> byte list \<Rightarrow> nat \<Rightarrow> (packet \<times> byte list) option conn_eff" where
  "conn_resumeWrite env dataPacket rest n =
     (if n \<noteq> packet_length dataPacket then eff_throw AssertionError
      else
        eff_then (eff_modify (\<lambda>s. s\<lparr>cn_statistic := stat_updateSentData
                    (case pk_data dataPacket of None \<Rightarrow> 0 | Some d \<Rightarrow> length d) (cn_statistic s)\<rparr>))
          (conn_write env rest))"

subsection \<open>Timers, close and reset\<close>

text \<open>
  The retransmission round of the send window with its sends. A send that fails ends the round.
\<close>

definition conn_resendOne :: "env \<Rightarrow> int \<Rightarrow> unit conn_eff" where
  "conn_resendOne env seqNr =
     eff_read (\<lambda>s. sw_resendOne (env_now env) seqNr (cn_sendWindow s)) (\<lambda>(sw, outs).
     eff_then (eff_modify (\<lambda>s. s\<lparr>cn_sendWindow := sw\<rparr>))
       (eff_forEach (\<lambda>out. case out of
            SwSend p addr \<Rightarrow> eff_bind (utp_send env p addr) (\<lambda>_. eff_return ())
          | SwAdmit k info \<Rightarrow> eff_update (\<lambda>s. (s, resumed s [(k, info)]))) outs))"

definition conn_windowTimeoutCheck :: "env \<Rightarrow> unit conn_eff" where
  "conn_windowTimeoutCheck env =
     eff_read (\<lambda>s. sw_getAllSeqNrs (cn_sendWindow s)) (\<lambda>seqNrs. eff_forEach (conn_resendOne env) seqNrs)"

definition conn_keepAlive :: "env \<Rightarrow> unit conn_eff" where
  "conn_keepAlive env =
     eff_read (\<lambda>s. fl (env_perf env - cn_lastLiveTime s) > KEEP_ALIVE_INTERVAL) (\<lambda>due.
     eff_when due
       (eff_then (conn_sendAck env) (eff_modify (\<lambda>s. s\<lparr>cn_lastLiveTime := env_perf env\<rparr>))))"

definition conn_timeoutCheck :: "env \<Rightarrow> unit conn_eff" where
  "conn_timeoutCheck env =
     eff_read (\<lambda>s. s) (\<lambda>s. case cn_state s of
       CS_SYN_SENT \<Rightarrow>
         (case cn_localSyn s of
            None \<Rightarrow> eff_return ()
          | Some syn \<Rightarrow>
              eff_when (currentMicroseconds env - pk_timestamp syn > CONNECT_TIMEOUT_DURATION * 1000) conn_forceClose)
     | CS_SYN_RECV \<Rightarrow> eff_then (conn_keepAlive env) (conn_windowTimeoutCheck env)
     | CS_CONNECTED \<Rightarrow> eff_then (conn_keepAlive env) (conn_windowTimeoutCheck env)
     | CS_CLOSE_WAIT \<Rightarrow> eff_then (conn_windowTimeoutCheck env) (conn_trySafeRelease env)
     | _ \<Rightarrow> eff_return ())"

text \<open>\<open>close\<close> answers whether its promise is left to the polling interval, \<open>closePoll\<close> whether it is resolved.\<close>

definition conn_close :: "env \<Rightarrow> bool conn_eff" where
  "conn_close env =
     eff_read (\<lambda>s. s) (\<lambda>s.
     if conn_isClosed s then eff_return False
     else if cn_state s = CS_CLOSE_WAIT then eff_return False
     else if cn_state s = CS_RESET then eff_return False
     else
       eff_then (eff_modify (\<lambda>s. s\<lparr>cn_closeStartTime := Some (env_perf env)\<rparr>))
       (eff_then (eff_update (set_localState CS_CLOSE_WAIT))
       (eff_then (eff_read (\<lambda>s. cn_localFin s = None) (\<lambda>b.
            eff_when b (eff_bind (conn_sendFin env) (\<lambda>_. eff_return ()))))
       (eff_return True))))"

definition conn_closePoll :: "env \<Rightarrow> bool conn_eff" where
  "conn_closePoll env =
     eff_read (\<lambda>s. s) (\<lambda>s.
     if conn_isClosed s then eff_return True
     else if (case cn_closeStartTime s of None \<Rightarrow> False | Some t \<Rightarrow> fl (env_perf env - t) > CLOSE_TIMEOUT_DURATION)
       then eff_then (eff_try conn_forceClose (\<lambda>_. conn_forceClose)) (eff_return True)
     else
       eff_try (eff_then (conn_trySafeRelease env) (eff_read conn_isClosed (\<lambda>closed. eff_return closed)))
         (\<lambda>_. eff_then conn_forceClose (eff_return True)))"

definition conn_reset :: "env \<Rightarrow> unit conn_eff" where
  "conn_reset env =
     eff_then conn_removeSelf
     (eff_then conn_statRelease
     (eff_then (eff_update (set_localState CS_RESET))
     (eff_then (eff_modify (\<lambda>s. s\<lparr>cn_recvQueue := cq_clear (cn_recvQueue s), cn_remoteFin := None\<rparr>))
     (eff_then (eff_update (\<lambda>s. let (sw, rel) = sw_reset (cn_sendWindow s)
                               in (s\<lparr>cn_sendWindow := sw\<rparr>, resumed s rel)))
     (eff_read (createResetPacket env) (\<lambda>rst.
      eff_try (eff_bind (conn_sendUtpPacket env rst) (\<lambda>_. eff_return ())) (\<lambda>e. eff_emit [EvUnhandled e])))))))"

subsection \<open>What sending does\<close>

lemma utp_send_parts:
  "final (utp_send env p a s) = s" "events (utp_send env p a s) = [EvSend p a]" "result (utp_send env p a s) = env_send env p"
  by (simp_all add: utp_send_def eff_parts split: sum.splits)

lemma sendUtp_direct_aux:
  assumes "cn_state s \<noteq> CS_CLOSED" "cn_state s \<noteq> CS_CONNECTED \<or> pk_type p \<noteq> ST_DATA \<and> pk_type p \<noteq> ST_FIN"
  shows "conn_sendUtpPacket env p s
    = eff_then (eff_modify (\<lambda>s. s\<lparr>cn_lastLiveTime := env_perf env\<rparr>))
        (eff_bind (utp_send env p (cn_remoteAddr s)) (\<lambda>n. eff_return (Some n))) s"
  using assms unfolding conn_sendUtpPacket_def conn_isClosed_def
  by (auto simp: eff_then_def eff_bind_def eff_modify_def)

lemma sendUtp_direct:
  assumes "cn_state s \<noteq> CS_CLOSED" "cn_state s \<noteq> CS_CONNECTED \<or> pk_type p \<noteq> ST_DATA \<and> pk_type p \<noteq> ST_FIN"
  shows "final (conn_sendUtpPacket env p s) = s\<lparr>cn_lastLiveTime := env_perf env\<rparr>"
    and "events (conn_sendUtpPacket env p s) = [EvSend p (cn_remoteAddr s)]"
    and "result (conn_sendUtpPacket env p s) = (case env_send env p of Inl e \<Rightarrow> Inl e | Inr n \<Rightarrow> Inr (Some n))"
  unfolding sendUtp_direct_aux [OF assms] by (simp_all add: eff_parts utp_send_parts split: sum.splits)

lemma ack_type: "pk_type (createAckPacket env k s) = ST_STATE"
  by (simp add: createAckPacket_def packet_blank_def)

lemma sendAck_parts:
  assumes "cn_state s \<noteq> CS_CLOSED"
  shows "final (conn_sendAck env s) = s\<lparr>cn_lastLiveTime := env_perf env\<rparr>"
    and "events (conn_sendAck env s) = [EvSend (createAckPacket env (sack_createFromConn s) s) (cn_remoteAddr s)]"
  using sendUtp_direct [OF assms, of "createAckPacket env (sack_createFromConn s) s" env]
  by (simp_all add: conn_sendAck_def ack_type packet_types)

end
