(* ===== verification/ConnReceive.thy ===== *)
theory ConnReceive imports Conn begin

text \<open>
  The receive path of a connection: which queued packets \<open>processReceivedPackets\<close> delivers, and that
  over any arrival order the application gets the peer's byte stream in order.
\<close>

subsection \<open>Bytes given to the application\<close>

definition read_bytes :: "conn_ev list \<Rightarrow> byte list" where
  "read_bytes evs = concat (map (\<lambda>e. case e of EvRead r (Some bs) \<Rightarrow> bs | _ \<Rightarrow> []) evs)"

lemma read_bytes_simps [simp]:
  "read_bytes [] = []" "read_bytes (xs @ ys) = read_bytes xs @ read_bytes ys"
  "read_bytes (EvSend p a # es) = read_bytes es"
  by (simp_all add: read_bytes_def)

lemma read_bytes_read_events [simp]: "read_bytes (read_events outs) = out_bytes outs"
  by (induction outs) (auto simp: read_bytes_def read_events_def out_bytes_def split: option.splits)

definition payload :: "packet \<Rightarrow> byte list" where
  "payload p = (case pk_data p of None \<Rightarrow> [] | Some d \<Rightarrow> if pk_type p = ST_DATA then d else [])"

text \<open>The fields the receive path does not touch.\<close>

definition rx_rest where
  "rx_rest s = (cn_state s, cn_remoteFin s, cn_localFin s, cn_localSyn s, cn_seqNr s, cn_sendId s, cn_recvId s,
     cn_sendWindow s, cn_listeners s, cn_remoteAddr s, cn_isInitiator s, cn_closeStartTime s)"

subsection \<open>One queued packet\<close>

lemma set_localAckNr_eq: "u16 n \<Longrightarrow> set_localAckNr n s = s\<lparr>cn_ackNr := n\<rparr>"
  by (simp add: set_localAckNr_def js_and_mask16)

lemma recvWrite_parts:
  "result (conn_recvWrite d s) = Inr ()"
  "final (conn_recvWrite d s) = s\<lparr>cn_recvBuffer := fst (bb_write d (cn_recvBuffer s)),
     cn_statistic := stat_updateRecvData (length d) (cn_statistic s)\<rparr>"
  "events (conn_recvWrite d s) = read_events (snd (bb_write d (cn_recvBuffer s)))"
  by (simp_all add: conn_recvWrite_def eff_parts split_beta)

lemma processOne_skip:
  "seq_add (cn_ackNr s) 1 \<noteq> k \<Longrightarrow> processOne k s = (s, [], Inr ())"
  by (simp add: processOne_def eff_return_def)

lemma processOne_take:
  assumes "seq_add (cn_ackNr s) 1 = k" "cq_get (cn_recvQueue s) k = Some p"
  shows "result (processOne k s) = Inr ()"
    and "cn_ackNr (final (processOne k s)) = k"
    and "cn_recvQueue (final (processOne k s)) = snd (cq_dequeueByKey k (cn_recvQueue s))"
    and "read_bytes (events (processOne k s)) @ bb_buffer (cn_recvBuffer (final (processOne k s)))
         = bb_buffer (cn_recvBuffer s) @ payload p"
    and "rx_rest (final (processOne k s)) = rx_rest s"
proof -
  have k: "u16 k" using assms(1) seq_add_u16 by blast
  obtain q where d: "cq_dequeueByKey k (cn_recvQueue s) = (Some p, q)"
    using assms(2) cq_dequeue_get(1) [of k "cn_recvQueue s"] by (cases "cq_dequeueByKey k (cn_recvQueue s)") simp
  let ?s1 = "s\<lparr>cn_ackNr := k, cn_recvQueue := q\<rparr>"
  let ?m = "case pk_data p of None \<Rightarrow> eff_return () | Some d \<Rightarrow> eff_when (pk_type p = ST_DATA) (conn_recvWrite d)"
  have r: "result (processOne k s) = result (?m ?s1)" "final (processOne k s) = final (?m ?s1)"
    "events (processOne k s) = events (?m ?s1)"
    using assms(1) by (simp_all add: processOne_def eff_parts set_localAckNr_eq [OF k] d)
  have m: "result (?m t) = Inr () \<and> cn_ackNr (final (?m t)) = cn_ackNr t \<and> cn_recvQueue (final (?m t)) = cn_recvQueue t
      \<and> rx_rest (final (?m t)) = rx_rest t
      \<and> read_bytes (events (?m t)) @ bb_buffer (cn_recvBuffer (final (?m t))) = bb_buffer (cn_recvBuffer t) @ payload p" for t
    by (simp add: payload_def recvWrite_parts bb_write_bytes rx_rest_def split: option.splits)
  show "result (processOne k s) = Inr ()" "cn_ackNr (final (processOne k s)) = k"
    "cn_recvQueue (final (processOne k s)) = snd (cq_dequeueByKey k (cn_recvQueue s))"
    "read_bytes (events (processOne k s)) @ bb_buffer (cn_recvBuffer (final (processOne k s)))
      = bb_buffer (cn_recvBuffer s) @ payload p"
    using m [of ?s1] by (simp_all add: r d)
  show "rx_rest (final (processOne k s)) = rx_rest s"
    using m [of ?s1] by (simp add: r rx_rest_def)
qed

subsection \<open>The run of consecutive numbers a round delivers\<close>

fun run_from :: "int \<Rightarrow> int list \<Rightarrow> int list" where
  "run_from a [] = []"
| "run_from a (k # ks) = (if seq_add a 1 = k then k # run_from k ks else run_from a ks)"

lemma run_from_subset: "set (run_from a ks) \<subseteq> set ks"
  by (induction a ks rule: run_from.induct) auto

lemma run_from_length: "length (run_from a ks) \<le> length ks"
  by (induction a ks rule: run_from.induct) auto

lemma run_from_consecutive:
  "run_from a ks = map (\<lambda>i. seq_add a (int i + 1)) [0..<length (run_from a ks)]"
proof (induction a ks rule: run_from.induct)
  case (1 a)
  then show ?case by simp
next
  case (2 a k ks)
  show ?case
  proof (cases "seq_add a 1 = k")
    case True
    let ?n = "length (run_from k ks)"
    have "map (\<lambda>i. seq_add k (int i + 1)) [0..<?n] = map (\<lambda>i. seq_add a (int (Suc i) + 1)) [0..<?n]"
      using True [symmetric] by (simp add: seq_add_add algebra_simps)
    then have "run_from k ks = map (\<lambda>i. seq_add a (int i + 1)) (map Suc [0..<?n])"
      using 2(1) [OF True] by (simp add: o_def)
    moreover have "[0..<Suc ?n] = 0 # map Suc [0..<?n]" by (simp add: map_Suc_upt upt_conv_Cons del: upt_Suc)
    ultimately show ?thesis using True by (simp del: upt_Suc)
  next
    case False
    then show ?thesis using 2(2) by simp
  qed
qed

lemma seq_succ: "u16 b \<Longrightarrow> b \<noteq> 65535 \<Longrightarrow> seq_add b 1 = b + 1"
  by (simp add: seq_simps u16_def)

lemma run_from_stop:
  "sorted_wrt (<) ks \<Longrightarrow> \<forall>k \<in> set ks. u16 k \<Longrightarrow> u16 a \<Longrightarrow>
   seq_add (last (a # run_from a ks)) 1 \<in> set ks \<Longrightarrow> last (a # run_from a ks) = 65535 \<and> run_from a ks \<noteq> []"
proof (induction a ks rule: run_from.induct)
  case (1 a)
  then show ?case by simp
next
  case (2 a k ks)
  show ?case
  proof (cases "seq_add a 1 = k")
    case True
    let ?b = "last (k # run_from k ks)"
    have "?b \<in> set (k # ks)" using run_from_subset [of k ks] by (cases "run_from k ks") (auto dest: last_in_set)
    then have b: "k \<le> ?b" "u16 ?b" using 2(3,4) by auto
    have e: "seq_add ?b 1 = k \<or> seq_add ?b 1 \<in> set ks" using 2(6) True by (auto split: if_splits)
    have "?b = 65535"
    proof (rule ccontr)
      assume ne: "?b \<noteq> 65535"
      then have "seq_add ?b 1 \<noteq> k" using b seq_succ [of ?b] by simp
      then show False using 2(1) [OF True] 2(3,4) e ne by simp
    qed
    then show ?thesis using True by auto
  next
    case False
    let ?b = "last (a # run_from a ks)"
    have "seq_add ?b 1 = k \<or> seq_add ?b 1 \<in> set ks" using 2(6) False by (auto split: if_splits)
    then consider "seq_add ?b 1 = k" | "seq_add ?b 1 \<in> set ks" by blast
    then show ?thesis
    proof cases
      case 1
      then have ne: "run_from a ks \<noteq> []" using False by auto
      then have "?b \<in> set ks" using run_from_subset [of a ks] by (auto dest: last_in_set)
      then have "k < ?b" "u16 ?b" using 2(3,4) by auto
      then have "?b = 65535" using 1 seq_succ [of ?b] by force
      then show ?thesis using False ne by simp
    next
      case 2
      then show ?thesis using "2.IH"(2) [OF False] "2.prems" False by auto
    qed
  qed
qed

subsection \<open>One round of \<open>processReceivedPackets\<close>\<close>

lemma forEach_process:
  assumes "\<forall>k \<in> set ks. cq_get (cn_recvQueue s) k \<noteq> None" "distinct ks"
  defines "R \<equiv> run_from (cn_ackNr s) ks" and "x \<equiv> eff_forEach processOne ks s"
  shows "result x = Inr ()
    \<and> cn_ackNr (final x) = last (cn_ackNr s # R)
    \<and> (\<forall>k. cq_get (cn_recvQueue (final x)) k = (if k \<in> set R then None else cq_get (cn_recvQueue s) k))
    \<and> read_bytes (events x) @ bb_buffer (cn_recvBuffer (final x))
       = bb_buffer (cn_recvBuffer s) @ concat (map (\<lambda>k. payload (the (cq_get (cn_recvQueue s) k))) R)
    \<and> rx_rest (final x) = rx_rest s
    \<and> (cq_inv (cn_recvQueue s) \<longrightarrow> cq_inv (cn_recvQueue (final x)))
    \<and> cq_capacity (cn_recvQueue (final x)) = cq_capacity (cn_recvQueue s)"
  using assms(1,2) unfolding R_def x_def
proof (induction ks arbitrary: s)
  case Nil
  then show ?case by simp
next
  case (Cons k ks)
  show ?case
  proof (cases "seq_add (cn_ackNr s) 1 = k")
    case False
    then show ?thesis using Cons.IH [of s] Cons.prems by (simp add: eff_parts processOne_skip)
  next
    case True
    obtain p where p: "cq_get (cn_recvQueue s) k = Some p" using Cons.prems(1) by auto
    let ?s1 = "final (processOne k s)"
    note take = processOne_take [OF True p]
    have get: "cq_get (cn_recvQueue ?s1) j = (if j = k then None else cq_get (cn_recvQueue s) j)" for j
      by (simp add: take(3) cq_dequeue_get(2))
    have "\<forall>j \<in> set ks. cq_get (cn_recvQueue ?s1) j \<noteq> None" using Cons.prems by (auto simp: get)
    note IH = Cons.IH [OF this, unfolded take(2)]
    have k: "k \<notin> set (run_from k ks)" using run_from_subset [of k ks] Cons.prems(2) by auto
    have R: "run_from (cn_ackNr s) (k # ks) = k # run_from k ks" using True by simp
    have pay: "map (\<lambda>j. payload (the (cq_get (cn_recvQueue ?s1) j))) (run_from k ks)
        = map (\<lambda>j. payload (the (cq_get (cn_recvQueue s) j))) (run_from k ks)"
      using k by (auto simp: get)
    have x: "result (eff_forEach processOne (k # ks) s) = result (eff_forEach processOne ks ?s1)"
      "final (eff_forEach processOne (k # ks) s) = final (eff_forEach processOne ks ?s1)"
      "events (eff_forEach processOne (k # ks) s) = events (processOne k s) @ events (eff_forEach processOne ks ?s1)"
      by (simp_all add: eff_parts take(1))
    have "read_bytes (events (eff_forEach processOne (k # ks) s))
          @ bb_buffer (cn_recvBuffer (final (eff_forEach processOne (k # ks) s)))
        = read_bytes (events (processOne k s)) @ bb_buffer (cn_recvBuffer ?s1)
          @ concat (map (\<lambda>j. payload (the (cq_get (cn_recvQueue s) j))) (run_from k ks))"
      using IH Cons.prems(2) by (simp add: x pay del: eff_forEach.simps)
    also have "\<dots> = bb_buffer (cn_recvBuffer s) @ payload p
          @ concat (map (\<lambda>j. payload (the (cq_get (cn_recvQueue s) j))) (run_from k ks))"
      using take(4) by (metis append.assoc)
    finally have bytes: "read_bytes (events (eff_forEach processOne (k # ks) s))
          @ bb_buffer (cn_recvBuffer (final (eff_forEach processOne (k # ks) s)))
        = bb_buffer (cn_recvBuffer s)
          @ concat (map (\<lambda>j. payload (the (cq_get (cn_recvQueue s) j))) (run_from (cn_ackNr s) (k # ks)))"
      using p by (simp add: R del: eff_forEach.simps run_from.simps)
    have inv: "cq_inv (cn_recvQueue s) \<longrightarrow> cq_inv (cn_recvQueue ?s1)"
      by (simp add: take(3) cq_dequeue_inv)
    have cap: "cq_capacity (cn_recvQueue ?s1) = cq_capacity (cn_recvQueue s)" by (simp add: take(3))
    show ?thesis
      using IH Cons.prems(2) bytes inv take(5) cap by (simp add: x R get del: eff_forEach.simps run_from.simps)
  qed
qed

lemma cq_keys_strict: "cq_inv q \<Longrightarrow> sorted_wrt (<) (cq_keys q)"
  using cq_keys_sorted [of q] cq_keys_distinct [of q] by (simp add: strict_sorted_iff)

definition queue_u16 :: "packet cqueue \<Rightarrow> bool" where
  "queue_u16 q \<longleftrightarrow> cq_inv q \<and> (\<forall>k \<in> set (cq_keys q). u16 k)"

text \<open>The numbers a round delivers: \<open>ack + 1\<close>, ..., \<open>ack + m\<close>.\<close>

definition delivered :: "int \<Rightarrow> nat \<Rightarrow> int list" where
  "delivered ack m = map (\<lambda>i. seq_add ack (int i + 1)) [0..<m]"

lemma delivered_last: "u16 ack \<Longrightarrow> last (ack # delivered ack m) = seq_add ack (int m)"
  by (cases m) (simp_all add: delivered_def add.commute)

lemma process_round:
  assumes q: "queue_u16 (cn_recvQueue s)" and a: "u16 (cn_ackNr s)"
  defines "x \<equiv> processReceivedPackets s"
  obtains m where "result x = Inr ()" "m \<le> cq_size (cn_recvQueue s)"
    "cn_ackNr (final x) = seq_add (cn_ackNr s) (int m)"
    "\<And>k. k \<in> set (delivered (cn_ackNr s) m) \<Longrightarrow> cq_get (cn_recvQueue s) k \<noteq> None"
    "\<And>k. cq_get (cn_recvQueue (final x)) k
      = (if k \<in> set (delivered (cn_ackNr s) m) then None else cq_get (cn_recvQueue s) k)"
    "read_bytes (events x) @ bb_buffer (cn_recvBuffer (final x)) = bb_buffer (cn_recvBuffer s)
      @ concat (map (\<lambda>k. payload (the (cq_get (cn_recvQueue s) k))) (delivered (cn_ackNr s) m))"
    "rx_rest (final x) = rx_rest s" "cq_inv (cn_recvQueue (final x))"
    "cq_capacity (cn_recvQueue (final x)) = cq_capacity (cn_recvQueue s)"
    "cq_get (cn_recvQueue (final x)) (seq_add (cn_ackNr (final x)) 1) = None
     \<or> cn_ackNr (final x) = 65535 \<and> 0 < m"
proof -
  let ?ks = "cq_keys (cn_recvQueue s)" and ?a = "cn_ackNr s"
  let ?R = "run_from ?a ?ks"
  define m where "m = length ?R"
  have inv: "cq_inv (cn_recvQueue s)" and ku: "\<forall>k \<in> set ?ks. u16 k" using q by (auto simp: queue_u16_def)
  have x: "x = eff_forEach processOne ?ks s" by (simp add: x_def processReceivedPackets_def)
  have R: "?R = delivered ?a m" unfolding delivered_def m_def by (rule run_from_consecutive)
  have d: "distinct ?ks" by (rule cq_keys_distinct [OF inv])
  have f: "result x = Inr () \<and> cn_ackNr (final x) = last (?a # ?R)
    \<and> (\<forall>k. cq_get (cn_recvQueue (final x)) k = (if k \<in> set ?R then None else cq_get (cn_recvQueue s) k))
    \<and> read_bytes (events x) @ bb_buffer (cn_recvBuffer (final x))
       = bb_buffer (cn_recvBuffer s) @ concat (map (\<lambda>k. payload (the (cq_get (cn_recvQueue s) k))) ?R)
    \<and> rx_rest (final x) = rx_rest s
    \<and> (cq_inv (cn_recvQueue s) \<longrightarrow> cq_inv (cn_recvQueue (final x)))
    \<and> cq_capacity (cn_recvQueue (final x)) = cq_capacity (cn_recvQueue s)"
    unfolding x by (rule forEach_process) (use d in \<open>auto simp: cq_keys_set\<close>)
  have m: "m \<le> cq_size (cn_recvQueue s)"
    using run_from_length [of ?a ?ks] by (simp add: m_def cq_size_def cq_keys_def)
  have stop: "cq_get (cn_recvQueue (final x)) (seq_add (cn_ackNr (final x)) 1) = None
      \<or> cn_ackNr (final x) = 65535 \<and> 0 < m"
  proof (cases "seq_add (last (?a # ?R)) 1 \<in> set ?ks")
    case True
    have "last (?a # ?R) = 65535" "?R \<noteq> []"
      using run_from_stop [OF cq_keys_strict [OF inv] ku a True] by blast+
    then show ?thesis using conjunct1 [OF conjunct2 [OF f]] by (intro disjI2) (simp add: m_def)
  next
    case False
    then show ?thesis using f by (simp add: cq_keys_set)
  qed
  have sub: "k \<in> set (delivered ?a m) \<Longrightarrow> cq_get (cn_recvQueue s) k \<noteq> None" for k
    using run_from_subset [of ?a ?ks] by (auto simp: R [symmetric] cq_keys_set)
  have ack: "cn_ackNr (final x) = seq_add ?a (int m)"
    using f delivered_last [OF a, of m] unfolding R by simp
  have "result x = Inr ()" "\<And>k. cq_get (cn_recvQueue (final x)) k
      = (if k \<in> set (delivered ?a m) then None else cq_get (cn_recvQueue s) k)"
    "read_bytes (events x) @ bb_buffer (cn_recvBuffer (final x)) = bb_buffer (cn_recvBuffer s)
      @ concat (map (\<lambda>k. payload (the (cq_get (cn_recvQueue s) k))) (delivered ?a m))"
    "rx_rest (final x) = rx_rest s" "cq_inv (cn_recvQueue (final x))"
    "cq_capacity (cn_recvQueue (final x)) = cq_capacity (cn_recvQueue s)"
    using f [unfolded R] inv by blast+
  note facts = this
  show ?thesis
    by (rule that [OF facts(1) m ack sub facts(2-6) stop])
qed

text \<open>
  C14. A round delivers exactly a run of consecutive packets. From acknowledgement number \<open>ack\<close>,
  \<open>processReceivedPackets\<close> takes \<open>ack + 1\<close>, ..., \<open>ack + m\<close> out of the queue, in wrap-around order, appends
  their payloads to the receive stream in that order, leaves everything else queued, never fails, and
  stops only at a packet that is missing or at the number 65535: the queue is read in numeric order,
  so a round does not go on past the wrap.
\<close>

theorem process_delivers_consecutive:
  assumes "queue_u16 (cn_recvQueue s)" and "u16 (cn_ackNr s)"
  shows "\<exists>m. result (processReceivedPackets s) = Inr ()
    \<and> cn_ackNr (final (processReceivedPackets s)) = seq_add (cn_ackNr s) (int m)
    \<and> set (delivered (cn_ackNr s) m) \<subseteq> set (cq_keys (cn_recvQueue s))
    \<and> (\<forall>k. cq_get (cn_recvQueue (final (processReceivedPackets s))) k
          = (if k \<in> set (delivered (cn_ackNr s) m) then None else cq_get (cn_recvQueue s) k))
    \<and> read_bytes (events (processReceivedPackets s)) @ bb_buffer (cn_recvBuffer (final (processReceivedPackets s)))
        = bb_buffer (cn_recvBuffer s)
          @ concat (map (\<lambda>k. payload (the (cq_get (cn_recvQueue s) k))) (delivered (cn_ackNr s) m))
    \<and> (cq_get (cn_recvQueue (final (processReceivedPackets s)))
           (seq_add (cn_ackNr (final (processReceivedPackets s))) 1) = None
       \<or> cn_ackNr (final (processReceivedPackets s)) = 65535 \<and> 0 < m)"
proof (rule process_round [OF assms], goal_cases)
  case (1 m)
  have "set (delivered (cn_ackNr s) m) \<subseteq> set (cq_keys (cn_recvQueue s))"
    using 1(4) by (auto simp: cq_keys_set)
  with 1 show ?case by (intro exI [of _ m] conjI allI) assumption+
qed

subsection \<open>The stream of a peer\<close>

text \<open>
  A peer numbers its packets \<open>pkts 0, pkts 1, ...\<close> from \<open>base\<close>. \<open>rx_inv base pkts N n s\<close>: the
  connection has delivered \<open>n\<close> of them; what it still queues are packets of the peer under their own
  numbers, each either not yet due, or so late that its number does not come round again before packet
  \<open>N\<close>.
\<close>

definition rx_entry :: "int \<Rightarrow> (nat \<Rightarrow> packet) \<Rightarrow> nat \<Rightarrow> nat \<Rightarrow> int \<Rightarrow> packet \<Rightarrow> bool" where
  "rx_entry base pkts N n k p \<longleftrightarrow>
     (\<exists>i. p = pkts i \<and> k = seq_add base (int i) \<and> i < n + 65535 \<and> (n \<le> i \<or> N < i + 65536))"

definition rx_inv :: "int \<Rightarrow> (nat \<Rightarrow> packet) \<Rightarrow> nat \<Rightarrow> nat \<Rightarrow> conn \<Rightarrow> bool" where
  "rx_inv base pkts N n s \<longleftrightarrow>
     cn_state s = CS_CONNECTED \<and> cn_remoteFin s = None \<and> cn_ackNr s = seq_add base (int n - 1)
     \<and> cq_inv (cn_recvQueue s) \<and> cq_capacity (cn_recvQueue s) \<le> 8192
     \<and> (\<forall>k p. cq_get (cn_recvQueue s) k = Some p \<longrightarrow> rx_entry base pkts N n k p)"

lemma seq_add_inj: "seq_add a m = seq_add a n \<longleftrightarrow> m mod 65536 = n mod 65536"
proof
  assume "seq_add a m = seq_add a n"
  then have "seq_diff (seq_add a m) a = seq_diff (seq_add a n) a" by simp
  then show "m mod 65536 = n mod 65536" by (simp only: seq_diff_add)
next
  assume "m mod 65536 = n mod 65536"
  then have "(a + m) mod 65536 = (a + n) mod 65536" by (rule mod_add_cong [OF refl])
  then show "seq_add a m = seq_add a n" by (simp only: seq_add_mod)
qed

lemma same_mod_close: "x mod 65536 = y mod 65536 \<Longrightarrow> \<bar>x - y\<bar> < 65536 \<Longrightarrow> x = (y :: int)"
proof -
  assume "x mod 65536 = y mod 65536" and b: "\<bar>x - y\<bar> < 65536"
  then have "65536 dvd x - y" by (simp only: mod_eq_dvd_iff)
  then show "x = y" using b dvd_imp_le_int [of "x - y" 65536] by auto
qed

lemma rx_entry_due:
  assumes "rx_entry base pkts N n (seq_add base (int j)) p" "n \<le> j" "j \<le> N" "j < n + 65536"
  shows "p = pkts j"
proof -
  obtain i where i: "p = pkts i" "seq_add base (int j) = seq_add base (int i)" "i < n + 65535" "n \<le> i \<or> N < i + 65536"
    using assms(1) by (auto simp: rx_entry_def)
  have "int j mod 65536 = int i mod 65536" using i(2) by (simp only: seq_add_inj)
  moreover have "\<bar>int j - int i\<bar> < 65536" using i(3,4) assms(2-4) by auto
  ultimately have "j = i" using same_mod_close by (metis of_nat_eq_iff)
  then show ?thesis using i(1) by simp
qed

lemma map_upt_shift: "map (\<lambda>i. f (n + i)) [0..<m] = map f [n..<n + m]"
  by (rule nth_equalityI) simp_all

lemma rx_round:
  assumes inv: "rx_inv base pkts N n s"
  defines "x \<equiv> processReceivedPackets s"
  obtains n' where "n \<le> n'" "n' \<le> n + 8192" "result x = Inr ()" "rx_rest (final x) = rx_rest s"
    "cn_ackNr (final x) = seq_add base (int n' - 1)" "cq_inv (cn_recvQueue (final x))"
    "n' \<le> N \<Longrightarrow> rx_inv base pkts N n' (final x)
       \<and> read_bytes (events x) @ bb_buffer (cn_recvBuffer (final x))
         = bb_buffer (cn_recvBuffer s) @ concat (map (\<lambda>i. payload (pkts i)) [n..<n'])"
    "cq_get (cn_recvQueue s) (seq_add base (int n)) = None \<or> n < n'"
proof -
  let ?q = "cn_recvQueue s"
  have "u16 k" if "k \<in> set (cq_keys ?q)" for k
  proof -
    obtain p where "cq_get ?q k = Some p" using \<open>k \<in> set (cq_keys ?q)\<close> by (auto simp: cq_keys_set)
    then have "rx_entry base pkts N n k p" using inv by (simp add: rx_inv_def)
    then show ?thesis by (auto simp: rx_entry_def)
  qed
  then have q: "queue_u16 ?q" using inv by (simp add: queue_u16_def rx_inv_def)
  have a: "cn_ackNr s = seq_add base (int n - 1)" "u16 (cn_ackNr s)" using inv by (simp_all add: rx_inv_def)
  have cap: "cq_size ?q \<le> 8192" using inv by (auto simp: rx_inv_def cq_inv_def)
  show ?thesis
  proof (rule process_round [OF q a(2)], goal_cases)
    case (1 m)
    note r = 1 [folded x_def]
    have num: "seq_add (cn_ackNr s) (int i + 1) = seq_add base (int (n + i))" for i
      by (simp add: a(1) seq_add_add algebra_simps)
    have del: "delivered (cn_ackNr s) m = map (\<lambda>i. seq_add base (int (n + i))) [0..<m]"
      unfolding delivered_def num ..
    have ack: "cn_ackNr (final x) = seq_add base (int (n + m) - 1)"
      using r(3) by (simp add: a(1) seq_add_add algebra_simps)
    have next_nr: "seq_add (cn_ackNr (final x)) 1 = seq_add base (int (n + m))"
      by (simp add: ack seq_add_add)
    have m: "m \<le> 8192" using r(2) cap by simp
    have good: "rx_inv base pkts N (n + m) (final x)
       \<and> read_bytes (events x) @ bb_buffer (cn_recvBuffer (final x))
         = bb_buffer (cn_recvBuffer s) @ concat (map (\<lambda>i. payload (pkts i)) [n..<n + m])" if N: "n + m \<le> N"
    proof
      have "the (cq_get ?q (seq_add base (int (n + i)))) = pkts (n + i)" if i: "i < m" for i
      proof -
        obtain p where p: "cq_get ?q (seq_add base (int (n + i))) = Some p"
          using r(4) [of "seq_add base (int (n + i))"] i by (auto simp: del)
        then have "rx_entry base pkts N n (seq_add base (int (n + i))) p" using inv by (simp add: rx_inv_def)
        then have "p = pkts (n + i)" by (rule rx_entry_due) (use i m N in auto)
        then show ?thesis using p by simp
      qed
      then have "map (\<lambda>k. payload (the (cq_get ?q k))) (delivered (cn_ackNr s) m)
          = map (\<lambda>i. payload (pkts (n + i))) [0..<m]" by (simp add: del)
      also have "\<dots> = map (\<lambda>i. payload (pkts i)) [n..<n + m]"
        by (rule map_upt_shift)
      finally show "read_bytes (events x) @ bb_buffer (cn_recvBuffer (final x))
         = bb_buffer (cn_recvBuffer s) @ concat (map (\<lambda>i. payload (pkts i)) [n..<n + m])"
        using r(6) by simp
      have "rx_entry base pkts N (n + m) k p" if "cq_get (cn_recvQueue (final x)) k = Some p" for k p
      proof -
        have k: "k \<notin> set (delivered (cn_ackNr s) m)" "cq_get ?q k = Some p"
          using that r(5) [of k] by (auto split: if_splits)
        then obtain i where i: "p = pkts i" "k = seq_add base (int i)" "i < n + 65535" "n \<le> i \<or> N < i + 65536"
          using inv by (auto simp: rx_inv_def rx_entry_def)
        have "\<not> (n \<le> i \<and> i < n + m)"
        proof
          assume "n \<le> i \<and> i < n + m"
          then have "k = seq_add base (int (n + (i - n)))" "i - n < m" using i(2) by auto
          then show False using k(1) unfolding del by auto
        qed
        then have "n + m \<le> i \<or> N < i + 65536" using i(4) by auto
        then show ?thesis using i unfolding rx_entry_def by (intro exI [of _ i]) auto
      qed
      then show "rx_inv base pkts N (n + m) (final x)"
        using inv r(7-9) ack unfolding rx_inv_def rx_rest_def by simp
    qed
    have stop: "cq_get ?q (seq_add base (int n)) = None \<or> n < n + m"
      using r(5) [of "seq_add base (int n)"] r(10) next_nr by (cases m) (simp_all add: delivered_def)
    show ?case
      by (rule that [of "n + m"]) (use m r(1,7,8) ack good stop in auto)
  qed
qed

subsection \<open>Handling one data packet\<close>

lemma handleAtConnected_data:
  assumes st: "cn_state s = CS_CONNECTED" "cn_remoteFin s = None" and p: "pk_type p = ST_DATA" "pk_seqNr p \<noteq> cn_ackNr s"
  defines "x1 \<equiv> eff_when (cq_size (cn_recvQueue s) \<ge> cq_capacity (cn_recvQueue s)) processReceivedPackets s"
  defines "s2 \<equiv> (final x1)\<lparr>cn_recvQueue := cq_enqueue (pk_seqNr p) p (cn_recvQueue (final x1))\<rparr>"
  defines "x2 \<equiv> processReceivedPackets s2"
  assumes r1: "result x1 = Inr ()" and r2: "result x2 = Inr ()" "cn_state (final x2) = CS_CONNECTED"
  shows "final (handleAtConnected env p s) = (final x2)\<lparr>cn_lastLiveTime := env_perf env\<rparr>"
    and "events (handleAtConnected env p s) = events x1 @ events x2
      @ [EvSend (createAckPacket env (sack_createFromConn (final x2)) (final x2)) (cn_remoteAddr (final x2))]"
    and "result (handleAtConnected env p s) = Inr True"
proof -
  have ns: "cn_state (final x2) \<noteq> CS_CLOSED" using r2(2) by simp
  define rest :: "bool conn_eff" where "rest = eff_then (eff_when (pk_type p = ST_FIN) (handleFin env p))
       (eff_read conn_isClosed (\<lambda>closed.
        if closed then eff_return True
        else eff_then (eff_try (conn_sendAck env) (\<lambda>_. eff_return None)) (eff_return True)))"
  have h: "handleAtConnected env p s = eff_then
        (eff_when (cq_size (cn_recvQueue s) \<ge> cq_capacity (cn_recvQueue s)) processReceivedPackets)
       (eff_then (eff_modify (\<lambda>s. s\<lparr>cn_recvQueue := cq_enqueue (pk_seqNr p) p (cn_recvQueue s)\<rparr>))
       (eff_then processReceivedPackets rest)) s"
    using assms(1-4) by (simp add: handleAtConnected_def conn_isClosed_def packet_types rest_def)
  have rest: "final (rest (final x2)) = (final x2)\<lparr>cn_lastLiveTime := env_perf env\<rparr>"
    "events (rest (final x2))
      = [EvSend (createAckPacket env (sack_createFromConn (final x2)) (final x2)) (cn_remoteAddr (final x2))]"
    "result (rest (final x2)) = Inr True"
    using p(1) r2(2) sendAck_parts [OF ns, of env]
    by (simp_all add: rest_def eff_parts packet_types conn_isClosed_def split: sum.splits)
  have m: "final (eff_modify (\<lambda>s. s\<lparr>cn_recvQueue := cq_enqueue (pk_seqNr p) p (cn_recvQueue s)\<rparr>) (final x1)) = s2"
    by (simp add: s2_def)
  show "final (handleAtConnected env p s) = (final x2)\<lparr>cn_lastLiveTime := env_perf env\<rparr>"
    "events (handleAtConnected env p s) = events x1 @ events x2
      @ [EvSend (createAckPacket env (sack_createFromConn (final x2)) (final x2)) (cn_remoteAddr (final x2))]"
    "result (handleAtConnected env p s) = Inr True"
    unfolding h then_parts x1_def [symmetric] r1 m
    by (simp_all only: sum.case parts_simple x2_def [symmetric] m r2(1) then_parts rest append_Nil append_assoc)
qed

lemma rx_inv_frame:
  "rx_inv base pkts N n s \<Longrightarrow> cn_state t = cn_state s \<Longrightarrow> cn_remoteFin t = cn_remoteFin s \<Longrightarrow> cn_ackNr t = cn_ackNr s
   \<Longrightarrow> cn_recvQueue t = cn_recvQueue s \<Longrightarrow> rx_inv base pkts N n t"
  by (simp add: rx_inv_def)

lemma rx_inv_enqueue:
  assumes inv: "rx_inv base pkts N n s" and i: "i < n + 65535" "n \<le> i \<or> N < i + 65536"
  shows "rx_inv base pkts N n (s\<lparr>cn_recvQueue := cq_enqueue (seq_add base (int i)) (pkts i) (cn_recvQueue s)\<rparr>)"
proof -
  have q: "cq_inv (cn_recvQueue s)" using inv by (simp add: rx_inv_def)
  have "rx_entry base pkts N n (seq_add base (int i)) (pkts i)"
    using i unfolding rx_entry_def by (intro exI [of _ i]) auto
  then show ?thesis
    using inv unfolding rx_inv_def by (simp add: cq_enqueue_get [OF q] cq_enqueue_inv)
qed

text \<open>The bytes given to the application so far and those it can still read.\<close>

definition rx_stream :: "conn_ev list \<Rightarrow> conn \<Rightarrow> byte list" where
  "rx_stream evs s = read_bytes evs @ bb_buffer (cn_recvBuffer s)"

text \<open>Delivering sends nothing.\<close>

interpretation quiet: history "\<lambda>(s :: conn) es t. \<forall>q a. EvSend q a \<notin> set es"
  by unfold_locales auto

lemma process_quiet: "EvSend q a \<notin> set (events (processReceivedPackets s))"
proof -
  have "obeys (\<lambda>s es t. \<forall>q a. EvSend q a \<notin> set es) processReceivedPackets"
    unfolding processReceivedPackets_def processOne_def conn_recvWrite_def
    by (intro quiet.obeys_intros)
      (auto simp: read_events_def split: option.splits sum.splits prod.splits intro!: quiet.obeys_intros quiet.obeys_steps)
  from obeysD [OF this, of s] show ?thesis by blast
qed

lemma rx_data:
  fixes env :: env
  assumes inv: "rx_inv base pkts N n s" and N: "n + 16384 \<le> N"
    and p: "pk_type (pkts i) = ST_DATA" "pk_seqNr (pkts i) = seq_add base (int i)"
    and i: "i < n + 65535"
      "n \<le> Suc i \<and> cq_size (cn_recvQueue s) < cq_capacity (cn_recvQueue s) \<or> N < i + 65536"
  defines "x \<equiv> handleIncomingPacket env (pkts i) s"
  obtains n' where "n \<le> n'" "n' \<le> n + 16384" "rx_inv base pkts N n' (final x)" "\<forall>e. result x \<noteq> Inl e"
    "rx_stream (events x) (final x) = bb_buffer (cn_recvBuffer s) @ concat (map (\<lambda>i. payload (pkts i)) [n..<n'])"
    "i = n \<longrightarrow> n < n'"
    "\<forall>q a. EvSend q a \<in> set (events x) \<longrightarrow> (\<exists>u. q = createAckPacket env (sack_createFromConn u) u
       \<and> cn_ackNr u = cn_ackNr (final x) \<and> cn_recvQueue u = cn_recvQueue (final x))"
proof -
  have st: "cn_state s = CS_CONNECTED" "cn_remoteFin s = None" using inv by (simp_all add: rx_inv_def)
  have x: "x = eff_bind (handleAtConnected env (pkts i)) (\<lambda>handled.
      eff_then (eff_when handled (eff_modify (\<lambda>s. s\<lparr>cn_lastPacketTs := Some (currentMicroseconds env)\<rparr>)))
             (eff_return handled)) s"
    using st p(1) by (simp add: x_def handleIncomingPacket_def packet_types eff_then_def eff_bind_def eff_return_def)
  show ?thesis
  proof (cases "pk_seqNr (pkts i) = cn_ackNr s")
    case True
    then have h: "handleAtConnected env (pkts i) s = eff_return False s"
      using st p by (simp add: handleAtConnected_def conn_isClosed_def packet_types)
    have "i \<noteq> n"
      using True inv p(2) same_mod_close [of "int i" "int n - 1"] by (auto simp: rx_inv_def seq_add_inj)
    moreover have "final x = s" "events x = []" "result x = Inr False" by (simp_all add: x eff_parts h)
    ultimately show ?thesis using inv by (intro that [of n]) (simp_all add: rx_stream_def)
  next
    case ne: False
    then have "\<not> Suc i = n" using inv p(2) by (auto simp: rx_inv_def)
    then have i': "n \<le> i \<or> N < i + 65536" using i(2) by auto
    define full where "full \<longleftrightarrow> cq_size (cn_recvQueue s) \<ge> cq_capacity (cn_recvQueue s)"
    define x1 where "x1 = eff_when full processReceivedPackets s"
    obtain n1 where n1: "n \<le> n1" "n1 \<le> n + 8192" "result x1 = Inr ()" "n < n1 \<longrightarrow> full"
      "rx_inv base pkts N n1 (final x1)"
      "rx_stream (events x1) (final x1) = bb_buffer (cn_recvBuffer s) @ concat (map (\<lambda>i. payload (pkts i)) [n..<n1])"
    proof (cases full)
      case True
      show ?thesis
        by (rule rx_round [OF inv]) (rule that, use True N in \<open>auto simp: x1_def rx_stream_def\<close>)
    next
      case False
      then show ?thesis using inv by (intro that [of n]) (simp_all add: x1_def rx_stream_def)
    qed
    define s2 where "s2 = (final x1)\<lparr>cn_recvQueue := cq_enqueue (pk_seqNr (pkts i)) (pkts i) (cn_recvQueue (final x1))\<rparr>"
    have "n1 \<le> i \<or> N < i + 65536" using n1(1,4) i(2) i' by (auto simp: full_def)
    then have inv2: "rx_inv base pkts N n1 s2"
      unfolding s2_def p(2) using rx_inv_enqueue [OF n1(5)] i(1) n1(1) by simp
    define x2 where "x2 = processReceivedPackets s2"
    show ?thesis
    proof (rule rx_round [OF inv2], fold x2_def)
      fix n2
      assume n2: "n1 \<le> n2" "n2 \<le> n1 + 8192" "result x2 = Inr ()" "rx_rest (final x2) = rx_rest s2"
        "n2 \<le> N \<Longrightarrow> rx_inv base pkts N n2 (final x2)
           \<and> read_bytes (events x2) @ bb_buffer (cn_recvBuffer (final x2))
             = bb_buffer (cn_recvBuffer s2) @ concat (map (\<lambda>i. payload (pkts i)) [n1..<n2])"
        "cq_get (cn_recvQueue s2) (seq_add base (int n1)) = None \<or> n1 < n2"
      have N2: "n2 \<le> N" using n2(2) n1(2) N by simp
      note inv3 = conjunct1 [OF n2(5) [OF N2]] and bytes = conjunct2 [OF n2(5) [OF N2]]
      have c: "cn_state (final x2) = CS_CONNECTED" using inv3 by (simp add: rx_inv_def)
      note h = handleAtConnected_data [OF st p(1) ne, folded full_def, folded x1_def, folded s2_def,
          folded x2_def, OF n1(3) n2(3) c, of env]
      have f: "final x = (final x2)\<lparr>cn_lastLiveTime := env_perf env, cn_lastPacketTs := Some (currentMicroseconds env)\<rparr>"
        and e: "events x = events x1 @ events x2
          @ [EvSend (createAckPacket env (sack_createFromConn (final x2)) (final x2)) (cn_remoteAddr (final x2))]"
        and r: "result x = Inr True"
        by (simp_all add: x eff_parts h)
      have "rx_stream (events x) (final x)
          = read_bytes (events x1) @ bb_buffer (cn_recvBuffer s2) @ concat (map (\<lambda>i. payload (pkts i)) [n1..<n2])"
        using bytes by (simp add: rx_stream_def e f)
      also have "\<dots> = bb_buffer (cn_recvBuffer s)
          @ concat (map (\<lambda>i. payload (pkts i)) [n..<n1] @ map (\<lambda>i. payload (pkts i)) [n1..<n2])"
        using n1(6) by (simp add: rx_stream_def s2_def)
      also have "map (\<lambda>i. payload (pkts i)) [n..<n1] @ map (\<lambda>i. payload (pkts i)) [n1..<n2]
          = map (\<lambda>i. payload (pkts i)) [n..<n2]"
        using n1(1) n2(1) by (metis map_append upt_add_eq_append le_add_diff_inverse)
      finally have stream: "rx_stream (events x) (final x)
          = bb_buffer (cn_recvBuffer s) @ concat (map (\<lambda>i. payload (pkts i)) [n..<n2])" .
      have q1: "cq_inv (cn_recvQueue (final x1))" using n1(5) by (simp add: rx_inv_def)
      have "cq_get (cn_recvQueue s2) (seq_add base (int i)) = Some (pkts i)"
        by (simp add: s2_def p(2) cq_enqueue_get [OF q1])
      then have "n1 < n2" if "i = n1" using n2(6) that by auto
      then have prog: "i = n \<longrightarrow> n < n2" using n1(1) n2(1) by (cases "n = n1") auto
      have inv4: "rx_inv base pkts N n2 (final x)" by (rule rx_inv_frame [OF inv3]) (simp_all add: f)
      show ?thesis
        by (rule that [OF _ _ inv4 _ stream prog])
          (use n1(1,2) n2(1,2) r process_quiet in \<open>auto simp: e f x1_def x2_def split: if_splits\<close>)
    qed
  qed
qed

subsection \<open>Runs: data packets and reads\<close>

lemma bb_read_bytes:
  "bb_read r n b = Inr (b', outs) \<Longrightarrow> out_bytes outs @ bb_buffer b' = bb_buffer b"
  using bb_readInto_bytes [of r n b] by (auto simp: bb_read_def split: if_splits)

lemma read_parts:
  "read_bytes (events (conn_read r n s)) @ bb_buffer (cn_recvBuffer (final (conn_read r n s)))
   = bb_buffer (cn_recvBuffer s)"
  "cn_state (final (conn_read r n s)) = cn_state s" "cn_remoteFin (final (conn_read r n s)) = cn_remoteFin s"
  "cn_ackNr (final (conn_read r n s)) = cn_ackNr s" "cn_recvQueue (final (conn_read r n s)) = cn_recvQueue s"
  by (auto simp: conn_read_def bb_read_bytes split: sum.splits prod.splits)

text \<open>
  \<open>rx_run base pkts N m s evs n t\<close>: from \<open>s\<close>, where \<open>m\<close> packets were delivered, the connection reaches \<open>t\<close> with the events \<open>evs\<close> by handling
  packets of the peer in any order and with any repetition, and by reads of the application, and has
  delivered the first \<open>n\<close> packets. The peer keeps within 65535 packets of what was delivered. A late
  repetition (or one that finds the queue full) is allowed as long as its number does not come round
  again before packet \<open>N\<close>, where the run ends.
\<close>

definition rx_next :: "nat \<Rightarrow> conn \<Rightarrow> conn \<Rightarrow> nat" where
  "rx_next n s t = n + nat (seq_diff (cn_ackNr t) (cn_ackNr s))"

definition rx_may :: "nat \<Rightarrow> nat \<Rightarrow> nat \<Rightarrow> conn \<Rightarrow> bool" where
  "rx_may N n i s \<longleftrightarrow> n + 16384 \<le> N \<and> i < n + 65535
     \<and> (n \<le> Suc i \<and> cq_size (cn_recvQueue s) < cq_capacity (cn_recvQueue s) \<or> N < i + 65536)"

inductive rx_run :: "int \<Rightarrow> (nat \<Rightarrow> packet) \<Rightarrow> nat \<Rightarrow> nat \<Rightarrow> conn \<Rightarrow> conn_ev list \<Rightarrow> nat \<Rightarrow> conn \<Rightarrow> bool"
  for base pkts N m s where
  rx_start: "rx_run base pkts N m s [] m s"
| rx_packet: "rx_run base pkts N m s evs n t \<Longrightarrow> rx_may N n i t \<Longrightarrow> x = handleIncomingPacket env (pkts i) t
    \<Longrightarrow> rx_run base pkts N m s (evs @ events x) (rx_next n t (final x)) (final x)"
| rx_read: "rx_run base pkts N m s evs n t \<Longrightarrow> x = conn_read r k t
    \<Longrightarrow> rx_run base pkts N m s (evs @ events x) n (final x)"

definition peer_stream :: "int \<Rightarrow> (nat \<Rightarrow> packet) \<Rightarrow> bool" where
  "peer_stream base pkts \<longleftrightarrow> (\<forall>i. pk_type (pkts i) = ST_DATA \<and> pk_seqNr (pkts i) = seq_add base (int i))"

text \<open>A connection that has delivered the first \<open>m\<close> packets and queues none; the first \<open>m\<close> is 0 and the buffer empty in a fresh one.\<close>

definition rx_at :: "int \<Rightarrow> nat \<Rightarrow> conn \<Rightarrow> bool" where
  "rx_at base m s \<longleftrightarrow> cn_state s = CS_CONNECTED \<and> cn_remoteFin s = None \<and> cn_ackNr s = seq_add base (int m - 1)
     \<and> cn_recvQueue s = cq_new (cq_capacity (cn_recvQueue s)) \<and> cq_capacity (cn_recvQueue s) \<le> 8192"

definition rx_fresh :: "int \<Rightarrow> conn \<Rightarrow> bool" where
  "rx_fresh base s \<longleftrightarrow> cn_state s = CS_CONNECTED \<and> cn_remoteFin s = None \<and> cn_ackNr s = seq_add base (- 1)
     \<and> cn_recvQueue s = cq_new (cq_capacity (cn_recvQueue s)) \<and> cq_capacity (cn_recvQueue s) \<le> 8192
     \<and> bb_buffer (cn_recvBuffer s) = []"

lemma rx_fresh_at: "rx_fresh base s \<Longrightarrow> rx_at base 0 s"
  by (simp add: rx_fresh_def rx_at_def)

lemma rx_at_inv: "rx_at base m s \<Longrightarrow> rx_inv base pkts N m s"
proof -
  assume f: "rx_at base m s"
  then have q: "cn_recvQueue s = cq_new (cq_capacity (cn_recvQueue s))" by (simp add: rx_at_def)
  have "cq_inv (cn_recvQueue s)" "\<And>k. cq_get (cn_recvQueue s) k = None"
    by (subst q, simp, subst q, simp add: cq_get_def cq_new_def)
  then show ?thesis using f by (simp add: rx_inv_def rx_at_def)
qed

lemmas rx_fresh_inv = rx_at_inv [OF rx_fresh_at]

lemma rx_next_eq:
  assumes "cn_ackNr s = seq_add base (int n - 1)" "cn_ackNr t = seq_add base (int n' - 1)"
    and "n \<le> n'" "n' \<le> n + 16384"
  shows "rx_next n s t = n'"
proof -
  have "cn_ackNr t = seq_add (cn_ackNr s) (int n' - int n)" using assms(1,2) by (simp add: seq_add_add)
  then have "seq_diff (cn_ackNr t) (cn_ackNr s) = int n' - int n" using assms(3,4) by (simp add: seq_diff_add)
  then show ?thesis using assms(3) by (simp add: rx_next_def)
qed

lemma rx_run_inv:
  assumes "rx_run base pkts N m s evs n t" "peer_stream base pkts" "rx_at base m s"
  shows "m \<le> n \<and> rx_inv base pkts N n t
    \<and> rx_stream evs t = bb_buffer (cn_recvBuffer s) @ concat (map (\<lambda>i. payload (pkts i)) [m..<n])"
  using assms(1)
proof induction
  case rx_start
  then show ?case using rx_at_inv [OF assms(3)] by (simp add: rx_stream_def)
next
  case (rx_packet evs n t i x env)
  have p: "pk_type (pkts i) = ST_DATA" "pk_seqNr (pkts i) = seq_add base (int i)"
    using assms(2) by (simp_all add: peer_stream_def)
  have may: "n + 16384 \<le> N" "i < n + 65535"
    "n \<le> Suc i \<and> cq_size (cn_recvQueue t) < cq_capacity (cn_recvQueue t) \<or> N < i + 65536"
    using rx_packet.hyps(2) by (simp_all add: rx_may_def)
  note IH = rx_packet.IH
  have inv: "rx_inv base pkts N n t" using IH by blast
  show ?case
  proof (rule rx_data [OF inv may(1) p may(2,3), of env], fold rx_packet.hyps(3))
    fix n'
    assume n': "n \<le> n'" "n' \<le> n + 16384" "rx_inv base pkts N n' (final x)"
      "rx_stream (events x) (final x) = bb_buffer (cn_recvBuffer t) @ concat (map (\<lambda>i. payload (pkts i)) [n..<n'])"
    have nx: "rx_next n t (final x) = n'"
      by (rule rx_next_eq [of _ base]) (use IH n' in \<open>simp_all add: rx_inv_def\<close>)
    have "rx_stream (evs @ events x) (final x) = bb_buffer (cn_recvBuffer s)
        @ concat (map (\<lambda>i. payload (pkts i)) [m..<n]) @ concat (map (\<lambda>i. payload (pkts i)) [n..<n'])"
      using n'(4) IH by (simp add: rx_stream_def)
    also have "\<dots> = bb_buffer (cn_recvBuffer s) @ concat (map (\<lambda>i. payload (pkts i)) ([m..<n] @ [n..<n']))" by simp
    also have "[m..<n] @ [n..<n'] = [m..<n']" using n'(1) IH upt_add_eq_append [of m n "n' - n"] by simp
    finally show ?thesis using n'(1,3) IH by (simp add: nx)
  qed
next
  case (rx_read evs n t x r k)
  have "rx_inv base pkts N n (final x)"
    by (rule rx_inv_frame [of base pkts N n t]) (use rx_read.IH in \<open>simp_all add: rx_read.hyps(2) read_parts\<close>)
  moreover have "rx_stream (evs @ events x) (final x) = rx_stream evs t"
    by (simp add: rx_stream_def rx_read.hyps(2) read_parts(1))
  ultimately show ?case using rx_read.IH by simp
qed

lemma rx_run_fresh:
  assumes "rx_run base pkts N 0 s evs n t" "peer_stream base pkts" "rx_fresh base s"
  shows "rx_inv base pkts N n t" "rx_stream evs t = concat (map (\<lambda>i. payload (pkts i)) [0..<n])"
  using rx_run_inv [OF assms(1,2) rx_fresh_at [OF assms(3)]] assms(3) by (simp_all add: rx_fresh_def)

text \<open>
  C5. In-order delivery. Whatever the order, loss and repetition in which a peer's data packets
  arrive, interleaved with reads of the application, the bytes the application was given followed by
  those it can still read are exactly the concatenated payloads of the first \<open>n\<close> packets: no byte is
  lost, repeated or out of place, across any number of wrap-arounds, and the number acknowledged to
  the peer is the one of packet \<open>n - 1\<close>.
\<close>

theorem rx_in_order:
  assumes "rx_run base pkts N 0 s evs n t" and "peer_stream base pkts" and "rx_fresh base s"
  shows "read_bytes evs @ bb_buffer (cn_recvBuffer t) = concat (map (\<lambda>i. payload (pkts i)) [0..<n])
    \<and> cn_ackNr t = seq_add base (int n - 1) \<and> cn_state t = CS_CONNECTED"
  using rx_run_fresh [OF assms] by (simp add: rx_inv_def rx_stream_def)

text \<open>
  C18. The packet that is due is delivered when it arrives: handling packet \<open>n\<close> when \<open>n\<close> packets were
  delivered advances the count, whatever else is queued, and does not fail.
\<close>

theorem rx_progress:
  assumes "rx_run base pkts N 0 s evs n t" and "peer_stream base pkts" and "rx_fresh base s"
    and "rx_may N n n t"
  shows "n < rx_next n t (final (handleIncomingPacket env (pkts n) t))
    \<and> (\<forall>e. result (handleIncomingPacket env (pkts n) t) \<noteq> Inl e)"
proof -
  have p: "pk_type (pkts n) = ST_DATA" "pk_seqNr (pkts n) = seq_add base (int n)"
    using assms(2) by (simp_all add: peer_stream_def)
  have may: "n + 16384 \<le> N" "n < n + 65535"
    "n \<le> Suc n \<and> cq_size (cn_recvQueue t) < cq_capacity (cn_recvQueue t) \<or> N < n + 65536"
    using assms(4) by (simp_all add: rx_may_def)
  have inv: "rx_inv base pkts N n t" by (rule rx_run_fresh(1) [OF assms(1-3)])
  show ?thesis
  proof (rule rx_data [OF inv may(1) p may(2,3), of env])
    fix n'
    assume n': "n \<le> n'" "n' \<le> n + 16384" "rx_inv base pkts N n' (final (handleIncomingPacket env (pkts n) t))"
      "\<forall>e. result (handleIncomingPacket env (pkts n) t) \<noteq> Inl e" "n = n \<longrightarrow> n < n'"
    have "rx_next n t (final (handleIncomingPacket env (pkts n) t)) = n'"
      by (rule rx_next_eq [of _ base]) (use inv n' in \<open>simp_all add: rx_inv_def\<close>)
    then show ?thesis using n'(4,5) by simp
  qed
qed

subsection \<open>A sample connection\<close>

definition sample_env :: env where
  "sample_env = \<lparr>env_now = 1700000000000, env_perf = 5000, env_clk = (\<lambda>_. 1700000000000),
     env_send = (\<lambda>p. Inr (packet_length p))\<rparr>"

definition sample_conn :: conn where
  "sample_conn = (fst (conn_new sample_env CS_SYN_RECV sample_addr 7 8 100 9))\<lparr>cn_state := CS_CONNECTED\<rparr>"

definition sample_pkts :: "nat \<Rightarrow> packet" where
  "sample_pkts i = packet_blank\<lparr>pk_type := ST_DATA, pk_seqNr := seq_add 10 (int i), pk_data := Some [of_nat i]\<rparr>"

lemma sample_conn_fields [simp]:
  "cn_state sample_conn = CS_CONNECTED" "cn_remoteFin sample_conn = None" "cn_ackNr sample_conn = 9"
  "cn_recvQueue sample_conn = cq_new 4096" "cn_recvBuffer sample_conn = bb_new bb_defaultMaxBytes"
  "cn_seqNr sample_conn = 100" "cn_sendId sample_conn = 7" "cn_recvId sample_conn = 8"
  "cn_localFin sample_conn = None" "cn_sendWindow sample_conn = sw_new" "cn_remoteAddr sample_conn = sample_addr"
  "cn_lastPacketTs sample_conn = None" "cn_listeners sample_conn = []" "cn_closeStartTime sample_conn = None"
  by (simp_all add: sample_conn_def conn_new_def Let_def MIN_RECV_QUEUE_SIZE_def)

lemma cq_new_simps [simp]: "cq_capacity (cq_new c) = c" "cq_size (cq_new c) = 0" "cq_get (cq_new c) k = None"
  by (simp_all add: cq_new_def cq_size_def cq_get_def)

lemma sample_fresh: "rx_fresh 10 sample_conn"
  by (simp add: rx_fresh_def bb_new_def seq_simps)

lemma sample_stream: "peer_stream 10 sample_pkts"
  by (simp add: peer_stream_def sample_pkts_def)

lemma sample_may: "rx_may 20000 0 0 sample_conn"
  by (simp add: rx_may_def)

theorem rx_in_order_witness:
  "\<exists>n evs. \<exists>t :: conn. 0 < n \<and> read_bytes evs @ bb_buffer (cn_recvBuffer t) = concat (map (\<lambda>i. payload (sample_pkts i)) [0..<n])
     \<and> cn_ackNr t = seq_add 10 (int n - 1)"
proof -
  have p: "pk_type (sample_pkts 0) = ST_DATA" "pk_seqNr (sample_pkts 0) = seq_add 10 (int 0)"
    by (simp_all add: sample_pkts_def)
  define x where "x = handleIncomingPacket sample_env (sample_pkts 0) sample_conn"
  define n where "n = rx_next 0 sample_conn (final x)"
  have run: "rx_run 10 sample_pkts 20000 0 sample_conn ([] @ events x) n (final x)"
    unfolding n_def
    by (rule rx_packet [where pkts = sample_pkts and i = 0 and env = sample_env, OF rx_start sample_may x_def])
  have inv: "rx_inv 10 sample_pkts 20000 0 sample_conn" by (rule rx_fresh_inv [OF sample_fresh])
  have "0 < n"
  proof (rule rx_data [OF inv _ p, of sample_env], fold x_def)
    fix n' assume n': "0 \<le> n'" "n' \<le> 0 + 16384" "rx_inv 10 sample_pkts 20000 n' (final x)" "(0 :: nat) = 0 \<longrightarrow> 0 < n'"
    have "cn_ackNr sample_conn = seq_add 10 (int 0 - 1)" "cn_ackNr (final x) = seq_add 10 (int n' - 1)"
      using inv n'(3) unfolding rx_inv_def by blast+
    from rx_next_eq [OF this n'(1,2)] show ?thesis using n'(4) by (simp add: n_def)
  qed simp_all
  then show ?thesis
    using rx_in_order [OF run sample_stream sample_fresh]
    by (intro exI [of _ n] exI [of _ "[] @ events x"] exI [of _ "final x"]) blast
qed

theorem rx_progress_witness:
  "0 < rx_next 0 sample_conn (final (handleIncomingPacket sample_env (sample_pkts 0) sample_conn))"
  by (rule conjunct1 [OF rx_progress [OF rx_start sample_stream sample_fresh sample_may, of sample_env]])

theorem process_delivers_consecutive_witness:
  "\<exists>m. result (processReceivedPackets (sample_conn\<lparr>cn_recvQueue := cq_enqueue 10 (sample_pkts 0) (cq_new 4096)\<rparr>)) = Inr ()
     \<and> set (delivered 9 m) \<subseteq> {10}"
proof -
  let ?q = "cq_enqueue 10 (sample_pkts 0) (cq_new 4096)"
  let ?s = "sample_conn\<lparr>cn_recvQueue := ?q\<rparr>"
  have keys: "k \<in> set (cq_keys ?q) \<longleftrightarrow> k = 10" for k
    by (simp add: cq_keys_set cq_enqueue_get [OF cq_new_inv])
  have q: "queue_u16 (cn_recvQueue ?s)"
    using keys by (auto simp: queue_u16_def u16_def cq_enqueue_inv)
  have a: "u16 (cn_ackNr ?s)" by (simp add: u16_def)
  show ?thesis using process_delivers_consecutive [OF q a] keys by auto
qed

end
