(* ===== verification/ConnReorder.thy ===== *)
theory ConnReorder imports ConnReceive begin

text \<open>
  The limits of the receive path: what it does with a repetition older than the last acknowledged
  packet, and with packets that were reordered across the wrap-around of the sequence numbers.
\<close>

subsection \<open>Where reordering goes wrong\<close>

text \<open>
  A repeated packet that is older than the last acknowledged one is not recognised as a
  repetition: only the number equal to the acknowledgement is dropped. Handling the packet before the
  last one again leaves it in the receive queue for good, and the acknowledgement sent in answer
  carries a selective mask of 8192 bytes, whose length octet is 0: the peer decodes an empty mask and
  8192 bytes of payload.
\<close>

theorem stale_duplicate_kept:
  assumes "cn_state s = CS_CONNECTED" and "cn_remoteFin s = None" and "cn_recvQueue s = cq_new c" and "0 < c"
    and "u16 (cn_ackNr s)" and "pk_type p = ST_DATA" and "pk_seqNr p = seq_add (cn_ackNr s) (- 1)"
  shows "cn_ackNr (final (handleIncomingPacket env p s)) = cn_ackNr s
    \<and> cq_get (cn_recvQueue (final (handleIncomingPacket env p s))) (pk_seqNr p) = Some p
    \<and> (\<exists>a k. events (handleIncomingPacket env p s) = [EvSend a (cn_remoteAddr s)]
         \<and> pk_extensions a = [SackExt k] \<and> length (sack_bitmask k) = 8192
         \<and> put_uint8 (int (length (sack_bitmask k))) = [0])"
proof -
  let ?k = "pk_seqNr p" and ?a = "cn_ackNr s"
  have k1: "?k \<noteq> ?a" "seq_add ?a 1 \<noteq> ?k"
    using seq_add_inj [of ?a "- 1" 0] seq_add_inj [of ?a 1 "- 1"] assms(5,7) by auto
  define s2 where "s2 = s\<lparr>cn_recvQueue := cq_enqueue ?k p (cn_recvQueue s)\<rparr>"
  have get: "cq_get (cn_recvQueue s2) j = (if j = ?k then Some p else None)" for j
    using cq_enqueue_get [OF cq_new_inv, of ?k p c j] assms(3) by (simp add: s2_def)
  have keys: "cq_keys (cn_recvQueue s2) = [?k]"
    using assms(3,4) by (simp add: s2_def cq_keys_def cq_enqueue_def cq_new_def jm_has_def cq_isAtCapacity_def jm_set_fresh jm_keys_def)
  have x1: "eff_when (cq_size (cn_recvQueue s) \<ge> cq_capacity (cn_recvQueue s)) processReceivedPackets s = (s, [], Inr ())"
    using assms(3,4) by (simp add: eff_return_def)
  have x2: "processReceivedPackets s2 = (s2, [], Inr ())"
  proof -
    have "cn_ackNr s2 = ?a" by (simp add: s2_def)
    then have "processOne ?k s2 = (s2, [], Inr ())" using k1(2) by (intro processOne_skip) simp
    then show ?thesis by (simp add: processReceivedPackets_def keys eff_then_def eff_bind_def eff_return_def)
  qed
  have c2: "cn_state s2 = CS_CONNECTED" "cn_ackNr s2 = ?a" "cn_remoteAddr s2 = cn_remoteAddr s"
    using assms(1) by (simp_all add: s2_def)
  note h = handleAtConnected_data [OF assms(1,2,6) k1(1), unfolded x1 parts, folded s2_def, unfolded x2 parts,
      OF refl refl c2(1), of env]
  have x: "handleIncomingPacket env p s = eff_bind (handleAtConnected env p) (\<lambda>handled.
      eff_then (eff_when handled (eff_modify (\<lambda>s. s\<lparr>cn_lastPacketTs := Some (currentMicroseconds env)\<rparr>)))
             (eff_return handled)) s"
    using assms(1,6) by (simp add: handleIncomingPacket_def packet_types eff_then_def eff_bind_def eff_return_def)
  let ?ack = "createAckPacket env (sack_createFromConn s2) s2"
  obtain k where k: "sack_createFromConn s2 = Some k" "length (sack_bitmask k) = 8192"
  proof -
    obtain k where k: "sack_create ?a [?k] = Some k" using sack_create_None [of ?a "[?k]"] by auto
    have "seq_diff ?k (seq_add ?a 2) = 65533"
      using assms(7) by (simp add: seq_simps mod_diff_eq)
    then have "int (length (sack_bitmask k)) = 8192"
      using sack_create_length(4) [OF k] by (simp add: sack_bitmaskLength_def js_ceil_div_def)
    then show ?thesis using that k by (simp add: sack_createFromConn_def keys c2)
  qed
  have "events (handleIncomingPacket env p s) = [EvSend ?ack (cn_remoteAddr s)]"
    using h c2 by (simp add: x eff_parts)
  moreover have "pk_extensions ?ack = [SackExt k]" by (simp add: createAckPacket_def k(1))
  moreover have "put_uint8 (int (length (sack_bitmask k))) = [0]" by (simp add: k(2) put_uint8_def)
  moreover have "cn_ackNr (final (handleIncomingPacket env p s)) = ?a"
    "cq_get (cn_recvQueue (final (handleIncomingPacket env p s))) ?k = Some p"
    using h c2 get by (simp_all add: x eff_parts)
  ultimately show ?thesis using k(2) by blast
qed

theorem stale_duplicate_kept_witness:
  "cq_get (cn_recvQueue (final (handleIncomingPacket sample_env (packet_blank\<lparr>pk_type := ST_DATA, pk_seqNr := 8\<rparr>) sample_conn))) 8
   = Some (packet_blank\<lparr>pk_type := ST_DATA, pk_seqNr := 8\<rparr>)"
  using stale_duplicate_kept [of sample_conn 4096 "packet_blank\<lparr>pk_type := ST_DATA, pk_seqNr := 8\<rparr>" sample_env]
  by (simp add: u16_def seq_simps)

lemma handleIncoming_connected:
  assumes "cn_state s = CS_CONNECTED" "pk_type p = ST_DATA"
  shows "handleIncomingPacket env p s = eff_bind (handleAtConnected env p) (\<lambda>handled.
      eff_then (eff_when handled (eff_modify (\<lambda>s. s\<lparr>cn_lastPacketTs := Some (currentMicroseconds env)\<rparr>)))
             (eff_return handled)) s"
  using assms by (simp add: handleIncomingPacket_def packet_types eff_then_def eff_bind_def eff_return_def)

text \<open>
  Packets reordered across the wrap-around stall. When the packet numbered 0 arrived before the one
  numbered 65535, the arrival of 65535 delivers it but leaves packet 0 queued although it is the next
  one due: the keys are visited in numeric order, so 0 was already passed. It is delivered only when
  some further packet triggers another round.
\<close>

theorem reorder_across_wrap_stalls:
  assumes "cn_state s = CS_CONNECTED" and "cn_remoteFin s = None" and "cn_ackNr s = 65534"
    and "cn_recvQueue s = cq_enqueue 0 q (cq_new c)" and "1 < c"
    and "pk_type p = ST_DATA" and "pk_seqNr p = 65535"
  shows "cn_ackNr (final (handleIncomingPacket env p s)) = 65535
    \<and> seq_add (cn_ackNr (final (handleIncomingPacket env p s))) 1 = 0
    \<and> cq_get (cn_recvQueue (final (handleIncomingPacket env p s))) 0 = Some q"
proof -
  define s2 where "s2 = s\<lparr>cn_recvQueue := cq_enqueue 65535 p (cn_recvQueue s)\<rparr>"
  have keys: "cq_keys (cn_recvQueue s2) = [0, 65535]" and size: "cq_size (cn_recvQueue s) = 1"
    using assms(4,5)
    by (simp_all add: s2_def cq_keys_def cq_enqueue_def cq_new_def jm_has_def cq_isAtCapacity_def jm_set_fresh
        jm_keys_def cq_size_def jm_get_def cq_updateOldestKey_def cq_isEmpty_def)
  have inv1: "cq_inv (cn_recvQueue s)" using assms(4) by (simp add: cq_enqueue_inv)
  have get: "cq_get (cn_recvQueue s2) k = (if k = 65535 then Some p else cq_get (cn_recvQueue s) k)" for k
    using assms(5) size cq_enqueue_get [OF inv1, of 65535 p k] assms(4)
    by (simp add: s2_def cq_evicted_def cq_isAtCapacity_def cq_size_def)
  have st2: "cn_state s2 = CS_CONNECTED" "cn_ackNr s2 = 65534" using assms by (simp_all add: s2_def)
  define x2 where "x2 = processReceivedPackets s2"
  have sk: "processOne 0 s2 = (s2, [], Inr ())" by (rule processOne_skip) (simp add: st2 seq_simps)
  have e: "x2 = eff_then (processOne 65535) (eff_return ()) s2"
    by (simp add: x2_def processReceivedPackets_def keys eff_then_def eff_bind_def sk)
  have due: "seq_add (cn_ackNr s2) 1 = 65535" "cq_get (cn_recvQueue s2) 65535 = Some p"
    by (simp_all add: st2 seq_simps get)
  note take = processOne_take [OF due]
  have r: "result x2 = Inr ()" "final x2 = final (processOne 65535 s2)" by (simp_all add: e eff_parts take(1))
  have c: "cn_state (final x2) = CS_CONNECTED" using take(5) st2 by (simp add: r rx_rest_def)
  have x1: "eff_when (cq_size (cn_recvQueue s) \<ge> cq_capacity (cn_recvQueue s)) processReceivedPackets s = (s, [], Inr ())"
    using assms(4,5) size by (simp add: eff_return_def)
  have ne: "pk_seqNr p \<noteq> cn_ackNr s" using assms by simp
  note h = handleAtConnected_data [OF assms(1,2,6) ne, unfolded x1 parts assms(7), folded s2_def, folded x2_def,
      OF refl r(1) c, of env]
  have "final (handleIncomingPacket env p s)
      = (final x2)\<lparr>cn_lastLiveTime := env_perf env, cn_lastPacketTs := Some (currentMicroseconds env)\<rparr>"
    unfolding handleIncoming_connected [OF assms(1,6)] by (simp add: eff_parts h)
  moreover have "cq_get (cn_recvQueue s) 0 = Some q"
    unfolding assms(4) by (simp add: cq_enqueue_get)
  ultimately show ?thesis
    using take(2,3) by (simp add: r cq_dequeue_get(2) get seq_simps)
qed

theorem reorder_across_wrap_stalls_witness:
  "cn_ackNr (final (handleIncomingPacket sample_env (packet_blank\<lparr>pk_type := ST_DATA, pk_seqNr := 65535\<rparr>)
     (sample_conn\<lparr>cn_ackNr := 65534, cn_recvQueue := cq_enqueue 0 packet_blank (cq_new 4096)\<rparr>))) = 65535"
  using reorder_across_wrap_stalls [of "sample_conn\<lparr>cn_ackNr := 65534, cn_recvQueue := cq_enqueue 0 packet_blank (cq_new 4096)\<rparr>"
      packet_blank 4096 "packet_blank\<lparr>pk_type := ST_DATA, pk_seqNr := 65535\<rparr>" sample_env] by simp

end
