(* ===== verification/TimerManager.thy ===== *)
theory TimerManager imports Prelude begin

text \<open>
  The registry of periodic timers (\<open>src/timer_manager.ts\<close>), a map from names to the numbers
  \<open>setInterval\<close> answers. What it does to the intervals comes back as a list of events.
\<close>

datatype interval_ev = IntervalSet int | IntervalCleared int

type_synonym timers = "(string, int) js_map"

text \<open>A number is false in a condition when it is zero.\<close>

definition js_truthy :: "int \<Rightarrow> bool" where
  "js_truthy n \<longleftrightarrow> n \<noteq> 0"

definition tm_clearTimer :: "string \<Rightarrow> timers \<Rightarrow> timers \<times> interval_ev list" where
  "tm_clearTimer key t =
     (case jm_get t key of
        None \<Rightarrow> (t, [])
      | Some timer \<Rightarrow> if js_truthy timer then (jm_del key t, [IntervalCleared timer]) else (t, []))"

text \<open>\<open>timer\<close> is what \<open>setInterval\<close> answers.\<close>

definition tm_setTimer :: "string \<Rightarrow> int \<Rightarrow> timers \<Rightarrow> timers \<times> interval_ev list" where
  "tm_setTimer key timer t =
     (let (t1, cleared) = (if jm_has t key then tm_clearTimer key t else (t, []))
      in (jm_set key timer t1, cleared @ [IntervalSet timer]))"

definition tm_exist :: "string \<Rightarrow> timers \<Rightarrow> bool" where
  "tm_exist key t \<longleftrightarrow> jm_has t key"

definition tm_clearAllTimers :: "timers \<Rightarrow> timers \<times> interval_ev list" where
  "tm_clearAllTimers t = ([], map (\<lambda>(k, timer). IntervalCleared timer) t)"

subsection \<open>The intervals that run\<close>

datatype tm_op = TmSet string int | TmClear string | TmClearAll

fun tm_do :: "tm_op \<Rightarrow> timers \<Rightarrow> timers \<times> interval_ev list" where
  "tm_do (TmSet key timer) t = tm_setTimer key timer t"
| "tm_do (TmClear key) t = tm_clearTimer key t"
| "tm_do TmClearAll t = tm_clearAllTimers t"

fun running_step :: "int set \<Rightarrow> interval_ev \<Rightarrow> int set" where
  "running_step r (IntervalSet i) = insert i r"
| "running_step r (IntervalCleared i) = r - {i}"

definition running :: "interval_ev list \<Rightarrow> int set" where
  "running evs = foldl running_step {} evs"

text \<open>The numbers \<open>setInterval\<close> answers are never zero and never answered twice.\<close>

definition tm_ids :: "tm_op list \<Rightarrow> int list" where
  "tm_ids ops = concat (map (\<lambda>op. case op of TmSet k i \<Rightarrow> [i] | _ \<Rightarrow> []) ops)"

definition tm_inv :: "timers \<Rightarrow> interval_ev list \<Rightarrow> bool" where
  "tm_inv t evs \<longleftrightarrow> jm_wf t \<and> running evs = set (map snd t) \<and> distinct (map snd t) \<and> (\<forall>i \<in> set (map snd t). i \<noteq> 0)"

lemma running_append: "running (evs @ fs) = foldl running_step (running evs) fs"
  by (simp add: running_def)

lemma snd_jm_del:
  assumes "jm_wf t" "distinct (map snd t)" "jm_get t key = Some i"
  shows "set (map snd (jm_del key t)) = set (map snd t) - {i}" "distinct (map snd (jm_del key t))"
proof -
  have e: "(key, i) \<in> set t" using assms(3) by (simp add: jm_get_def map_of_SomeD)
  have "j = i \<longleftrightarrow> k = key" if "(k, j) \<in> set t" for k j
    using that e assms(1,2) unfolding jm_wf_def jm_keys_def distinct_map inj_on_def by (metis fst_conv snd_conv)
  then show "set (map snd (jm_del key t)) = set (map snd t) - {i}"
    using e by (fastforce simp: jm_del_filter)
  show "distinct (map snd (jm_del key t))"
    using assms(2) by (simp add: jm_del_filter distinct_map_filter)
qed

lemma tm_clear_inv:
  assumes "tm_inv t evs"
  shows "tm_inv (fst (tm_clearTimer key t)) (evs @ snd (tm_clearTimer key t))"
    and "jm_has (fst (tm_clearTimer key t)) key = False"
    and "set (map snd (fst (tm_clearTimer key t))) \<subseteq> set (map snd t)"
proof -
  have "tm_inv (fst (tm_clearTimer key t)) (evs @ snd (tm_clearTimer key t)) \<and> \<not> jm_has (fst (tm_clearTimer key t)) key
    \<and> set (map snd (fst (tm_clearTimer key t))) \<subseteq> set (map snd t)"
  proof (cases "jm_get t key")
    case None
    then show ?thesis using assms by (simp add: tm_clearTimer_def jm_has_def jm_get_def)
  next
    case (Some i)
    have "i \<in> set (map snd t)" using Some by (force simp: jm_get_def dest: map_of_SomeD)
    then have "i \<noteq> 0" using assms unfolding tm_inv_def by blast
    then have c: "tm_clearTimer key t = (jm_del key t, [IntervalCleared i])"
      using Some by (simp add: tm_clearTimer_def js_truthy_def)
    have t: "jm_wf t" "distinct (map snd t)" "running evs = set (map snd t)" "\<forall>j \<in> set (map snd t). j \<noteq> 0"
      using assms by (simp_all add: tm_inv_def)
    note d = snd_jm_del [OF t(1,2) Some]
    have "running (evs @ [IntervalCleared i]) = set (map snd (jm_del key t))"
      unfolding running_append t(3) d(1) by simp
    moreover have "\<forall>j \<in> set (map snd (jm_del key t)). j \<noteq> 0" unfolding d(1) using t(4) by blast
    moreover have "\<not> jm_has (jm_del key t) key" by (simp add: jm_has_def jm_get_del)
    moreover have "set (map snd (jm_del key t)) \<subseteq> set (map snd t)" unfolding d(1) by blast
    ultimately show ?thesis
      unfolding c fst_conv snd_conv tm_inv_def using d(2) jm_wf_del [OF t(1)] by blast
  qed
  then show "tm_inv (fst (tm_clearTimer key t)) (evs @ snd (tm_clearTimer key t))"
    "jm_has (fst (tm_clearTimer key t)) key = False"
    "set (map snd (fst (tm_clearTimer key t))) \<subseteq> set (map snd t)" by blast+
qed

lemma tm_set_inv:
  assumes "tm_inv t evs" "i \<noteq> 0" "i \<notin> set (map snd t)"
  shows "tm_inv (fst (tm_setTimer key i t)) (evs @ snd (tm_setTimer key i t))"
    and "set (map snd (fst (tm_setTimer key i t))) \<subseteq> insert i (set (map snd t))"
proof -
  define r where "r = (if jm_has t key then tm_clearTimer key t else (t, []))"
  have r: "tm_inv (fst r) (evs @ snd r)" "\<not> jm_has (fst r) key" "set (map snd (fst r)) \<subseteq> set (map snd t)"
    using tm_clear_inv [OF assms(1), of key] assms(1) by (simp_all add: r_def)
  then have key: "key \<notin> set (jm_keys (fst r))" by (simp add: jm_keys_dom jm_has_def)
  have s: "tm_setTimer key i t = (fst r @ [(key, i)], snd r @ [IntervalSet i])"
    by (simp add: tm_setTimer_def r_def [symmetric] split_beta jm_set_fresh [OF key])
  have "i \<notin> set (map snd (fst r))" using r(3) assms(3) by blast
  then show "tm_inv (fst (tm_setTimer key i t)) (evs @ snd (tm_setTimer key i t))"
    using r(1) key assms(2) unfolding s fst_conv snd_conv
    by (auto simp: tm_inv_def running_def jm_wf_def jm_keys_def)
  show "set (map snd (fst (tm_setTimer key i t))) \<subseteq> insert i (set (map snd t))"
    using r(3) by (auto simp: s)
qed

lemma running_clears: "foldl running_step r (map (\<lambda>(k, i). IntervalCleared i) t) = r - set (map snd t)"
  by (induction t arbitrary: r) auto

lemma tm_run_inv:
  "tm_inv t evs \<Longrightarrow> distinct (tm_ids ops) \<Longrightarrow> 0 \<notin> set (tm_ids ops) \<Longrightarrow> set (tm_ids ops) \<inter> set (map snd t) = {}
    \<Longrightarrow> tm_inv (fst (thread tm_do ops t)) (evs @ snd (thread tm_do ops t))"
proof (induction ops arbitrary: t evs)
  case Nil
  then show ?case by simp
next
  case (Cons op ops)
  have ids: "distinct (tm_ids ops)" "0 \<notin> set (tm_ids ops)"
    using Cons.prems(2,3) by (cases op; simp add: tm_ids_def)+
  have "tm_inv (fst (tm_do op t)) (evs @ snd (tm_do op t)) \<and> set (tm_ids ops) \<inter> set (map snd (fst (tm_do op t))) = {}"
  proof (cases op)
    case (TmSet key i)
    then have i: "i \<noteq> 0" "i \<notin> set (map snd t)" "i \<notin> set (tm_ids ops)" "set (tm_ids ops) \<inter> set (map snd t) = {}"
      using Cons.prems(2-4) by (auto simp: tm_ids_def)
    have "tm_do op t = tm_setTimer key i t" by (simp add: TmSet)
    moreover have "set (tm_ids ops) \<inter> set (map snd (fst (tm_setTimer key i t))) = {}"
      using tm_set_inv(2) [OF Cons.prems(1) i(1,2), of key] i(3,4) by blast
    ultimately show ?thesis using tm_set_inv(1) [OF Cons.prems(1) i(1,2), of key] by simp
  next
    case (TmClear key)
    then have "set (tm_ids ops) \<inter> set (map snd t) = {}" using Cons.prems(4) by (simp add: tm_ids_def)
    then have "set (tm_ids ops) \<inter> set (map snd (fst (tm_clearTimer key t))) = {}"
      using tm_clear_inv(3) [OF Cons.prems(1), of key] by blast
    then show ?thesis using tm_clear_inv(1) [OF Cons.prems(1), of key] TmClear by simp
  next
    case TmClearAll
    then show ?thesis
      using Cons.prems(1) by (simp add: tm_clearAllTimers_def tm_inv_def running_append running_clears)
  qed
  from Cons.IH [OF conjunct1 [OF this] ids conjunct2 [OF this]] show ?case by (simp add: thread_Cons)
qed

text \<open>
  C38. No timer leaks. Over any sequence of operations, with the fresh nonzero numbers \<open>setInterval\<close>
  answers, the intervals that run are exactly those in the map, one per name; so setting a name again
  stops the interval it had, and after \<open>clearAllTimers\<close> none runs.
\<close>

theorem timers_no_leak:
  assumes "distinct (tm_ids ops)" "0 \<notin> set (tm_ids ops)"
  shows "running (snd (thread tm_do ops [])) = set (map snd (fst (thread tm_do ops [])))
    \<and> jm_wf (fst (thread tm_do ops []))
    \<and> running (snd (thread tm_do (ops @ [TmClearAll]) [])) = {}"
proof -
  have nil: "tm_inv [] []" by (simp add: tm_inv_def running_def)
  have "tm_ids (ops @ [TmClearAll]) = tm_ids ops" by (simp add: tm_ids_def)
  then have "tm_inv (fst (thread tm_do (ops @ [TmClearAll]) [])) (snd (thread tm_do (ops @ [TmClearAll]) []))"
    using tm_run_inv [OF nil, of "ops @ [TmClearAll]"] assms by simp
  moreover have "fst (thread tm_do (ops @ [TmClearAll]) t) = []" for t
    by (induction ops arbitrary: t) (simp_all add: thread_Cons tm_clearAllTimers_def)
  ultimately show ?thesis
    using tm_run_inv [OF nil, of ops] assms by (simp add: tm_inv_def)
qed

theorem timers_no_leak_witness:
  "running (snd (thread tm_do [TmSet ''a'' 1, TmSet ''b'' 2, TmSet ''a'' 3, TmClear ''b''] [])) = {3}"
proof -
  have "fst (thread tm_do [TmSet ''a'' 1, TmSet ''b'' 2, TmSet ''a'' 3, TmClear ''b''] []) = [(''a'', 3)]"
    by (simp add: thread_Cons tm_setTimer_def tm_clearTimer_def js_truthy_def jm_has_def jm_get_def jm_set_def jm_del_def)
  then show ?thesis
    using timers_no_leak [of "[TmSet ''a'' 1, TmSet ''b'' 2, TmSet ''a'' 3, TmClear ''b'']"] by (simp add: tm_ids_def)
qed

end
