(* ===== verification/BlockingQueue.thy ===== *)
theory BlockingQueue imports Prelude begin

text \<open>
  The bounded queue (\<open>src/blocking_queue.ts\<close>). A call of \<open>enqueue\<close> or \<open>dequeue\<close> is the sequence of
  its uninterrupted runs: the first, and one after each time it is woken. A run either ends the call
  or leaves the caller in the one slot the queue has for a waiting caller. Callers have numbers.
\<close>

record 'a bqueue =
  bq_queue :: "'a list"
  bq_maxSize :: nat
  bq_waiting :: "nat option"

datatype 'a bq_ev =
    BqWaits nat
  | BqWakes nat
  | BqPut nat 'a
  | BqGot nat 'a

definition bq_new :: "nat \<Rightarrow> 'a bqueue" where
  "bq_new maxSize = \<lparr>bq_queue = [], bq_maxSize = maxSize, bq_waiting = None\<rparr>"

definition bq_size :: "'a bqueue \<Rightarrow> nat" where
  "bq_size q = length (bq_queue q)"

definition bq_leftCapacity :: "'a bqueue \<Rightarrow> int" where
  "bq_leftCapacity q = int (bq_maxSize q) - int (length (bq_queue q))"

definition bq_isFull :: "'a bqueue \<Rightarrow> bool" where
  "bq_isFull q \<longleftrightarrow> length (bq_queue q) \<ge> bq_maxSize q"

definition bq_isEmpty :: "'a bqueue \<Rightarrow> bool" where
  "bq_isEmpty q \<longleftrightarrow> length (bq_queue q) = 0"

definition bq_clear :: "'a bqueue \<Rightarrow> 'a bqueue" where
  "bq_clear q = q\<lparr>bq_queue := []\<rparr>"

definition bq_wait :: "nat \<Rightarrow> 'a bqueue \<Rightarrow> 'a bqueue \<times> 'a bq_ev list" where
  "bq_wait w q = (q\<lparr>bq_waiting := Some w\<rparr>, [BqWaits w])"

definition bq_wake :: "'a bqueue \<Rightarrow> 'a bqueue \<times> 'a bq_ev list" where
  "bq_wake q =
     (case bq_waiting q of
        None \<Rightarrow> (q, [])
      | Some w \<Rightarrow> (q\<lparr>bq_waiting := None\<rparr>, [BqWakes w]))"

definition bq_enqueue :: "nat \<Rightarrow> 'a \<Rightarrow> 'a bqueue \<Rightarrow> 'a bqueue \<times> 'a bq_ev list" where
  "bq_enqueue w item q =
     (if bq_isFull q then bq_wait w q
      else (let (q', es) = bq_wake (q\<lparr>bq_queue := bq_queue q @ [item]\<rparr>) in (q', BqPut w item # es)))"

definition bq_dequeue :: "nat \<Rightarrow> 'a bqueue \<Rightarrow> 'a bqueue \<times> 'a bq_ev list" where
  "bq_dequeue w q =
     (case bq_queue q of
        [] \<Rightarrow> bq_wait w q
      | item # rest \<Rightarrow> (let (q', es) = bq_wake (q\<lparr>bq_queue := rest\<rparr>) in (q', BqGot w item # es)))"

subsection \<open>Any interleaving of callers\<close>

datatype 'a bq_op = BqEnqueue nat 'a | BqDequeue nat

fun bq_do :: "'a bq_op \<Rightarrow> 'a bqueue \<Rightarrow> 'a bqueue \<times> 'a bq_ev list" where
  "bq_do (BqEnqueue w item) q = bq_enqueue w item q"
| "bq_do (BqDequeue w) q = bq_dequeue w q"

fun bq_caller :: "'a bq_op \<Rightarrow> nat" where
  "bq_caller (BqEnqueue w item) = w"
| "bq_caller (BqDequeue w) = w"

definition bq_puts :: "'a bq_ev list \<Rightarrow> 'a list" where
  "bq_puts es = List.map_filter (\<lambda>e. case e of BqPut w x \<Rightarrow> Some x | _ \<Rightarrow> None) es"

definition bq_gots :: "'a bq_ev list \<Rightarrow> 'a list" where
  "bq_gots es = List.map_filter (\<lambda>e. case e of BqGot w x \<Rightarrow> Some x | _ \<Rightarrow> None) es"

lemma bq_logs [simp]:
  "bq_puts [] = []" "bq_puts (e # es) = (case e of BqPut w x \<Rightarrow> [x] | _ \<Rightarrow> []) @ bq_puts es"
  "bq_gots [] = []" "bq_gots (e # es) = (case e of BqGot w x \<Rightarrow> [x] | _ \<Rightarrow> []) @ bq_gots es"
  by (simp_all add: bq_puts_def bq_gots_def List.map_filter_simps split: bq_ev.split)

lemma bq_logs_append [simp]:
  "bq_puts (es @ fs) = bq_puts es @ bq_puts fs" "bq_gots (es @ fs) = bq_gots es @ bq_gots fs"
  by (induction es) simp_all

lemma bq_wake_parts:
  "bq_queue (fst (bq_wake q)) = bq_queue q" "bq_maxSize (fst (bq_wake q)) = bq_maxSize q"
  "bq_waiting (fst (bq_wake q)) = None" "snd (bq_wake q) = (case bq_waiting q of None \<Rightarrow> [] | Some w \<Rightarrow> [BqWakes w])"
  by (simp_all add: bq_wake_def split: option.split)

lemma bq_do_step:
  "bq_gots (snd (bq_do op q)) @ bq_queue (fst (bq_do op q)) = bq_queue q @ bq_puts (snd (bq_do op q))"
  "bq_maxSize (fst (bq_do op q)) = bq_maxSize q"
  "length (bq_queue q) \<le> bq_maxSize q \<Longrightarrow> length (bq_queue (fst (bq_do op q))) \<le> bq_maxSize q"
  by (cases op; auto simp: bq_enqueue_def bq_dequeue_def bq_wait_def bq_isFull_def split_beta bq_wake_parts
      split: list.split option.split)+

lemma bq_run_step:
  "thread bq_do ops q = (q', es) \<Longrightarrow>
     bq_gots es @ bq_queue q' = bq_queue q @ bq_puts es \<and> bq_maxSize q' = bq_maxSize q
     \<and> (length (bq_queue q) \<le> bq_maxSize q \<longrightarrow> length (bq_queue q') \<le> bq_maxSize q)"
proof (induction ops arbitrary: q q' es)
  case Nil
  then show ?case by simp
next
  case (Cons op ops)
  obtain r fs where r: "thread bq_do ops (fst (bq_do op q)) = (r, fs)" by fastforce
  then have q: "q' = r" "es = snd (bq_do op q) @ fs" using Cons.prems by (simp_all add: thread_Cons)
  have "bq_gots es @ bq_queue q' = bq_gots (snd (bq_do op q)) @ bq_queue (fst (bq_do op q)) @ bq_puts fs"
    using Cons.IH [OF r] by (simp add: q)
  also have "\<dots> = bq_queue q @ bq_puts es" using bq_do_step(1) [of op q] by (simp add: q flip: append_assoc)
  finally show ?case using Cons.IH [OF r] bq_do_step(2) [of op q] bq_do_step(3) [of q op] by (simp add: q)
qed

text \<open>
  First in, first out, bounded. Whatever the callers and their interleaving, the items taken out
  followed by those in the queue are the items put in, in order, and the queue never holds more than
  its size.
\<close>

theorem bq_fifo_bounded:
  fixes ops :: "'a bq_op list" and n :: nat
  defines "r \<equiv> thread bq_do ops (bq_new n)"
  shows "bq_gots (snd r) @ bq_queue (fst r) = bq_puts (snd r) \<and> bq_size (fst r) \<le> n"
  using bq_run_step [of ops "bq_new n" "fst r" "snd r"] by (simp add: r_def bq_new_def bq_size_def)

lemma bq_not_woken:
  "bq_waiting q \<noteq> Some w \<Longrightarrow> w \<notin> bq_caller ` set ops \<Longrightarrow> thread bq_do ops q = (q', es) \<Longrightarrow> BqWakes w \<notin> set es"
proof (induction ops arbitrary: q q' es)
  case Nil
  then show ?case by simp
next
  case (Cons op ops)
  obtain r fs where r: "thread bq_do ops (fst (bq_do op q)) = (r, fs)" by fastforce
  have one: "bq_waiting (fst (bq_do op q)) \<noteq> Some w \<and> BqWakes w \<notin> set (snd (bq_do op q))"
    using Cons.prems(1,2)
    by (cases op) (auto simp: bq_enqueue_def bq_dequeue_def bq_wait_def split_beta bq_wake_parts split: list.splits option.splits)
  have "w \<notin> bq_caller ` set ops" using Cons.prems(2) by auto
  then have "BqWakes w \<notin> set fs" using Cons.IH [OF conjunct1 [OF one] _ r] by blast
  then show ?case using one r Cons.prems(3) by (simp add: thread_Cons) (metis Un_iff set_append)
qed

text \<open>
  A second caller that waits makes the first wait for ever. When one caller waits and another
  has to wait too, the first is never woken, whatever the other callers do afterwards.
\<close>

theorem bq_lost_wakeup:
  assumes "bq_waiting q = Some w" "bq_do op q = (q1, [BqWaits w'])" "w' \<noteq> w"
    and "w \<notin> bq_caller ` set ops" "thread bq_do ops q1 = (q2, es)"
  shows "BqWakes w \<notin> set es"
proof (rule bq_not_woken [OF _ assms(4,5)])
  have "bq_waiting q1 = Some w'"
    using assms(2)
    by (cases op) (auto simp: bq_enqueue_def bq_dequeue_def bq_wait_def split_beta split: if_splits list.splits)
  then show "bq_waiting q1 \<noteq> Some w" using assms(3) by simp
qed

text \<open>Two callers wait for an item; two items come; the first caller is not woken.\<close>

theorem bq_lost_wakeup_witness:
  "bq_queue (fst (thread bq_do [BqEnqueue 3 (7 :: nat), BqEnqueue 4 8] (bq_new 5\<lparr>bq_waiting := Some 2\<rparr>))) = [7, 8]
   \<and> BqWakes 1 \<notin> set (snd (thread bq_do [BqEnqueue 3 (7 :: nat), BqEnqueue 4 8] (bq_new 5\<lparr>bq_waiting := Some 2\<rparr>)))"
  using bq_lost_wakeup [of "bq_new 5\<lparr>bq_waiting := Some 1\<rparr>" 1 "BqDequeue 2" "bq_new 5\<lparr>bq_waiting := Some 2\<rparr>" 2
      "[BqEnqueue 3 (7 :: nat), BqEnqueue 4 8]"]
  by (simp add: bq_dequeue_def bq_wait_def bq_new_def bq_enqueue_def bq_isFull_def bq_wake_def split_beta thread_Cons)

end
