(* ===== verification/Logging.thy ===== *)
theory Logging imports Addr begin

text \<open>
  Loggers and the context that hands them out (\<open>src/logger.ts\<close>, \<open>src/utp_context.ts\<close>). A \<open>Logger\<close> is
  named by its tag, under which the class keeps it; what is printed comes back as a list. The fields
  of the current date and the text of a message are parameters.
\<close>

record loggers =
  lg_globalDebug :: bool
  lg_tagDebugState :: "(string, bool) js_map"
  lg_instances :: "(string, bool) js_map"

datatype console = ConsoleLog string | ConsoleError string | ConsoleInfo string

definition logger_new :: "string \<Rightarrow> bool \<Rightarrow> loggers \<Rightarrow> loggers" where
  "logger_new tag en l =
     (if tag \<noteq> '''' then l\<lparr>lg_tagDebugState := jm_set tag en (lg_tagDebugState l)\<rparr> else l)"

definition logger_getInstance :: "string \<Rightarrow> bool \<Rightarrow> loggers \<Rightarrow> loggers" where
  "logger_getInstance tag en l =
     (if jm_has (lg_instances l) tag then l
      else (let l1 = logger_new tag en l in l1\<lparr>lg_instances := jm_set tag en (lg_instances l1)\<rparr>))"

definition logger_setGlobalDebug :: "bool \<Rightarrow> loggers \<Rightarrow> loggers" where
  "logger_setGlobalDebug en l = l\<lparr>lg_globalDebug := en\<rparr>"

definition logger_set :: "bool \<Rightarrow> string \<Rightarrow> loggers \<Rightarrow> loggers" where
  "logger_set en tag l =
     (let l1 = l\<lparr>lg_instances := jm_set tag en (lg_instances l)\<rparr>
      in if tag \<noteq> '''' then l1\<lparr>lg_tagDebugState := jm_set tag en (lg_tagDebugState l1)\<rparr> else l1)"

definition logger_enable :: "string \<Rightarrow> loggers \<Rightarrow> loggers" where
  "logger_enable tag l = logger_set True tag l"

definition logger_disable :: "string \<Rightarrow> loggers \<Rightarrow> loggers" where
  "logger_disable tag l = logger_set False tag l"

definition logger_isEnabled :: "string \<Rightarrow> loggers \<Rightarrow> bool" where
  "logger_isEnabled tag l \<longleftrightarrow> jm_get (lg_instances l) tag = Some True"

definition logger_isLogEnabled :: "string \<Rightarrow> loggers \<Rightarrow> bool" where
  "logger_isLogEnabled tag l =
     (if tag = '''' then logger_isEnabled tag l \<and> lg_globalDebug l
      else case jm_get (lg_tagDebugState l) tag of
        Some on \<Rightarrow> on
      | None \<Rightarrow> logger_isEnabled tag l \<and> lg_globalDebug l)"

definition ansi :: "string \<Rightarrow> string \<Rightarrow> string" where
  "ansi colour s = CHR 0x1B # ''['' @ colour @ ''m'' @ s @ CHR 0x1B # ''[0m''"

definition logger_prefix :: "string \<Rightarrow> string" where
  "logger_prefix tag = (if tag = '''' then '''' else ''['' @ ansi ''35'' tag @ '']'')"

definition padStart2 :: "string \<Rightarrow> string" where
  "padStart2 s = replicate (2 - length s) CHR ''0'' @ s"

record date =
  dt_year :: int
  dt_month :: int
  dt_day :: int
  dt_hour :: int
  dt_minute :: int
  dt_second :: int

text \<open>The month of a date counts from zero.\<close>

definition logger_formatTime :: "date \<Rightarrow> string" where
  "logger_formatTime d =
     int_toString (dt_year d) @ ''-'' @ int_toString (dt_month d + 1) @ ''-'' @ int_toString (dt_day d) @ '' ''
     @ int_toString (dt_hour d) @ '':'' @ padStart2 (int_toString (dt_minute d)) @ '':''
     @ padStart2 (int_toString (dt_second d))"

definition logger_line :: "string \<Rightarrow> date \<Rightarrow> string \<Rightarrow> string \<Rightarrow> string" where
  "logger_line colour d tag message =
     ''['' @ ansi colour (logger_formatTime d) @ ''] '' @ logger_prefix tag @ '' '' @ message"

definition logger_debug :: "date \<Rightarrow> string \<Rightarrow> string \<Rightarrow> loggers \<Rightarrow> console list" where
  "logger_debug d tag message l =
     (if \<not> logger_isLogEnabled tag l then [] else [ConsoleLog (logger_line ''36'' d tag message)])"

definition logger_error :: "date \<Rightarrow> string \<Rightarrow> string \<Rightarrow> console list" where
  "logger_error d tag message = [ConsoleError (logger_line ''31'' d tag message)]"

definition logger_info :: "date \<Rightarrow> string \<Rightarrow> string \<Rightarrow> console list" where
  "logger_info d tag message = [ConsoleInfo (logger_line ''32'' d tag message)]"

subsection \<open>The context\<close>

record config =
  cf_logLevel :: int
  cf_enableDebug :: bool
  cf_rtoMin :: int
  cf_rtoMax :: int
  cf_resendLimit :: int
  cf_windowSize :: "int \<times> int"

record utp_context =
  cx_config :: config
  cx_listenerType :: string
  cx_loggers :: "(string, string) js_map"
  cx_static :: loggers

definition cx_new :: "loggers \<Rightarrow> utp_context" where
  "cx_new l = \<lparr>cx_config = \<lparr>cf_logLevel = 1, cf_enableDebug = False, cf_rtoMin = 500, cf_rtoMax = 10000,
       cf_resendLimit = 5, cf_windowSize = (4, 9007199254740991)\<rparr>,
     cx_listenerType = ''UNKNOWN'', cx_loggers = [], cx_static = l\<rparr>"

text \<open>The context is made at the first call; \<open>l\<close> are the static members of \<open>Logger\<close>. Later calls answer the same.\<close>

definition cx_getInstance :: "loggers \<Rightarrow> utp_context option \<Rightarrow> utp_context option \<times> utp_context" where
  "cx_getInstance l inst = (case inst of None \<Rightarrow> (Some (cx_new l), cx_new l) | Some c \<Rightarrow> (Some c, c))"

lemma getInstance_once: "cx_getInstance l' (fst (cx_getInstance l i)) = cx_getInstance l i"
  by (cases i) (simp_all add: cx_getInstance_def)

definition cx_setListenerType :: "string \<Rightarrow> utp_context \<Rightarrow> utp_context" where
  "cx_setListenerType type c =
     (if type = cx_listenerType c then c else c\<lparr>cx_listenerType := type, cx_loggers := []\<rparr>)"

definition cx_getLogger :: "string \<Rightarrow> utp_context \<Rightarrow> string \<times> utp_context" where
  "cx_getLogger moduleType c =
     (let key = cx_listenerType c @ '':'' @ moduleType in
      case jm_get (cx_loggers c) key of
        Some logger \<Rightarrow> (logger, c)
      | None \<Rightarrow>
          (key, c\<lparr>cx_static := logger_getInstance key (cf_enableDebug (cx_config c)) (cx_static c),
                  cx_loggers := jm_set key key (cx_loggers c)\<rparr>))"

definition cx_setLogLevel :: "int \<Rightarrow> utp_context \<Rightarrow> utp_context" where
  "cx_setLogLevel level c = c\<lparr>cx_config := (cx_config c)\<lparr>cf_logLevel := level\<rparr>\<rparr>"

definition cx_setDebug :: "bool \<Rightarrow> utp_context \<Rightarrow> utp_context" where
  "cx_setDebug en c =
     c\<lparr>cx_config := (cx_config c)\<lparr>cf_enableDebug := en\<rparr>,
       cx_static := fold (\<lambda>logger. if en then logger_enable logger else logger_disable logger)
         (map snd (cx_loggers c)) (logger_setGlobalDebug en (cx_static c))\<rparr>"

definition cx_getConfig :: "utp_context \<Rightarrow> config" where
  "cx_getConfig c = cx_config c"

text \<open>\<open>updateConfig\<close> with the fields its argument has.\<close>

definition cx_updateConfig :: "(config \<Rightarrow> config) \<Rightarrow> utp_context \<Rightarrow> utp_context" where
  "cx_updateConfig newConfig c = c\<lparr>cx_config := newConfig (cx_config c)\<rparr>"

subsection \<open>Who hears the debug switch\<close>

text \<open>What a program does with the context while the type of the listener stays.\<close>

datatype cx_op = CxGetLogger string | CxSetDebug bool | CxSetLogLevel int

fun cx_do :: "cx_op \<Rightarrow> utp_context \<Rightarrow> utp_context" where
  "cx_do (CxGetLogger m) c = snd (cx_getLogger m c)"
| "cx_do (CxSetDebug en) c = cx_setDebug en c"
| "cx_do (CxSetLogLevel level) c = cx_setLogLevel level c"

definition cx_inv :: "utp_context \<Rightarrow> bool" where
  "cx_inv c \<longleftrightarrow> (\<forall>(k, tag) \<in> set (cx_loggers c). tag = k \<and> tag \<noteq> '''')
     \<and> (\<forall>k. jm_has (lg_instances (cx_static c)) k \<longrightarrow> (k, k) \<in> set (cx_loggers c)
          \<and> jm_get (lg_tagDebugState (cx_static c)) k = Some (cf_enableDebug (cx_config c)))
     \<and> (\<forall>(k, tag) \<in> set (cx_loggers c). jm_has (lg_instances (cx_static c)) k)"

lemma logger_set_parts:
  "tag \<noteq> '''' \<Longrightarrow> jm_get (lg_tagDebugState (logger_set en tag l)) k = (if k = tag then Some en else jm_get (lg_tagDebugState l) k)"
  "jm_has (lg_instances (logger_set en tag l)) k \<longleftrightarrow> k = tag \<or> jm_has (lg_instances l) k"
  by (simp_all add: logger_set_def Let_def jm_get_set jm_has_def)

lemma fold_logger_set:
  "\<forall>tag \<in> set tags. tag \<noteq> '''' \<Longrightarrow>
     jm_get (lg_tagDebugState (fold (logger_set en) tags l)) k
       = (if k \<in> set tags then Some en else jm_get (lg_tagDebugState l) k)
     \<and> (jm_has (lg_instances (fold (logger_set en) tags l)) k \<longleftrightarrow> k \<in> set tags \<or> jm_has (lg_instances l) k)"
  by (induction tags arbitrary: l) (auto simp: logger_set_parts)

lemma cx_setDebug_set:
  "cx_setDebug en c = c\<lparr>cx_config := (cx_config c)\<lparr>cf_enableDebug := en\<rparr>,
     cx_static := fold (logger_set en) (map snd (cx_loggers c)) (logger_setGlobalDebug en (cx_static c))\<rparr>"
proof -
  have "(\<lambda>logger. if en then logger_enable logger else logger_disable logger) = logger_set en"
    by (auto simp: fun_eq_iff logger_enable_def logger_disable_def)
  then show ?thesis by (simp add: cx_setDebug_def)
qed

lemma cx_do_inv:
  assumes "cx_inv c" shows "cx_inv (cx_do op c)"
proof (cases op)
  case (CxGetLogger m)
  define k where "k = cx_listenerType c @ '':'' @ m"
  have k: "k \<noteq> ''''" by (simp add: k_def)
  show ?thesis
  proof (cases "jm_get (cx_loggers c) k")
    case (Some tag)
    then show ?thesis using assms CxGetLogger by (simp add: cx_getLogger_def Let_def k_def)
  next
    case None
    have n: "\<not> jm_has (lg_instances (cx_static c)) k"
    proof
      assume "jm_has (lg_instances (cx_static c)) k"
      then have "(k, k) \<in> set (cx_loggers c)" using assms by (simp add: cx_inv_def)
      then show False using None by (force simp: jm_get_def map_of_eq_None_iff)
    qed
    have "k \<notin> set (jm_keys (cx_loggers c))" using None by (simp add: jm_keys_dom)
    then have s: "jm_set k k (cx_loggers c) = cx_loggers c @ [(k, k)]" by (rule jm_set_fresh)
    have "cx_do op c = c\<lparr>cx_static := logger_getInstance k (cf_enableDebug (cx_config c)) (cx_static c),
        cx_loggers := cx_loggers c @ [(k, k)]\<rparr>"
      using CxGetLogger None s unfolding k_def by (simp add: cx_getLogger_def Let_def)
    then show ?thesis
      using assms n k
      by (auto simp: cx_inv_def logger_getInstance_def logger_new_def Let_def jm_get_set jm_has_def)
  qed
next
  case (CxSetDebug en)
  have tags: "map snd (cx_loggers c) = map fst (cx_loggers c)" "\<forall>tag \<in> set (map snd (cx_loggers c)). tag \<noteq> ''''"
    using assms by (auto simp: cx_inv_def)
  note f = fold_logger_set [OF tags(2), of en "logger_setGlobalDebug en (cx_static c)"]
  have "k \<in> set (map snd (cx_loggers c)) \<longleftrightarrow> jm_has (lg_instances (cx_static c)) k" for k
    using assms by (force simp: cx_inv_def)
  then show ?thesis
    using assms CxSetDebug f by (auto simp: cx_inv_def cx_setDebug_set logger_setGlobalDebug_def)
next
  case (CxSetLogLevel level)
  then show ?thesis using assms by (simp add: cx_inv_def cx_setLogLevel_def)
qed

text \<open>
  The debug switch is heard. For a program that names its listener once, before anything else:
  whatever loggers it asks for and however often it turns debugging on and off, a logger of the
  context, old or new, prints a debug message exactly when debugging is on.
\<close>

theorem debug_switch_heard:
  fixes ops :: "cx_op list" and d :: date and m message type :: string and g :: bool
  defines "c \<equiv> fold cx_do ops (cx_setListenerType type
             (cx_new \<lparr>lg_globalDebug = g, lg_tagDebugState = [], lg_instances = []\<rparr>))"
  defines "r \<equiv> cx_getLogger m c"
  shows "logger_debug d (fst r) message (cx_static (snd r))
    = (if cf_enableDebug (cx_getConfig c) then [ConsoleLog (logger_line ''36'' d (fst r) message)] else [])"
proof -
  have i: "cx_inv (fold cx_do ops c0)" if "cx_inv c0" for c0
    using that by (induction ops arbitrary: c0) (simp_all add: cx_do_inv)
  have c: "cx_inv c"
    unfolding c_def by (rule i) (simp add: cx_inv_def cx_setListenerType_def cx_new_def jm_has_def)
  then have r: "cx_inv (snd r)" using cx_do_inv [OF c, of "CxGetLogger m"] by (simp add: r_def)
  have conf: "cx_config (snd r) = cx_config c"
    by (simp add: r_def cx_getLogger_def Let_def split: option.split)
  have "(fst r, fst r) \<in> set (cx_loggers (snd r))"
  proof (cases "jm_get (cx_loggers c) (cx_listenerType c @ '':'' @ m)")
    case None
    then have "jm_get (cx_loggers (snd r)) (fst r) = Some (fst r)"
      by (simp add: r_def cx_getLogger_def Let_def jm_get_set)
    then show ?thesis by (simp add: jm_get_def map_of_SomeD)
  next
    case (Some tag)
    then have e: "(cx_listenerType c @ '':'' @ m, tag) \<in> set (cx_loggers c)" by (simp add: jm_get_def map_of_SomeD)
    then have "tag = cx_listenerType c @ '':'' @ m" using c by (auto simp: cx_inv_def)
    then show ?thesis using e Some by (simp add: r_def cx_getLogger_def Let_def)
  qed
  then have "jm_has (lg_instances (cx_static (snd r))) (fst r)" "fst r \<noteq> ''''" using r by (auto simp: cx_inv_def)
  then have "logger_isLogEnabled (fst r) (cx_static (snd r)) = cf_enableDebug (cx_config c)"
    using r conf by (simp add: cx_inv_def logger_isLogEnabled_def)
  then show ?thesis by (simp add: logger_debug_def cx_getConfig_def)
qed

text \<open>
  The switch misses loggers of another listener. A logger handed out before the context was given
  another listener type (as the constructor of a second socket does) does not hear debugging turned
  on, and stays silent even when the type is set back and the logger asked for again.
\<close>

theorem debug_switch_missed:
  fixes d :: date and m message other :: string and c :: utp_context
  assumes "\<not> jm_has (lg_instances (cx_static c)) (cx_listenerType c @ '':'' @ m)"
    and "\<not> jm_has (cx_loggers c) (cx_listenerType c @ '':'' @ m)"
    and "\<not> cf_enableDebug (cx_config c)" "other \<noteq> cx_listenerType c"
  defines "r \<equiv> cx_getLogger m c"
  defines "c2 \<equiv> cx_setDebug True (cx_setListenerType other (snd r))"
  defines "r3 \<equiv> cx_getLogger m (cx_setListenerType (cx_listenerType c) c2)"
  shows "logger_debug d (fst r) message (cx_static c2) = [] \<and> fst r3 = fst r
    \<and> logger_debug d (fst r3) message (cx_static (snd r3)) = []"
proof -
  let ?k = "cx_listenerType c @ '':'' @ m"
  have none: "jm_get (cx_loggers c) ?k = None" using assms(2) by (simp add: jm_has_def)
  have t: "fst r = ?k" "cx_listenerType (snd r) = cx_listenerType c"
    "jm_get (lg_tagDebugState (cx_static (snd r))) ?k = Some False" "jm_has (lg_instances (cx_static (snd r))) ?k"
    using assms(1,3) none
    by (simp_all add: r_def cx_getLogger_def Let_def logger_getInstance_def logger_new_def jm_get_set jm_has_def)
  have c2: "cx_loggers c2 = []" "cx_listenerType c2 = other" "cx_static c2 = logger_setGlobalDebug True (cx_static (snd r))"
    using assms(4) t(2) by (simp_all add: c2_def cx_setDebug_def cx_setListenerType_def)
  have r3: "fst r3 = ?k" "cx_static (snd r3) = cx_static c2"
    using assms(4) c2 t(4)
    by (simp_all add: r3_def cx_getLogger_def cx_setListenerType_def Let_def logger_getInstance_def logger_setGlobalDebug_def)
  show ?thesis
    using t r3 c2(3) by (simp add: logger_debug_def logger_isLogEnabled_def logger_setGlobalDebug_def)
qed

theorem debug_switch_missed_witness:
  "logger_debug \<lparr>dt_year = 2024, dt_month = 0, dt_day = 1, dt_hour = 0, dt_minute = 0, dt_second = 0\<rparr> ''UNKNOWN:X'' ''hello''
     (cx_static (cx_setDebug True (cx_setListenerType ''B'' (snd (cx_getLogger ''X''
       (cx_new \<lparr>lg_globalDebug = False, lg_tagDebugState = [], lg_instances = []\<rparr>)))))) = []"
  using debug_switch_missed [where d = "\<lparr>dt_year = 2024, dt_month = 0, dt_day = 1, dt_hour = 0, dt_minute = 0, dt_second = 0\<rparr>"
      and m = "''X''" and message = "''hello''" and other = "''B''"
      and c = "cx_new \<lparr>lg_globalDebug = False, lg_tagDebugState = [], lg_instances = []\<rparr>"]
  by (simp add: cx_new_def cx_getLogger_def Let_def jm_has_def)

end
