(* ===== verification/ConnFrame.thy ===== *)
theory ConnFrame imports ConnReceive begin

text \<open>
  What the parts of a connection's methods leave alone. \<open>still A\<close>: identity, state, FIN and sequence
  number do not change, the socket's table is not touched, and every numbered packet that is sent or
  enters the send window is in \<open>A\<close> or was in the window before.
\<close>

subsection \<open>The packets in the send window\<close>

lemma jm_set_subset: "set (jm_set k v m) \<subseteq> insert (k, v) (set m)"
  unfolding jm_set_def by (rule set_update_subset_aux)

lemma fold_jm_set_subset: "set (fold (\<lambda>(k, v). jm_set k v) ws m) \<subseteq> set m \<union> set ws"
proof (induction ws arbitrary: m)
  case Nil
  then show ?case by simp
next
  case (Cons w ws)
  obtain k v where w: "w = (k, v)" by (cases w)
  have "set (fold (\<lambda>(k, v). jm_set k v) (w # ws) m) \<subseteq> set (jm_set k v m) \<union> set ws"
    using Cons.IH [of "jm_set k v m"] by (simp add: w)
  then show ?case using jm_set_subset [of k v m] w by auto
qed

lemma bm_all_resolve_subset: "set (bm_all (fst (bm_resolveNextSetter m))) \<subseteq> set (bm_all m)"
proof -
  let ?r = "bm_resolveNextSetter m"
  have w: "set (bm_waiting m) = set (snd ?r) \<union> set (bm_waiting (fst ?r))"
    using arg_cong [OF bm_resolve_fifo [of m], of set] by simp
  have "set (bm_map (fst ?r)) \<subseteq> set (bm_map m) \<union> set (snd ?r)"
    unfolding bm_resolve_map by (rule fold_jm_set_subset)
  then show ?thesis unfolding bm_all_def set_append w by blast
qed

lemma bm_all_delete_subset: "set (bm_all (fst (bm_delete k m))) \<subseteq> set (bm_all m)"
  using bm_all_resolve_subset [of "m\<lparr>bm_map := jm_del k (bm_map m)\<rparr>"]
  by (auto simp: bm_delete_def bm_all_def jm_del_filter)

lemma bm_all_update_subset: "set (bm_all (fst (bm_updateCapacity c m))) \<subseteq> set (bm_all m)"
  using bm_all_resolve_subset [of "m\<lparr>bm_capacity := c\<rparr>"] by (simp add: bm_updateCapacity_def bm_all_def)

lemma bm_all_set_subset: "set (bm_all (fst (bm_set k v m))) \<subseteq> insert (k, v) (set (bm_all m))"
  using bm_all_resolve_subset [of "m\<lparr>bm_map := jm_set k v (bm_map m)\<rparr>"] jm_set_subset [of k v "bm_map m"]
  by (auto simp: bm_set_split bm_all_def)

lemma sw_apply_subset: "set (sw_outstanding (fst (sw_applyWindowSize s))) \<subseteq> set (sw_outstanding s)"
  using bm_all_update_subset by (simp add: sw_apply_eq sw_outstanding_def)

lemma sw_handleAck_subset: "set (sw_outstanding (fst (sw_handleAck clk p s))) \<subseteq> set (sw_outstanding s)"
proof -
  let ?P = "\<lambda>t. set (sw_outstanding t) \<subseteq> set (sw_outstanding s)"
  have "?P (fst (sw_afterSack clk p s))"
    unfolding sw_afterSack_def
    by (rule thread_invariant [where P = ?P])
      (auto simp: sw_outstanding_def sackStep_map dest: set_mp [OF bm_all_delete_subset])
  then have "?P (fst (sw_afterLoops clk p s))"
    unfolding sw_afterLoops_def
    by (rule thread_invariant [where P = ?P, rotated])
      (auto simp: sw_outstanding_def cumulativeStep_map dest: set_mp [OF bm_all_delete_subset])
  then have "?P ((fst (sw_afterLoops clk p s))\<lparr>sw_cc := c\<rparr>)" for c by simp
  then show ?thesis
    unfolding sw_handleAck_eq Let_def fst_conv using order_trans [OF sw_apply_subset] by blast
qed

lemma sw_handleAck_released: "set (snd (sw_handleAck clk p s)) \<subseteq> set (sw_outstanding s)"
  using sw_handleAck_release [of s clk p] by (auto simp: sw_outstanding_def bm_all_def)

lemma sw_reset_subset:
  "set (sw_outstanding (fst (sw_reset s))) \<subseteq> set (sw_outstanding s)" "set (snd (sw_reset s)) \<subseteq> set (sw_outstanding s)"
proof -
  let ?m = "bm_clear (sw_packetMap s)"
  have c: "set (bm_all ?m) \<subseteq> set (sw_outstanding s)" "set (bm_waiting ?m) \<subseteq> set (sw_outstanding s)"
    by (simp_all add: bm_clear_def bm_all_def sw_outstanding_def)
  show "set (sw_outstanding (fst (sw_reset s))) \<subseteq> set (sw_outstanding s)"
    using bm_all_update_subset [of "sw_minWindow s" ?m] c(1)
    by (simp add: sw_reset_def split_beta sw_outstanding_def)
  show "set (snd (sw_reset s)) \<subseteq> set (sw_outstanding s)"
    using bm_updateCapacity_fifo [of ?m "sw_minWindow s"] c(2) by (auto simp: sw_reset_def split_beta)
qed

text \<open>The packets of the window, in flight or waiting to be.\<close>

definition sw_packets :: "send_window \<Rightarrow> packet set" where
  "sw_packets w = (\<lambda>e. pi_packet (snd e)) ` set (sw_outstanding w)"

lemma sw_packets_mono: "set (sw_outstanding w') \<subseteq> set (sw_outstanding w) \<Longrightarrow> sw_packets w' \<subseteq> sw_packets w"
  by (auto simp: sw_packets_def)

lemma released_packets:
  "set rel \<subseteq> set (sw_outstanding w) \<Longrightarrow> (\<lambda>e. pi_packet (snd e)) ` set rel \<subseteq> sw_packets w"
  by (auto simp: sw_packets_def)

definition out_packet :: "sw_out \<Rightarrow> packet" where
  "out_packet out = (case out of SwSend p a \<Rightarrow> p | SwAdmit k info \<Rightarrow> pi_packet info)"

lemma sw_resendOne_packets:
  "sw_packets (fst (sw_resendOne now k w)) \<subseteq> sw_packets w"
  "out \<in> set (snd (sw_resendOne now k w)) \<Longrightarrow> out_packet out \<in> sw_packets w"
proof -
  have "sw_packets (fst (sw_resendOne now k w)) \<subseteq> sw_packets w
    \<and> out_packet ` set (snd (sw_resendOne now k w)) \<subseteq> sw_packets w"
  proof (cases rule: sw_resendOne_cases [of now k w])
    case skip
    then show ?thesis by simp
  next
    case (send info)
    let ?info = "info\<lparr>pi_resendTimes := pi_resendTimes info + 1, pi_sentTime := now\<rparr>"
    have "(k, info) \<in> set (sw_outstanding w)"
      using send(1) by (auto simp: sw_outstanding_def bm_all_def bm_get_def jm_get_def dest: map_of_SomeD)
    then have p: "pi_packet info \<in> sw_packets w" by (force simp: sw_packets_def)
    have "set (jm_set k ?info (sw_outstanding w)) \<subseteq> insert (k, ?info) (set (sw_outstanding w))"
      by (rule jm_set_subset)
    then have "sw_packets (fst (sw_resendOne now k w)) \<subseteq> insert (pi_packet ?info) (sw_packets w)"
      unfolding sw_packets_def sw_resendOne_update(2) [OF send] by auto
    then show ?thesis using p by (simp add: sw_resendOne_update(1) [OF send] out_packet_def insert_absorb)
  next
    case (drop info)
    let ?w0 = "w\<lparr>sw_cc := cc_onPacketLoss (sw_cc w)\<rparr>"
    let ?w1 = "fst (sw_applyWindowSize ?w0)"
    have r: "sw_resendOne now k w = (?w1\<lparr>sw_packetMap := fst (bm_delete k (sw_packetMap ?w1))\<rparr>,
      admits (snd (sw_applyWindowSize ?w0) @ snd (bm_delete k (sw_packetMap ?w1))))"
      using drop by (simp add: sw_resendOne_def split_beta)
    have s1: "set (sw_outstanding ?w1) \<subseteq> set (sw_outstanding w)"
      using sw_apply_subset [of ?w0] by simp
    have "set (sw_outstanding (fst (sw_resendOne now k w))) \<subseteq> set (sw_outstanding w)"
      using s1 bm_all_delete_subset [of k "sw_packetMap ?w1"] by (auto simp: r sw_outstanding_def)
    moreover have rel: "set (snd (sw_applyWindowSize ?w0)) \<subseteq> set (sw_outstanding w)"
      using bm_updateCapacity_fifo [of "sw_packetMap w" "sw_windowSize ?w0"]
      by (auto simp: sw_apply_eq sw_outstanding_def bm_all_def)
    moreover have "set (snd (bm_delete k (sw_packetMap ?w1))) \<subseteq> set (sw_outstanding w)"
      using bm_delete_fifo [of "sw_packetMap ?w1" k] s1 by (auto simp: sw_outstanding_def bm_all_def)
    ultimately show ?thesis
      using released_packets [of "snd (sw_applyWindowSize ?w0) @ snd (bm_delete k (sw_packetMap ?w1))" w]
      by (auto simp: r admits_def out_packet_def dest: set_mp [OF sw_packets_mono])
  qed
  then show "sw_packets (fst (sw_resendOne now k w)) \<subseteq> sw_packets w"
    "out \<in> set (snd (sw_resendOne now k w)) \<Longrightarrow> out_packet out \<in> sw_packets w"
    by blast+
qed

lemma sw_waitForAck_packets:
  "sw_packets (fst (sw_waitForAck now p a w)) \<subseteq> insert p (sw_packets w)"
  "(\<lambda>e. pi_packet (snd e)) ` set (snd (snd (sw_waitForAck now p a w))) \<subseteq> insert p (sw_packets w)"
proof -
  let ?i = "\<lparr>pi_packet = p, pi_resendTimes = 0, pi_ackCount = 0, pi_sentTime = now, pi_remoteAddr = a\<rparr>"
  have "set (sw_outstanding (fst (sw_waitForAck now p a w))) \<subseteq> insert (pk_seqNr p, ?i) (set (sw_outstanding w))"
    using bm_all_set_subset by (simp add: sw_waitForAck_def split_beta sw_outstanding_def)
  then show "sw_packets (fst (sw_waitForAck now p a w)) \<subseteq> insert p (sw_packets w)"
    by (force simp: sw_packets_def)
  have "set (snd (snd (bm_set (pk_seqNr p) ?i (sw_packetMap w)))) \<subseteq>
      set (bm_waiting (sw_packetMap w)) \<union> {(pk_seqNr p, ?i)}"
    using arg_cong [OF bm_set_fifo [of "sw_packetMap w" "pk_seqNr p" ?i], of set] by (simp split: if_splits) blast+
  then have "set (snd (snd (sw_waitForAck now p a w))) \<subseteq> insert (pk_seqNr p, ?i) (set (sw_outstanding w))"
    by (simp add: sw_waitForAck_def split_beta sw_outstanding_def bm_all_def) blast
  then show "(\<lambda>e. pi_packet (snd e)) ` set (snd (snd (sw_waitForAck now p a w))) \<subseteq> insert p (sw_packets w)"
    by (force simp: sw_packets_def)
qed

subsection \<open>The frame\<close>

text \<open>The packets that take a sequence number of their own.\<close>

definition numbered :: "packet \<Rightarrow> bool" where
  "numbered p \<longleftrightarrow> pk_type p = ST_DATA \<or> pk_type p = ST_FIN \<or> pk_type p = ST_SYN"

definition numbered_sends :: "conn_ev list \<Rightarrow> packet set" where
  "numbered_sends es = {p. numbered p \<and> (\<exists>a. EvSend p a \<in> set es)}"

lemma numbered_sends_simps [simp]:
  "numbered_sends [] = {}"
  "numbered_sends (e # es) = (case e of EvSend p a \<Rightarrow> if numbered p then insert p (numbered_sends es) else numbered_sends es
     | _ \<Rightarrow> numbered_sends es)"
  "numbered_sends (es @ fs) = numbered_sends es \<union> numbered_sends fs"
  by (auto simp: numbered_sends_def split: conn_ev.split)

text \<open>The events that do not concern the socket's table.\<close>

fun off_table :: "conn_ev \<Rightarrow> bool" where
  "off_table (EvAddConn x) = False"
| "off_table (EvRemoveConn x) = False"
| "off_table _ = True"

definition still :: "packet set \<Rightarrow> conn \<Rightarrow> conn_ev list \<Rightarrow> conn \<Rightarrow> bool" where
  "still A s es t \<longleftrightarrow>
     cn_recvId t = cn_recvId s \<and> cn_sendId t = cn_sendId s \<and> cn_remoteAddr t = cn_remoteAddr s
     \<and> cn_state t = cn_state s \<and> cn_localFin t = cn_localFin s \<and> cn_seqNr t = cn_seqNr s
     \<and> list_all off_table es \<and> numbered_sends es \<subseteq> A \<union> sw_packets (cn_sendWindow s)
     \<and> sw_packets (cn_sendWindow t) \<subseteq> A \<union> sw_packets (cn_sendWindow s)"

interpretation still: history "still A" for A
proof
  fix s es t fs u
  assume "still A s es t" "still A t fs u"
  then have "numbered_sends (es @ fs) \<subseteq> A \<union> sw_packets (cn_sendWindow s)"
    "sw_packets (cn_sendWindow u) \<subseteq> A \<union> sw_packets (cn_sendWindow s)"
    unfolding still_def numbered_sends_simps by blast+
  then show "still A s (es @ fs) u"
    using \<open>still A s es t\<close> \<open>still A t fs u\<close> by (simp add: still_def)
qed (simp add: still_def)

lemma resumed_off_table: "list_all off_table (resumed s rel)"
  by (induction rel) (auto simp: resumed_def)

lemma resumed_sends: "numbered_sends (resumed s rel) \<subseteq> (\<lambda>e. pi_packet (snd e)) ` set rel"
  by (induction rel) (auto simp: resumed_def split: if_splits)

lemma resumed_within:
  "(\<lambda>e. pi_packet (snd e)) ` set rel \<subseteq> B \<Longrightarrow> numbered_sends (resumed s rel) \<subseteq> B"
  using resumed_sends [of s rel] by blast

lemma read_events_still: "list_all off_table (read_events outs)" "numbered_sends (read_events outs) = {}"
  by (induction outs) (auto simp: read_events_def)

lemma settle_events_still:
  "list_all off_table (snd (notifyLoop st i n ls))" "numbered_sends (snd (notifyLoop st i n ls)) = {}"
  by (induction st i n ls rule: notifyLoop.induct) (auto simp: split_beta)

lemma obeys_at: "obeys H m \<Longrightarrow> obeys_at H m s"
  by (simp add: obeys_def)

subsection \<open>The parts that keep it\<close>

lemma obeys_utp_send: "\<not> numbered p \<or> p \<in> A \<Longrightarrow> obeys (still A) (utp_send env p a)"
  by (auto simp: obeys_def obeys_at_def utp_send_parts still_def)

lemma obeys_waitForAck: "obeys (still {p}) (conn_waitForAck env p)"
proof (rule obeysI)
  fix s :: conn
  let ?r = "sw_waitForAck (env_now env) p (cn_remoteAddr s) (cn_sendWindow s)"
  have "numbered_sends (resumed s (snd (snd ?r))) \<subseteq> insert p (sw_packets (cn_sendWindow s))"
    by (rule resumed_within [OF sw_waitForAck_packets(2)])
  then show "obeys_at (still {p}) (conn_waitForAck env p) s"
    using sw_waitForAck_packets(1) by (simp add: obeys_at_def conn_waitForAck_def eff_parts split_beta still_def resumed_off_table)
qed

lemma obeys_sendUtpPacket: "obeys (still {p}) (conn_sendUtpPacket env p)"
  unfolding conn_sendUtpPacket_def
  by (intro still.obeys_intros still.obeys_steps)
    (auto simp: still_def obeys_waitForAck obeys_utp_send intro!: still.obeys_intros obeys_waitForAck obeys_utp_send)

lemma obeys_sendPlain:
  assumes "\<not> numbered p" shows "obeys (still A) (conn_sendUtpPacket env p)"
proof -
  have n: "pk_type p \<noteq> ST_DATA \<and> pk_type p \<noteq> ST_FIN" using assms by (simp add: numbered_def)
  have "obeys_at (still A) (conn_sendUtpPacket env p) s" for s
    using n assms sendUtp_direct [of s p env]
    by (cases "cn_state s = CS_CLOSED") (simp_all add: obeys_at_def still_def conn_sendUtpPacket_def conn_isClosed_def eff_parts)
  then show ?thesis by (rule obeysI)
qed

lemma obeys_handleAck: "obeys (still A) (conn_handleAck env p)"
proof -
  have "still A s (snd (case sw_handleAck (env_clk env) p (cn_sendWindow s) of (sw, rel) \<Rightarrow> (s\<lparr>cn_sendWindow := sw\<rparr>, resumed s rel)))
       (fst (case sw_handleAck (env_clk env) p (cn_sendWindow s) of (sw, rel) \<Rightarrow> (s\<lparr>cn_sendWindow := sw\<rparr>, resumed s rel)))" for s
    by (simp add: still_def split_beta resumed_off_table le_supI2
        resumed_within [OF released_packets [OF sw_handleAck_released]] sw_packets_mono [OF sw_handleAck_subset])
  then show ?thesis unfolding conn_handleAck_def Let_def by (rule still.obeys_steps)
qed

lemma ack_plain: "\<not> numbered (createAckPacket env k s)"
  by (simp add: numbered_def ack_type packet_types)

lemma obeys_sendAck: "obeys (still A) (conn_sendAck env)"
  unfolding conn_sendAck_def
  by (intro obeysI still.at_control(2) obeys_at [OF obeys_sendPlain] ack_plain)

lemma obeys_drain: "obeys (still A) conn_drain"
  unfolding conn_drain_def by (intro still.obeys_steps) (auto simp: still_def split_beta read_events_still)

lemma obeys_statRelease: "obeys (still A) conn_statRelease"
  unfolding conn_statRelease_def by (intro still.obeys_steps) (simp add: still_def)

lemma obeys_recvWrite: "obeys (still A) (conn_recvWrite d)"
  unfolding conn_recvWrite_def
  by (intro still.obeys_then still.obeys_steps) (simp_all add: still_def split_beta read_events_still)

lemma obeys_processOne: "obeys (still A) (processOne k)"
  unfolding processOne_def
  by (intro still.obeys_read)
    (auto simp: still_def set_localAckNr_def split: option.splits
      intro!: still.obeys_intros still.obeys_steps obeys_recvWrite)

lemma obeys_processReceivedPackets: "obeys (still A) processReceivedPackets"
  unfolding processReceivedPackets_def by (intro still.obeys_intros obeys_processOne)

lemma obeys_connRead: "obeys (still A) (conn_read r n)"
  unfolding conn_read_def
  by (intro still.obeys_read)
    (auto simp: still_def read_events_still split: sum.splits intro!: still.obeys_intros still.obeys_steps)

lemma obeys_connectTimeout: "obeys (still A) (conn_connectTimeout pid)"
  unfolding conn_connectTimeout_def
  by (intro still.obeys_steps) (simp add: still_def conn_removeListener_def)

lemma obeys_statTick: "obeys (still A) conn_statTick"
  unfolding conn_statTick_def
  by (intro still.obeys_steps) (simp add: still_def)

lemma obeys_addListener: "obeys (still A) (eff_modify (conn_addListener pid))"
  by (intro still.obeys_steps) (simp add: still_def conn_addListener_def)

lemma obeys_keepAlive: "obeys (still A) (conn_keepAlive env)"
  unfolding conn_keepAlive_def
  by (intro still.obeys_intros still.obeys_steps obeys_sendAck) (simp add: still_def)

lemma obeys_resendOne: "obeys (still A) (conn_resendOne env k)"
proof (rule obeysI)
  fix s :: conn
  let ?r = "sw_resendOne (env_now env) k (cn_sendWindow s)"
  let ?W = "A \<union> sw_packets (cn_sendWindow s)"
  let ?f = "\<lambda>out. case out of
      SwSend p addr \<Rightarrow> eff_bind (utp_send env p addr) (\<lambda>_. eff_return ())
    | SwAdmit k info \<Rightarrow> eff_update (\<lambda>s :: conn. (s, resumed s [(k, info)]))"
  have run: "conn_resendOne env k s
    = eff_then (eff_modify (\<lambda>s. s\<lparr>cn_sendWindow := fst ?r\<rparr>)) (eff_forEach ?f (snd ?r)) s"
    by (simp add: conn_resendOne_def split_beta)
  have "obeys (still ?W) (?f out)" if "out \<in> set (snd ?r)" for out
  proof (cases out)
    case (SwSend p a)
    then show ?thesis
      using sw_resendOne_packets(2) [OF that] by (auto simp: out_packet_def intro!: still.obeys_intros obeys_utp_send)
  next
    case (SwAdmit j i)
    then have "(\<lambda>e. pi_packet (snd e)) ` set [(j, i)] \<subseteq> ?W"
      using sw_resendOne_packets(2) [OF that] by (simp add: out_packet_def)
    from resumed_within [OF this] show ?thesis
      using SwAdmit by (auto simp: still_def resumed_off_table le_supI1 simp del: numbered_sends_simps intro!: still.obeys_steps)
  qed
  then have "obeys (still ?W) (eff_forEach ?f (snd ?r))"
    by (intro still.forEach_elem obeys_at)
  moreover have "obeys_at (still ?W) (eff_modify (\<lambda>s. s\<lparr>cn_sendWindow := fst ?r\<rparr>)) s"
    using sw_resendOne_packets(1) by (intro still.at_steps) (auto simp: still_def)
  ultimately have "obeys_at (still ?W) (eff_then (eff_modify (\<lambda>s. s\<lparr>cn_sendWindow := fst ?r\<rparr>)) (eff_forEach ?f (snd ?r))) s"
    by (auto intro: still.at_then obeys_at)
  then show "obeys_at (still A) (conn_resendOne env k) s" by (simp add: obeys_at_def run still_def)
qed

lemma obeys_windowTimeoutCheck: "obeys (still A) (conn_windowTimeoutCheck env)"
  unfolding conn_windowTimeoutCheck_def by (intro still.obeys_intros obeys_resendOne)

lemma obeys_dataWrite: "obeys (still A) (case d of None \<Rightarrow> eff_return () | Some d \<Rightarrow> conn_recvWrite d)"
  by (simp add: still.obeys_intros obeys_recvWrite split: option.split)

text \<open>What \<open>reset\<close> does once it has left the table and is in the state RESET.\<close>

definition reset_tail :: "env \<Rightarrow> unit conn_eff" where
  "reset_tail env =
     eff_then (eff_modify (\<lambda>s. s\<lparr>cn_recvQueue := cq_clear (cn_recvQueue s), cn_remoteFin := None\<rparr>))
     (eff_then (eff_update (\<lambda>s. let (sw, rel) = sw_reset (cn_sendWindow s)
                               in (s\<lparr>cn_sendWindow := sw\<rparr>, resumed s rel)))
     (eff_read (createResetPacket env) (\<lambda>rst.
      eff_try (eff_bind (conn_sendUtpPacket env rst) (\<lambda>_. eff_return ())) (\<lambda>e. eff_emit [EvUnhandled e]))))"

lemma eff_then_assoc: "eff_then (eff_then a b) c = eff_then a (eff_then b c)"
  by (rule ext) (auto simp: eff_then_def eff_bind_def split: prod.splits sum.splits)

lemma conn_reset_split:
  "conn_reset env = eff_then (eff_then conn_removeSelf (eff_then conn_statRelease (eff_update (set_localState CS_RESET))))
     (reset_tail env)"
  by (simp only: conn_reset_def reset_tail_def eff_then_assoc)

lemma obeys_reset_tail: "obeys (still A) (reset_tail env)"
proof -
  have r: "\<not> numbered (createResetPacket env s)" for s
    by (simp add: createResetPacket_def packet_blank_def packet_types numbered_def)
  have "still A s (resumed s (snd (sw_reset (cn_sendWindow s)))) (s\<lparr>cn_sendWindow := fst (sw_reset (cn_sendWindow s))\<rparr>)" for s
    by (simp add: still_def resumed_off_table le_supI2
        resumed_within [OF released_packets [OF sw_reset_subset(2)]] sw_packets_mono [OF sw_reset_subset(1)])
  then have 1: "obeys (still A) (eff_update (\<lambda>s. let (sw, rel) = sw_reset (cn_sendWindow s)
                               in (s\<lparr>cn_sendWindow := sw\<rparr>, resumed s rel)))"
    by (intro still.obeys_steps) (simp add: split_beta)
  have 2: "obeys (still A) (eff_read (createResetPacket env) (\<lambda>rst.
      eff_try (eff_bind (conn_sendUtpPacket env rst) (\<lambda>_. eff_return ())) (\<lambda>e. eff_emit [EvUnhandled e])))"
    by (intro obeysI still.at_control(2) still.at_intros still.at_steps obeys_at [OF obeys_sendPlain] r)
      (simp add: still_def numbered_sends_def)
  have 3: "obeys (still A) (eff_modify (\<lambda>s. s\<lparr>cn_recvQueue := cq_clear (cn_recvQueue s), cn_remoteFin := None\<rparr>))"
    by (intro still.obeys_steps) (simp add: still_def)
  show ?thesis unfolding reset_tail_def by (intro still.obeys_then 1 2 3)
qed

lemma setState_parts:
  "cn_state (fst (set_localState st s)) = st" "cn_localFin (fst (set_localState st s)) = cn_localFin s"
  "cn_remoteAddr (fst (set_localState st s)) = cn_remoteAddr s" "cn_sendId (fst (set_localState st s)) = cn_sendId s"
  "cn_recvId (fst (set_localState st s)) = cn_recvId s" "cn_sendWindow (fst (set_localState st s)) = cn_sendWindow s"
  "cn_seqNr (fst (set_localState st s)) = cn_seqNr s"
  "list_all off_table (snd (set_localState st s))" "numbered_sends (snd (set_localState st s)) = {}"
  by (auto simp: set_localState_def notifyStateChange_def split_beta settle_events_still)

lemma still_state: "obeys (still A) m \<Longrightarrow> cn_state (final (m s)) = cn_state s"
  by (drule obeysD [of "still A" m s]) (simp add: still_def)

end
