(* ===== verification/ConnState.thy ===== *)
theory ConnState imports ConnFrame begin

text \<open>
  The life of a connection: over any sequence of calls its state only moves forward, it leaves the
  socket's table when it dies, its identity does not change, and it sends at most one FIN, outside the
  send window. Each method is shown to satisfy one history, from those of its parts.
\<close>

subsection \<open>The history every method satisfies\<close>

text \<open>How far along its life a connection is.\<close>

fun stage :: "conn_state \<Rightarrow> nat" where
  "stage CS_SYN_SENT = 0"
| "stage CS_SYN_RECV = 0"
| "stage CS_CONNECTED = 1"
| "stage CS_CLOSE_WAIT = 2"
| "stage CS_RESET = 3"
| "stage CS_CLOSED = 3"

definition conn_over :: "conn \<Rightarrow> bool" where
  "conn_over s \<longleftrightarrow> stage (cn_state s) = 3"

fun is_fin_send :: "conn_ev \<Rightarrow> bool" where
  "is_fin_send (EvSend p a) = (pk_type p = ST_FIN)"
| "is_fin_send _ = False"

definition fin_sends :: "conn_ev list \<Rightarrow> nat" where
  "fin_sends es = length (filter is_fin_send es)"

lemma fin_sends_simps [simp]:
  "fin_sends [] = 0" "fin_sends (e # es) = (if is_fin_send e then Suc (fin_sends es) else fin_sends es)"
  "fin_sends (es @ fs) = fin_sends es + fin_sends fs"
  by (simp_all add: fin_sends_def)

text \<open>\<open>window_data\<close>: everything in flight or waiting to be is a data packet.\<close>

definition window_data :: "send_window \<Rightarrow> bool" where
  "window_data w \<longleftrightarrow> (\<forall>p \<in> sw_packets w. pk_type p = ST_DATA)"

lemma fin_sends_none: "\<forall>p \<in> numbered_sends es. pk_type p \<noteq> ST_FIN \<Longrightarrow> fin_sends es = 0"
proof -
  assume no_fin: "\<forall>p \<in> numbered_sends es. pk_type p \<noteq> ST_FIN"
  have "\<not> (is_fin_send e \<and> e \<in> set es)" for e
    by (cases e rule: is_fin_send.cases) (use no_fin in \<open>auto simp: numbered_sends_def numbered_def\<close>)
  then show "fin_sends es = 0" by (auto simp: fin_sends_def filter_empty_conv)
qed

definition fin_sent :: "conn \<Rightarrow> nat" where
  "fin_sent s = (if cn_localFin s = None then 0 else 1)"

definition conn_hist :: "conn \<Rightarrow> conn_ev list \<Rightarrow> conn \<Rightarrow> bool" where
  "conn_hist s es t \<longleftrightarrow>
     cn_recvId t = cn_recvId s \<and> cn_sendId t = cn_sendId s \<and> cn_remoteAddr t = cn_remoteAddr s
     \<and> stage (cn_state s) \<le> stage (cn_state t)
     \<and> (conn_over t \<longrightarrow> conn_over s \<or> EvRemoveConn (conn_uniqueId s) \<in> set es)
     \<and> (\<forall>e \<in> set es. off_table e \<or> e = EvRemoveConn (conn_uniqueId s))
     \<and> (window_data (cn_sendWindow s) \<longrightarrow>
          window_data (cn_sendWindow t) \<and> fin_sends es + fin_sent s \<le> fin_sent t)"

lemma conn_uniqueId_cong:
  "cn_recvId t = cn_recvId s \<Longrightarrow> cn_sendId t = cn_sendId s \<Longrightarrow> cn_remoteAddr t = cn_remoteAddr s \<Longrightarrow>
    conn_uniqueId t = conn_uniqueId s"
  by (simp add: conn_uniqueId_def)

lemma conn_hist_trans:
  assumes "conn_hist s es t" "conn_hist t fs u" shows "conn_hist s (es @ fs) u"
proof -
  have uid: "conn_uniqueId t = conn_uniqueId s"
    using assms(1) by (intro conn_uniqueId_cong) (simp_all add: conn_hist_def)
  have "window_data (cn_sendWindow s) \<longrightarrow>
      window_data (cn_sendWindow u) \<and> fin_sends (es @ fs) + fin_sent s \<le> fin_sent u"
    using assms unfolding conn_hist_def fin_sends_simps by linarith
  moreover have "conn_over u \<longrightarrow> conn_over s \<or> EvRemoveConn (conn_uniqueId s) \<in> set (es @ fs)"
    using assms uid by (auto simp: conn_hist_def)
  moreover have "\<forall>e \<in> set (es @ fs). off_table e \<or> e = EvRemoveConn (conn_uniqueId s)"
    using assms uid by (auto simp: conn_hist_def)
  ultimately show ?thesis using assms by (simp add: conn_hist_def)
qed

interpretation life: history conn_hist
  by unfold_locales (simp add: conn_hist_def, rule conn_hist_trans)

text \<open>The steps that leave identity, state and FIN alone and do not concern the table.\<close>

definition calm :: "conn \<Rightarrow> conn_ev list \<Rightarrow> conn \<Rightarrow> bool" where
  "calm s es t \<longleftrightarrow>
     cn_recvId t = cn_recvId s \<and> cn_sendId t = cn_sendId s \<and> cn_remoteAddr t = cn_remoteAddr s
     \<and> cn_state t = cn_state s \<and> cn_localFin t = cn_localFin s \<and> list_all off_table es
     \<and> (window_data (cn_sendWindow s) \<longrightarrow> window_data (cn_sendWindow t) \<and> fin_sends es = 0)"

interpretation calm: history calm
  by unfold_locales (auto simp: calm_def)

lemma calm_hist: "calm s es t \<Longrightarrow> conn_hist s es t"
  by (auto simp: calm_def conn_hist_def conn_over_def fin_sent_def list_all_iff)

lemma calm_obeys: "obeys calm m \<Longrightarrow> obeys_at conn_hist m s"
  by (simp add: obeys_def obeys_at_def calm_hist)

lemma calm_obeys_all: "obeys calm m \<Longrightarrow> obeys conn_hist m"
  by (rule obeysI) (rule calm_obeys)

lemma still_calm:
  assumes "still A s es t" "\<forall>p \<in> A. pk_type p = ST_DATA" shows "calm s es t"
proof -
  have "window_data (cn_sendWindow t) \<and> fin_sends es = 0" if w: "window_data (cn_sendWindow s)"
  proof
    have d: "\<forall>p \<in> A \<union> sw_packets (cn_sendWindow s). pk_type p = ST_DATA"
      using assms(2) w by (auto simp: window_data_def)
    then show "window_data (cn_sendWindow t)" using assms(1) unfolding window_data_def still_def by blast
    have "\<forall>p \<in> numbered_sends es. pk_type p = ST_DATA" using assms(1) d unfolding still_def by blast
    then show "fin_sends es = 0" by (intro fin_sends_none) (simp add: packet_types)
  qed
  then show ?thesis using assms(1) by (simp add: calm_def still_def)
qed

lemma still_obeys: "obeys (still {}) m \<Longrightarrow> obeys calm m"
  by (auto simp: obeys_def obeys_at_def intro: still_calm)

lemma sendData_calm: "pk_type p = ST_DATA \<Longrightarrow> obeys calm (conn_sendUtpPacket env p)"
  using obeys_sendUtpPacket [of p env] by (auto simp: obeys_def obeys_at_def intro: still_calm)

lemma sendDirect_calm:
  assumes "pk_type p \<noteq> ST_DATA" "pk_type p \<noteq> ST_FIN" shows "obeys calm (conn_sendUtpPacket env p)"
proof (rule obeysI)
  fix s
  show "obeys_at calm (conn_sendUtpPacket env p) s"
    using assms sendUtp_direct [of s p env]
    by (cases "cn_state s = CS_CLOSED")
      (simp_all add: obeys_at_def calm_def conn_sendUtpPacket_def conn_isClosed_def eff_parts)
qed

subsection \<open>Each method satisfies it\<close>

lemma calm_connectSend: "obeys calm (conn_connectSend env)"
  unfolding conn_connectSend_def
  by (intro calm.obeys_read)
    (auto simp: calm_def set_localSeqNr_def createSynPacket_def packet_blank_def ack_type packet_types Let_def
      intro!: calm.obeys_intros calm.obeys_steps sendDirect_calm)

lemma calm_awaitConnected: "obeys calm (conn_awaitConnected pid)"
  unfolding conn_awaitConnected_def by (rule obeys_addListener [THEN still_obeys])

lemma calm_waitForConnecting: "obeys calm (waitForConnecting env pid)"
  unfolding waitForConnecting_def
  by (intro calm.obeys_bind calm_connectSend)
    (auto simp: calm_def intro!: calm_awaitConnected calm.obeys_steps)

lemma createData_calm:
  "calm s [] (snd (createDataPacket env d s))" "pk_type (fst (createDataPacket env d s)) = ST_DATA"
  by (simp_all add: createDataPacket_def packet_blank_def set_localSeqNr_def calm_def)

lemma calm_write: "obeys calm (conn_write env data)"
proof (induction env data rule: conn_write.induct)
  case (1 env data)
  let ?chunk = "take (nat chunkSize) data"
  show ?case
  proof (cases "data = []")
    case True
    then show ?thesis by (subst conn_write.simps) (simp add: calm.obeys_simple)
  next
    case False
    have IH: "obeys calm (conn_write env (drop (length ?chunk) data))"
      using 1 False by (auto split: prod.splits)
    show ?thesis
    proof (rule obeysI)
      fix s
      obtain p s1 where c: "createDataPacket env ?chunk s = (p, s1)" by fastforce
      then have d: "calm s [] s1" "pk_type p = ST_DATA"
        using createData_calm(1) [of s env ?chunk] createData_calm(2) [of env ?chunk s] by (simp_all add: packet_types)
      have tail: "obeys calm (case n of
            None \<Rightarrow> eff_return (Some (p, drop (length ?chunk) data))
          | Some n \<Rightarrow>
              if n \<noteq> packet_length p then eff_throw AssertionError
              else
                eff_then (eff_modify (\<lambda>s. s\<lparr>cn_statistic := stat_updateSentData (length ?chunk) (cn_statistic s)\<rparr>))
                  (conn_write env (drop (length ?chunk) data)))" for n
        using IH by (auto split: option.split simp: calm_def intro!: calm.obeys_intros calm.obeys_steps)
      show "obeys_at calm (conn_write env data) s"
        apply (subst conn_write.simps)
        apply (simp only: False if_False Let_def)
        apply (rule calm.at_control(2))
        apply (simp only: c prod.case)
        apply (intro calm.at_then calm.at_bind calm.at_steps(1) d(1) obeys_at [OF sendData_calm] obeys_at [OF tail] d(2))
        done
    qed
  qed
qed

lemma calm_resumeWrite: "obeys calm (conn_resumeWrite env p rest n)"
  unfolding conn_resumeWrite_def
  by (auto simp: calm_def intro!: calm.obeys_intros calm.obeys_steps calm_write)

lemma setState_fins: "fin_sends (snd (set_localState st s)) = 0"
  by (rule fin_sends_none) (simp add: setState_parts)

lemma setState_hist: "stage (cn_state s) \<le> stage st \<Longrightarrow> stage st < 3 \<Longrightarrow> conn_hist s (snd (set_localState st s)) (fst (set_localState st s))"
  using setState_parts(8) [of st s]
  by (simp add: conn_hist_def setState_parts(1-6) setState_fins conn_over_def fin_sent_def list_all_iff)

lemma at_modify: "calm s [] (f s) \<Longrightarrow> obeys_at conn_hist (eff_modify f) s"
  by (intro life.at_steps calm_hist)

lemma at_setState:
  "stage (cn_state s) \<le> stage st \<Longrightarrow> stage st < 3 \<Longrightarrow> obeys_at conn_hist (eff_update (set_localState st)) s"
  by (intro life.at_steps setState_hist)

text \<open>Leaving the table and dying, in this order.\<close>

lemma obeys_leave:
  assumes "stage st = 3"
  shows "obeys conn_hist (eff_then conn_removeSelf (eff_then conn_statRelease (eff_update (set_localState st))))"
proof (rule obeysI)
  fix s :: conn
  let ?s1 = "s\<lparr>cn_statistic := stat_release (cn_statistic s)\<rparr>"
  let ?m = "eff_then conn_removeSelf (eff_then conn_statRelease (eff_update (set_localState st)))"
  have e: "events (?m s) = EvRemoveConn (conn_uniqueId s) # snd (set_localState st ?s1)"
    and f: "final (?m s) = fst (set_localState st ?s1)"
    by (simp_all add: eff_parts conn_removeSelf_def conn_statRelease_def)
  have "stage (cn_state s) \<le> 3" by (cases "cn_state s") simp_all
  then show "obeys_at conn_hist ?m s"
    using setState_parts(8) [of st ?s1] assms
    by (simp add: obeys_at_def e f conn_hist_def setState_parts(1-6) setState_fins fin_sent_def list_all_iff)
qed

lemma obeys_forceClose: "obeys conn_hist conn_forceClose"
  unfolding conn_forceClose_def
  by (intro life.obeys_then [OF obeysI obeys_leave] calm_obeys still_obeys obeys_drain) simp

lemma sendFin_parts:
  fixes env :: env and s :: conn
  assumes "cn_state s = CS_CLOSE_WAIT"
  defines "fin \<equiv> fst (createFinPacket env s)"
  shows "events (conn_sendFin env s) = [EvSend fin (cn_remoteAddr s)]"
    and "final (conn_sendFin env s)
      = (snd (createFinPacket env s))\<lparr>cn_localFin := Some fin, cn_lastLiveTime := env_perf env\<rparr>"
proof -
  let ?s1 = "(snd (createFinPacket env s))\<lparr>cn_localFin := Some fin\<rparr>"
  have "cn_state ?s1 = CS_CLOSE_WAIT" "cn_remoteAddr ?s1 = cn_remoteAddr s"
    using assms(1) by (simp_all add: createFinPacket_def set_localSeqNr_def)
  then show "events (conn_sendFin env s) = [EvSend fin (cn_remoteAddr s)]"
    "final (conn_sendFin env s) = (snd (createFinPacket env s))\<lparr>cn_localFin := Some fin, cn_lastLiveTime := env_perf env\<rparr>"
    using sendUtp_direct [of ?s1 fin env]
    by (simp_all add: conn_sendFin_def split_beta eff_parts fin_def)
qed

lemma at_sendFin:
  assumes "cn_state s = CS_CLOSE_WAIT" "cn_localFin s = None"
  shows "obeys_at conn_hist (conn_sendFin env) s"
  using assms
  by (simp add: obeys_at_def sendFin_parts conn_hist_def createFinPacket_def packet_blank_def
      set_localSeqNr_def conn_over_def fin_sent_def)

lemma obeys_trySafeRelease: "obeys conn_hist (conn_trySafeRelease env)"
  unfolding conn_trySafeRelease_def
  by (rule obeysI, rule life.at_control(2))
    (auto intro!: life.at_intros at_sendFin obeys_at [OF obeys_forceClose] obeys_at [OF obeys_leave])

lemma handleFin_states:
  assumes "stage (cn_state s) \<le> 2" shows "obeys_at conn_hist (handleFin env p) s"
  unfolding handleFin_def
  by (intro life.at_then at_modify at_setState life.at_control life.at_try life.at_bind life.at_simple
      at_sendFin obeys_at [OF obeys_trySafeRelease] calm_obeys [OF still_obeys [OF obeys_drain]])
    (use assms in \<open>auto simp: calm_def setState_parts \<close>)

lemma obeys_handleAtSynSent: "cn_state s = CS_SYN_SENT \<Longrightarrow> obeys_at conn_hist (handleAtSynSent p) s"
  unfolding handleAtSynSent_def
  by (auto simp: calm_def set_localAckNr_def intro!: life.at_intros at_modify at_setState)

lemma obeys_handleAtSynReceived:
  "cn_state s = CS_SYN_RECV \<Longrightarrow> obeys_at conn_hist (handleAtSynReceived env p) s"
  unfolding handleAtSynReceived_def
  by (auto simp: calm_def set_localAckNr_def
      intro!: life.at_intros at_modify at_setState
        calm_obeys [OF still_obeys [OF obeys_dataWrite]] calm_obeys [OF still_obeys [OF obeys_sendAck]])

lemma obeys_handleAtConnected:
  assumes "stage (cn_state s) \<le> 2" shows "obeys_at conn_hist (handleAtConnected env p) s"
proof -
  have q: "obeys (still {}) (eff_when b processReceivedPackets)" for b
    by (intro still.obeys_when obeys_processReceivedPackets)
  show ?thesis
    unfolding handleAtConnected_def
    by (rule life.at_control(2))
      (use assms in \<open>auto simp: calm_def still_state [OF q] still_state [OF obeys_processReceivedPackets]
        intro!: life.at_intros at_modify handleFin_states
          calm_obeys [OF still_obeys [OF q]] calm_obeys [OF still_obeys [OF obeys_sendAck]]
          calm_obeys [OF still_obeys [OF obeys_processReceivedPackets]]\<close>)
qed

lemma obeys_handleIncomingPacket: "obeys conn_hist (handleIncomingPacket env p)"
  unfolding handleIncomingPacket_def
  apply (intro life.obeys_then life.obeys_bind life.obeys_when life.obeys_simple life.obeys_steps)
     apply (rule obeysI, rule calm_obeys, rule still_obeys, rule obeys_handleAck)
    apply (rule obeysI, rule life.at_control(2))
    apply (auto simp: calm_def split: conn_state.split
      intro!: life.at_intros obeys_handleAtSynSent obeys_handleAtSynReceived obeys_handleAtConnected
        calm_obeys [OF still_obeys [OF obeys_handleAck]] at_modify)
  apply (rule calm_hist, simp add: calm_def)
  done

lemma obeys_timeoutCheck: "obeys conn_hist (conn_timeoutCheck env)"
  unfolding conn_timeoutCheck_def
  by (rule obeysI, rule life.at_control(2))
    (auto split: conn_state.split option.split
      intro!: life.at_intros obeys_at [OF obeys_forceClose] obeys_at [OF obeys_trySafeRelease]
        calm_obeys [OF still_obeys [OF obeys_keepAlive]] calm_obeys [OF still_obeys [OF obeys_windowTimeoutCheck]])

lemma obeys_close: "obeys conn_hist (conn_close env)"
proof (rule obeysI)
  fix s
  have "stage (cn_state s) \<le> 2" if "\<not> conn_isClosed s" "cn_state s \<noteq> CS_RESET"
    using that by (cases "cn_state s") (auto simp: conn_isClosed_def)
  then show "obeys_at conn_hist (conn_close env) s"
    unfolding conn_close_def
    by (intro life.at_control(2))
      (auto simp: calm_def setState_parts
        intro!: life.at_intros at_modify at_setState at_sendFin)
qed

lemma obeys_closePoll: "obeys conn_hist (conn_closePoll env)"
  unfolding conn_closePoll_def
  by (intro life.obeys_read)
    (auto intro!: life.obeys_intros obeys_forceClose obeys_trySafeRelease)

lemma obeys_reset: "obeys conn_hist (conn_reset env)"
  unfolding conn_reset_split
  by (intro life.obeys_then obeys_leave obeysI [OF calm_obeys [OF still_obeys [OF obeys_reset_tail]]]) simp

lemma reset_state: "cn_state (final (conn_reset env s)) = CS_RESET"
  by (simp add: conn_reset_split eff_parts still_state [OF obeys_reset_tail] conn_removeSelf_def
      conn_statRelease_def setState_parts)

subsection \<open>Sequences of calls\<close>

text \<open>
  What a program or the socket calls on a connection, the continuation of a blocked \<open>write\<close> and the
  timers included. An error ends the call and leaves the state it had reached.
\<close>

datatype conn_call =
    CallHandle packet
  | CallConnect nat
  | CallConnectSend
  | CallConnectListen nat
  | CallConnectTimer nat
  | CallRead nat nat
  | CallWrite "byte list"
  | CallResumeWrite packet "byte list" nat
  | CallTimeoutCheck
  | CallClose
  | CallClosePoll
  | CallReset
  | CallStatTick

definition drop_result :: "'a conn_eff \<Rightarrow> unit conn_eff" where
  "drop_result m = eff_bind m (\<lambda>_. eff_return ())"

fun conn_do :: "env \<Rightarrow> conn_call \<Rightarrow> unit conn_eff" where
  "conn_do env (CallHandle p) = drop_result (handleIncomingPacket env p)"
| "conn_do env (CallConnect pid) = waitForConnecting env pid"
| "conn_do env CallConnectSend = drop_result (conn_connectSend env)"
| "conn_do env (CallConnectListen pid) = conn_awaitConnected pid"
| "conn_do env (CallConnectTimer pid) = conn_connectTimeout pid"
| "conn_do env (CallRead r n) = conn_read r n"
| "conn_do env (CallWrite data) = drop_result (conn_write env data)"
| "conn_do env (CallResumeWrite p rest n) = drop_result (conn_resumeWrite env p rest n)"
| "conn_do env CallTimeoutCheck = conn_timeoutCheck env"
| "conn_do env CallClose = drop_result (conn_close env)"
| "conn_do env CallClosePoll = drop_result (conn_closePoll env)"
| "conn_do env CallReset = conn_reset env"
| "conn_do env CallStatTick = conn_statTick"

inductive conn_run :: "conn \<Rightarrow> conn_ev list \<Rightarrow> conn \<Rightarrow> bool" where
  start: "conn_run s [] s"
| call: "conn_run s es t \<Longrightarrow> conn_run s (es @ events (conn_do env c t)) (final (conn_do env c t))"

lemma obeys_do: "obeys conn_hist (conn_do env c)"
  by (cases c)
    (auto simp: drop_result_def
      intro!: life.obeys_bind life.obeys_simple obeys_handleIncomingPacket obeys_timeoutCheck obeys_close
        obeys_closePoll obeys_reset calm_waitForConnecting [THEN calm_obeys_all]
        calm_connectSend [THEN calm_obeys_all] calm_awaitConnected [THEN calm_obeys_all]
        obeys_statTick [THEN still_obeys, THEN calm_obeys_all]
        obeys_connectTimeout [THEN still_obeys, THEN calm_obeys_all] obeys_connRead [THEN still_obeys, THEN calm_obeys_all]
        calm_write [THEN calm_obeys_all] calm_resumeWrite [THEN calm_obeys_all])

lemma conn_run_hist: "conn_run s es t \<Longrightarrow> conn_hist s es t"
  by (induction rule: conn_run.induct)
    (auto intro: life.hist_refl life.hist_trans obeysD [OF obeys_do])

lemma conn_run_once: "conn_run s (events (conn_do env c s)) (final (conn_do env c s))"
  using conn_run.call [OF conn_run.start] by simp

text \<open>
  C8. The life of a connection, over any sequence of calls: its state only moves forward along
  SYN-SENT or SYN-RECV, CONNECTED, CLOSE-WAIT, RESET or CLOSED; its identity in the socket's table
  never changes; it never enters the table again, takes only itself out of it, and does so before it
  is CLOSED or RESET.
\<close>

theorem conn_lifecycle:
  assumes "conn_run s es t"
  shows "stage (cn_state s) \<le> stage (cn_state t) \<and> conn_uniqueId t = conn_uniqueId s
    \<and> (\<forall>i. EvAddConn i \<notin> set es) \<and> (\<forall>i. EvRemoveConn i \<in> set es \<longrightarrow> i = conn_uniqueId s)
    \<and> (conn_over t \<and> \<not> conn_over s \<longrightarrow> EvRemoveConn (conn_uniqueId s) \<in> set es)"
proof -
  have h: "conn_hist s es t" by (rule conn_run_hist [OF assms])
  have e: "\<forall>e \<in> set es. off_table e \<or> e = EvRemoveConn (conn_uniqueId s)"
    using h by (simp add: conn_hist_def)
  have "EvAddConn i \<notin> set es" for i using bspec [OF e, of "EvAddConn i"] by auto
  moreover have "i = conn_uniqueId s" if "EvRemoveConn i \<in> set es" for i using bspec [OF e that] by auto
  moreover have "conn_uniqueId t = conn_uniqueId s"
    using h by (intro conn_uniqueId_cong) (simp_all add: conn_hist_def)
  ultimately show ?thesis using h by (auto simp: conn_hist_def)
qed

text \<open>A connection that closes: its close, then the poll 15 seconds later, which gives up waiting.\<close>

definition late_env :: env where
  "late_env = sample_env\<lparr>env_perf := env_perf sample_env + 15000\<rparr>"

lemma close_parts:
  fixes env :: env and s :: conn
  assumes "cn_state s \<in> {CS_SYN_SENT, CS_SYN_RECV, CS_CONNECTED}" "cn_localFin s = None"
  defines "s1 \<equiv> fst (set_localState CS_CLOSE_WAIT (s\<lparr>cn_closeStartTime := Some (env_perf env)\<rparr>))"
  shows "cn_state (final (conn_close env s)) = CS_CLOSE_WAIT"
    and "cn_closeStartTime (final (conn_close env s)) = Some (env_perf env)"
    and "cn_localFin (final (conn_close env s)) = Some (fst (createFinPacket env s1))"
    and "events (conn_close env s) = snd (set_localState CS_CLOSE_WAIT (s\<lparr>cn_closeStartTime := Some (env_perf env)\<rparr>))
      @ [EvSend (fst (createFinPacket env s1)) (cn_remoteAddr s)]"
proof -
  have "cn_state s1 = CS_CLOSE_WAIT" "cn_localFin s1 = None" "cn_remoteAddr s1 = cn_remoteAddr s"
    using assms(2) by (simp_all add: s1_def setState_parts)
  moreover have "cn_closeStartTime s1 = Some (env_perf env)"
    by (simp add: s1_def set_localState_def notifyStateChange_def split_beta)
  ultimately show "cn_state (final (conn_close env s)) = CS_CLOSE_WAIT"
    "cn_closeStartTime (final (conn_close env s)) = Some (env_perf env)"
    "cn_localFin (final (conn_close env s)) = Some (fst (createFinPacket env s1))"
    "events (conn_close env s) = snd (set_localState CS_CLOSE_WAIT (s\<lparr>cn_closeStartTime := Some (env_perf env)\<rparr>))
      @ [EvSend (fst (createFinPacket env s1)) (cn_remoteAddr s)]"
    using assms(1) sendFin_parts [of s1 env]
    by (simp_all add: conn_close_def conn_isClosed_def eff_parts s1_def [symmetric] split: sum.splits)
       (auto simp: createFinPacket_def set_localSeqNr_def)
qed

lemma forceClose_parts:
  "cn_state (final (conn_forceClose s)) = CS_CLOSED" "result (conn_forceClose s) = Inr ()"
  "EvRemoveConn (conn_uniqueId s) \<in> set (events (conn_forceClose s))"
  by (simp_all add: conn_forceClose_def conn_drain_def conn_removeSelf_def conn_statRelease_def
      eff_parts setState_parts split_beta conn_uniqueId_def)

text \<open>
  C21. Closing ends: polling the close never throws, answers that the close is done exactly when the
  connection is CLOSED, and is done with it once the connection waited for longer than its limit,
  whatever the peer and the socket do.
\<close>

theorem close_poll_ends:
  "\<exists>b. result (conn_closePoll env s) = Inr b \<and> (b \<longleftrightarrow> cn_state (final (conn_closePoll env s)) = CS_CLOSED)
    \<and> ((\<exists>t. cn_closeStartTime s = Some t \<and> fl (env_perf env - t) > CLOSE_TIMEOUT_DURATION) \<longrightarrow> b)"
proof -
  define late where "late \<longleftrightarrow> (case cn_closeStartTime s of None \<Rightarrow> False
    | Some t \<Rightarrow> fl (env_perf env - t) > CLOSE_TIMEOUT_DURATION)"
  have "(\<exists>t. cn_closeStartTime s = Some t \<and> fl (env_perf env - t) > CLOSE_TIMEOUT_DURATION) \<longleftrightarrow> late"
    by (auto simp: late_def split: option.splits)
  then show ?thesis
    unfolding conn_closePoll_def late_def [symmetric]
    by (cases "result (conn_trySafeRelease env s)")
      (auto simp: eff_parts forceClose_parts conn_isClosed_def)
qed

theorem close_poll_ends_witness:
  "cn_state (final (conn_closePoll late_env (sample_conn\<lparr>cn_closeStartTime := Some (env_perf sample_env)\<rparr>))) = CS_CLOSED"
proof -
  have "fl (15000 :: rat) = 15000" by simp
  then show ?thesis
    using close_poll_ends [of late_env "sample_conn\<lparr>cn_closeStartTime := Some (env_perf sample_env)\<rparr>"]
    by (auto simp: late_env_def sample_env_def CLOSE_TIMEOUT_DURATION_def)
qed

theorem conn_lifecycle_witness: "conn_uniqueId (final (conn_do sample_env CallReset sample_conn)) = conn_uniqueId sample_conn
    \<and> EvRemoveConn (conn_uniqueId sample_conn) \<in> set (events (conn_do sample_env CallReset sample_conn))"
proof -
  have "conn_over (final (conn_do sample_env CallReset sample_conn))"
    by (simp add: conn_over_def reset_state)
  then show ?thesis
    using conn_lifecycle [OF conn_run_once, of sample_conn sample_env CallReset] by (simp add: conn_over_def)
qed

text \<open>
  C14. A connection sends at most one FIN in its whole life, and neither sends nor keeps one through
  the send window: from its creation on, over any sequence of calls, everything the window holds,
  hence everything that is retransmitted, is a data packet. A FIN that is lost is not sent again.
\<close>

theorem one_fin_never_resent:
  assumes "conn_run (fst (conn_new env st addr sendId recvId seqNr ackNr)) es t"
  shows "length (filter is_fin_send es) \<le> 1
    \<and> (length (filter is_fin_send es) = 1 \<longrightarrow> cn_localFin t \<noteq> None)
    \<and> (\<forall>(k, info) \<in> set (sw_outstanding (cn_sendWindow t)). pk_type (pi_packet info) = ST_DATA)"
proof -
  let ?s = "fst (conn_new env st addr sendId recvId seqNr ackNr)"
  have s: "window_data (cn_sendWindow ?s)" "fin_sent ?s = 0"
    by (simp_all add: conn_new_def Let_def sw_new_def window_data_def sw_packets_def sw_outstanding_def bm_all_def bm_new_def fin_sent_def)
  have "window_data (cn_sendWindow t) \<and> fin_sends es + fin_sent ?s \<le> fin_sent t"
    using conn_run_hist [OF assms] s(1) unfolding conn_hist_def by blast
  then show ?thesis
    unfolding s(2) by (auto simp: window_data_def sw_packets_def fin_sends_def fin_sent_def split: if_splits)
qed

definition closing_conn :: conn where
  "closing_conn = fst (conn_new sample_env CS_SYN_RECV sample_addr 7 8 100 9)"

theorem one_fin_never_resent_witness:
  "length (filter is_fin_send (events (conn_do sample_env CallClose closing_conn))) \<le> 1"
  using one_fin_never_resent [OF conn_run_once [of closing_conn sample_env CallClose, unfolded closing_conn_def]]
  by (simp add: closing_conn_def)

lemma closing_conn_fin: "filter is_fin_send (events (conn_do sample_env CallClose closing_conn)) \<noteq> []"
  using close_parts [of closing_conn sample_env]
  by (simp add: closing_conn_def conn_new_def Let_def drop_result_def eff_parts createFinPacket_def packet_blank_def
      split: sum.splits)

text \<open>
  C36. A CLOSED connection does nothing more: it handles no packet of another kind than an
  acknowledgement, its timers do nothing, closing it again is done at once, and writing fails without
  sending anything.
\<close>

theorem closed_is_final:
  assumes "cn_state s = CS_CLOSED" "pk_type p \<noteq> ST_STATE" "data \<noteq> []"
  shows "handleIncomingPacket env p s = (s, [], Inr False)
    \<and> conn_timeoutCheck env s = (s, [], Inr ())
    \<and> conn_close env s = (s, [], Inr False) \<and> conn_closePoll env s = (s, [], Inr True)
    \<and> events (conn_write env data s) = [] \<and> result (conn_write env data s) = Inl ConnClosedError"
proof (intro conjI)
  let ?chunk = "take (nat chunkSize) data"
  obtain d s1 where c: "createDataPacket env ?chunk s = (d, s1)" by fastforce
  have s1: "cn_state s1 = CS_CLOSED"
    using c assms(1) by (auto simp: createDataPacket_def set_localSeqNr_def)
  show "handleIncomingPacket env p s = (s, [], Inr False)"
    using assms by (simp add: handleIncomingPacket_def eff_then_def eff_bind_def eff_return_def)
  show "conn_timeoutCheck env s = (s, [], Inr ())"
    using assms by (simp add: conn_timeoutCheck_def eff_return_def)
  show "conn_close env s = (s, [], Inr False)"
    using assms by (simp add: conn_close_def conn_isClosed_def eff_return_def)
  show "conn_closePoll env s = (s, [], Inr True)"
    using assms by (simp add: conn_closePoll_def conn_isClosed_def eff_return_def)
  show "events (conn_write env data s) = []" "result (conn_write env data s) = Inl ConnClosedError"
    using assms(3) s1
    by (subst conn_write.simps, simp add: Let_def c eff_parts conn_sendUtpPacket_def conn_isClosed_def)+
qed

theorem closed_is_final_witness:
  "result (conn_write sample_env [1] (sample_conn\<lparr>cn_state := CS_CLOSED\<rparr>)) = Inl ConnClosedError"
  using closed_is_final [of "sample_conn\<lparr>cn_state := CS_CLOSED\<rparr>" "sample_pkts 0" "[1]" sample_env]
  by (simp add: sample_pkts_def packet_types)

end
