(* ===== verification/ConnSteps.thy ===== *)
theory ConnSteps imports ConnState begin

text \<open>
  The steps a connection's methods are made of, each under the condition the methods take it under: a
  packet enters the send window only in CONNECTED, the start of a close is noted only before
  CLOSE-WAIT, the state moves only forward. A history that each step satisfies is satisfied by every method: \<open>send_steps\<close> is the interface of the methods that send, \<open>conn_steps\<close> that of all of
  them, \<open>connecting_steps\<close> that of those of the promise of \<open>connect\<close>.
\<close>

fun outgoing :: "conn_ev \<Rightarrow> bool" where
  "outgoing (EvSend p a) = True"
| "outgoing (EvResume k) = True"
| "outgoing (EvUnhandled e) = True"
| "outgoing _ = False"

lemma resumed_outgoing [simp]: "list_all outgoing (resumed s rel)"
  by (induction rel) (auto simp: resumed_def)

subsection \<open>Sending\<close>

fun hands_over :: "sw_act \<Rightarrow> bool" where
  "hands_over (ActWait now p a) = True"
| "hands_over _ = False"

locale send_steps = history H for H :: "conn \<Rightarrow> conn_ev list \<Rightarrow> conn \<Rightarrow> bool" +
  assumes step_send: "list_all outgoing es \<Longrightarrow> H s es s"
    and step_live: "H s [] (s\<lparr>cn_lastLiveTime := x\<rparr>)"
    and step_seq: "H s [] (set_localSeqNr n s)"
    and step_sent: "H s [] (s\<lparr>cn_statistic := stat_updateSentData k (cn_statistic s)\<rparr>)"
    and step_window: "hands_over a \<longrightarrow> cn_state s = CS_CONNECTED
      \<Longrightarrow> H s [] (s\<lparr>cn_sendWindow := fst (sw_do a (cn_sendWindow s))\<rparr>)"
begin

lemma step_windowEvents:
  assumes "list_all outgoing es" "hands_over a \<longrightarrow> cn_state s = CS_CONNECTED" "w = fst (sw_do a (cn_sendWindow s))"
  shows "H s es (s\<lparr>cn_sendWindow := w\<rparr>)"
  using hist_trans [OF step_send [OF assms(1)] step_window [OF assms(2)]] assms(3) by simp

lemma all_utp_send: "obeys H (utp_send env p a)"
  unfolding utp_send_def by (intro obeys_then obeys_steps step_send) (simp_all split: sum.split add: obeys_simple)

lemma at_waitForAck:
  fixes s :: conn
  assumes "cn_state s = CS_CONNECTED" shows "obeys_at H (conn_waitForAck env p) s"
proof -
  let ?r = "sw_waitForAck (env_now env) p (cn_remoteAddr s) (cn_sendWindow s)"
  have "H s (resumed s (snd (snd ?r))) (s\<lparr>cn_sendWindow := fst ?r\<rparr>)"
    by (rule step_windowEvents [where a = "ActWait (env_now env) p (cn_remoteAddr s)"]) (simp_all add: assms)
  then show "obeys_at H (conn_waitForAck env p) s"
    unfolding conn_waitForAck_def
    by (intro at_control(2)) (simp add: split_beta at_then at_steps at_simple)
qed

lemma all_sendUtpPacket: "obeys H (conn_sendUtpPacket env p)"
  unfolding conn_sendUtpPacket_def
  by (intro obeysI at_then at_steps(1) at_control(2) step_live)
    (auto intro!: at_intros at_waitForAck obeys_at [OF all_utp_send])

lemma all_handleAck: "obeys H (conn_handleAck env p)"
  unfolding conn_handleAck_def
  by (rule obeys_steps)
    (simp add: split_beta step_windowEvents [where a = "ActAck (env_clk env) p"])

lemma all_sendAck: "obeys H (conn_sendAck env)"
  unfolding conn_sendAck_def by (intro obeys_read all_sendUtpPacket)

lemma step_createData: "H s [] (snd (createDataPacket env d s))"
  by (simp add: createDataPacket_def step_seq)

lemma all_write: "obeys H (conn_write env data)"
proof (induction env data rule: conn_write.induct)
  case (1 env data)
  let ?chunk = "take (nat chunkSize) data"
  show ?case
  proof (cases "data = []")
    case True
    then show ?thesis by (subst conn_write.simps) (simp add: obeys_simple)
  next
    case False
    have IH: "obeys H (conn_write env (drop (length ?chunk) data))"
      using 1 False by (auto split: prod.splits)
    have tail: "obeys H (case n of
          None \<Rightarrow> eff_return (Some (p, drop (length ?chunk) data))
        | Some n \<Rightarrow>
            if n \<noteq> packet_length p then eff_throw AssertionError
            else
              eff_then (eff_modify (\<lambda>s. s\<lparr>cn_statistic := stat_updateSentData (length ?chunk) (cn_statistic s)\<rparr>))
                (conn_write env (drop (length ?chunk) data)))" for n p
      using IH by (auto split: option.split intro!: obeys_intros obeys_steps step_sent)
    show ?thesis
    proof (rule obeysI)
      fix s
      obtain p s1 where c: "createDataPacket env ?chunk s = (p, s1)" by fastforce
      then have d: "H s [] s1" using step_createData [of s env ?chunk] by simp
      show "obeys_at H (conn_write env data) s"
        apply (subst conn_write.simps)
        apply (simp only: False if_False Let_def)
        apply (rule at_control(2))
        apply (simp only: c prod.case)
        apply (intro at_then at_bind at_steps(1) d obeys_at [OF all_sendUtpPacket] obeys_at [OF tail])
        done
    qed
  qed
qed

lemma all_resumeWrite: "obeys H (conn_resumeWrite env p rest n)"
  unfolding conn_resumeWrite_def
  by (auto intro!: obeys_intros obeys_steps step_sent all_write)

lemma all_resendOne: "obeys H (conn_resendOne env k)"
proof (rule obeysI)
  fix s
  have o: "obeys H (case out of SwSend p addr \<Rightarrow> eff_bind (utp_send env p addr) (\<lambda>_. eff_return ())
      | SwAdmit k info \<Rightarrow> eff_update (\<lambda>s. (s, resumed s [(k, info)])))" for out
    by (auto split: sw_out.split intro!: obeys_intros all_utp_send obeys_steps step_send)
  show "obeys_at H (conn_resendOne env k) s"
    unfolding conn_resendOne_def
    using step_window [of "ActResend (env_now env) k" s]
    by (intro at_control(2)) (simp add: split_beta at_then at_steps(1) obeys_at [OF obeys_forEach [OF o]])
qed

lemma all_windowTimeoutCheck: "obeys H (conn_windowTimeoutCheck env)"
  unfolding conn_windowTimeoutCheck_def by (intro obeys_read obeys_forEach all_resendOne)

lemma all_keepAlive: "obeys H (conn_keepAlive env)"
  unfolding conn_keepAlive_def by (intro obeys_intros obeys_steps all_sendAck step_live)

end

subsection \<open>Every method but those of the promise of connect\<close>

text \<open>All calls but those that make the promise of \<open>connect\<close> or end its time.\<close>

fun connects :: "conn_call \<Rightarrow> bool" where
  "connects (CallConnect pid) = True"
| "connects CallConnectSend = True"
| "connects (CallConnectListen pid) = True"
| "connects (CallConnectTimer pid) = True"
| "connects _ = False"

locale conn_steps = send_steps H for H :: "conn \<Rightarrow> conn_ev list \<Rightarrow> conn \<Rightarrow> bool" +
  assumes step_fields: "H s [] (s\<lparr>cn_remoteFin := b\<rparr>)" "H s [] (s\<lparr>cn_localFin := Some fin\<rparr>)"
      "H s [] (s\<lparr>cn_lastPacketTs := d\<rparr>)"
    and step_start: "stage (cn_state s) < 2 \<Longrightarrow> H s [] (s\<lparr>cn_closeStartTime := a\<rparr>)"
    and step_ack: "H s [] (set_localAckNr n s)"
    and step_state: "stage (cn_state s) \<le> stage st \<Longrightarrow> H s (snd (set_localState st s)) (fst (set_localState st s))"
    and step_leave: "H s [EvRemoveConn (conn_uniqueId s)] s"
    and step_stat: "H s [] (s\<lparr>cn_statistic := stat_do op (cn_statistic s)\<rparr>)"
    and step_drain: "H s (read_events (snd (bb_drain (cn_recvBuffer s)))) (s\<lparr>cn_recvBuffer := fst (bb_drain (cn_recvBuffer s))\<rparr>)"
    and step_buffer: "H s (read_events (snd (bb_write bs (cn_recvBuffer s)))) (s\<lparr>cn_recvBuffer := fst (bb_write bs (cn_recvBuffer s))\<rparr>)"
    and step_read: "bb_read r k (cn_recvBuffer s) = Inr (buf, outs) \<Longrightarrow> H s (read_events outs) (s\<lparr>cn_recvBuffer := buf\<rparr>)"
    and step_enqueue: "H s [] (s\<lparr>cn_recvQueue := cq_enqueue (pk_seqNr p) p (cn_recvQueue s)\<rparr>)"
    and step_dequeue: "H s [] (s\<lparr>cn_recvQueue := snd (cq_dequeueByKey key (cn_recvQueue s))\<rparr>)"
    and step_clear: "H s [] (s\<lparr>cn_recvQueue := cq_clear (cn_recvQueue s)\<rparr>)"
begin

lemma step_stats:
  "H s [] (s\<lparr>cn_statistic := stat_updateRecvData n (cn_statistic s)\<rparr>)"
  "H s [] (s\<lparr>cn_statistic := stat_release (cn_statistic s)\<rparr>)" "H s [] (s\<lparr>cn_statistic := stat_tick (cn_statistic s)\<rparr>)"
  using step_stat [of s "StRecv n"] step_stat [of s StRelease] step_stat [of s StTick] by simp_all

lemma at_stage: "stage (cn_state s) \<le> stage st \<Longrightarrow> obeys_at H (eff_update (set_localState st)) s"
  by (rule at_steps) (rule step_state)

lemma stage_last: "stage st \<le> 3"
  by (cases st) simp_all

lemma all_setState: "stage st = 3 \<Longrightarrow> obeys H (eff_update (set_localState st))"
  using stage_last by (intro obeysI at_stage) simp

lemma all_drain: "obeys H conn_drain"
  unfolding conn_drain_def by (rule obeys_steps) (simp add: split_beta step_drain)

lemma all_removeSelf: "obeys H conn_removeSelf"
  unfolding conn_removeSelf_def by (rule obeys_steps) (simp add: step_leave)

lemma all_statRelease: "obeys H conn_statRelease"
  unfolding conn_statRelease_def by (rule obeys_steps) (rule step_stats)

lemma all_statTick: "obeys H conn_statTick"
  unfolding conn_statTick_def by (rule obeys_steps) (simp add: step_stats hist_refl)

lemmas all_close_parts = all_drain all_removeSelf all_statRelease all_setState

lemma all_forceClose: "obeys H conn_forceClose"
  unfolding conn_forceClose_def by (intro obeys_then all_close_parts) simp

lemma all_sendFin: "obeys H (conn_sendFin env)"
proof (rule obeysI)
  fix s
  have "H s [] ((snd (createFinPacket env s))\<lparr>cn_localFin := Some fin\<rparr>)" for fin
    using hist_trans [OF step_seq step_fields(2)] by (simp add: createFinPacket_def)
  then show "obeys_at H (conn_sendFin env) s"
    unfolding conn_sendFin_def
    by (intro at_control(2)) (simp add: split_beta at_then at_steps obeys_at [OF all_sendUtpPacket])
qed

lemma all_trySafeRelease: "obeys H (conn_trySafeRelease env)"
  unfolding conn_trySafeRelease_def
  by (intro obeys_read) (auto intro!: obeys_intros all_forceClose all_sendFin all_close_parts)

lemma all_recvWrite: "obeys H (conn_recvWrite d)"
  unfolding conn_recvWrite_def
  by (intro obeys_then obeys_steps) (simp_all add: split_beta step_buffer step_stats)

lemma all_processOne: "obeys H (processOne seq)"
  unfolding processOne_def
proof (intro obeysI at_control(2))
  fix s :: conn
  show "obeys_at H (if seq_add (cn_ackNr s) 1 \<noteq> seq then eff_return ()
     else eff_then (eff_modify (set_localAckNr seq))
       (eff_read (\<lambda>s. cq_dequeueByKey seq (cn_recvQueue s)) (\<lambda>(packet, q).
        eff_then (eff_modify (\<lambda>s. s\<lparr>cn_recvQueue := q\<rparr>))
        (case packet of
           None \<Rightarrow> eff_return ()
         | Some p \<Rightarrow>
             (case pk_data p of
                None \<Rightarrow> eff_return ()
              | Some d \<Rightarrow> eff_when (pk_type p = ST_DATA) (conn_recvWrite d)))))) s"
    by (auto simp: split_beta split: option.split
        intro!: at_simple at_then at_control at_steps(1) obeys_at [OF all_recvWrite] step_ack step_dequeue)
qed

lemma all_process: "obeys H processReceivedPackets"
  unfolding processReceivedPackets_def by (intro obeys_read obeys_forEach all_processOne)

lemma at_handleFin: "stage (cn_state s) \<le> 2 \<Longrightarrow> obeys_at H (handleFin env p) s"
  unfolding handleFin_def
  by (intro at_then at_steps(1) at_stage step_fields at_control at_try at_bind at_simple
      obeys_at [OF all_sendFin] obeys_at [OF all_drain] obeys_at [OF all_trySafeRelease]) simp_all

lemma at_handleAtConnected:
  assumes "stage (cn_state s) \<le> 2" shows "obeys_at H (handleAtConnected env p) s"
proof -
  have q: "obeys (still {}) (eff_when b processReceivedPackets)" for b
    by (intro still.obeys_when obeys_processReceivedPackets)
  show ?thesis
    unfolding handleAtConnected_def
    by (rule at_control(2))
      (use assms in \<open>auto simp: still_state [OF q] still_state [OF obeys_processReceivedPackets]
        intro!: at_intros at_steps(1) step_enqueue at_handleFin
          obeys_at [OF all_process] obeys_at [OF obeys_when [OF all_process]] obeys_at [OF all_sendAck]\<close>)
qed

lemma all_handleIncomingPacket: "obeys H (handleIncomingPacket env p)"
proof -
  have 1: "obeys_at H (handleAtSynSent p) s" if "cn_state s = CS_SYN_SENT" for s
    unfolding handleAtSynSent_def
    by (auto simp: that set_localAckNr_def [of _ s] intro!: at_intros at_steps(1) step_ack at_stage)
  have 2: "obeys_at H (handleAtSynReceived env p) s" if "cn_state s = CS_SYN_RECV" for s
    unfolding handleAtSynReceived_def
    by (auto simp: that set_localAckNr_def [of _ s] split: option.split
        intro!: at_intros at_steps(1) step_ack at_stage obeys_at [OF all_recvWrite] obeys_at [OF all_sendAck])
  have 3: "obeys H (eff_read cn_state (\<lambda>st. case st of
           CS_SYN_SENT \<Rightarrow> handleAtSynSent p
         | CS_SYN_RECV \<Rightarrow> handleAtSynReceived env p
         | CS_CONNECTED \<Rightarrow> handleAtConnected env p
         | CS_CLOSE_WAIT \<Rightarrow>
             (if pk_type p = ST_STATE then eff_then (conn_handleAck env p) (eff_return True)
              else eff_return False)
         | CS_CLOSED \<Rightarrow> eff_return False
         | CS_RESET \<Rightarrow> eff_return False))"
    by (intro obeysI at_control(2))
      (auto split: conn_state.split intro!: at_intros 1 2 at_handleAtConnected obeys_at [OF all_handleAck])
  show ?thesis
    unfolding handleIncomingPacket_def
    by (intro obeys_then obeys_bind obeys_when 3 obeys_simple obeys_steps(1) step_fields all_handleAck)
qed

lemma all_connRead: "obeys H (conn_read r n)"
  unfolding conn_read_def
  by (intro obeysI at_control(2)) (auto split: sum.split prod.split intro!: at_simple at_steps step_read)

lemma all_timeoutCheck: "obeys H (conn_timeoutCheck env)"
  unfolding conn_timeoutCheck_def
  by (intro obeys_read)
    (auto split: conn_state.split option.split
      intro!: obeys_intros all_forceClose all_keepAlive all_windowTimeoutCheck all_trySafeRelease)

lemma all_close: "obeys H (conn_close env)"
proof (rule obeysI)
  fix s
  have "stage (cn_state s) < 2" if "\<not> conn_isClosed s" "cn_state s \<noteq> CS_RESET" "cn_state s \<noteq> CS_CLOSE_WAIT"
    using that by (cases "cn_state s") (auto simp: conn_isClosed_def)
  then show "obeys_at H (conn_close env) s"
    unfolding conn_close_def
    by (intro at_control(2))
      (auto intro!: at_intros at_steps(1) step_start at_stage obeys_at [OF all_sendFin])
qed

lemma all_closePoll: "obeys H (conn_closePoll env)"
  unfolding conn_closePoll_def
  by (intro obeys_read) (auto intro!: obeys_intros all_forceClose all_trySafeRelease)

lemma all_reset: "obeys H (conn_reset env)"
proof -
  have q: "obeys H (eff_modify (\<lambda>s. s\<lparr>cn_recvQueue := cq_clear (cn_recvQueue s), cn_remoteFin := None\<rparr>))"
    using hist_trans [OF step_clear step_fields(1)] by (intro obeys_steps) simp
  have w: "obeys H (eff_update (\<lambda>s. let (sw, rel) = sw_reset (cn_sendWindow s)
      in (s\<lparr>cn_sendWindow := sw\<rparr>, resumed s rel)))"
    by (rule obeys_steps) (simp add: split_beta step_windowEvents [where a = ActReset])
  show ?thesis
    unfolding conn_reset_def
    by (intro obeys_intros all_close_parts q w all_sendUtpPacket obeys_steps(3) step_send) simp_all
qed

lemma all_do: "\<not> connects c \<Longrightarrow> obeys H (conn_do env c)"
  by (cases c)
    (auto simp: drop_result_def
      intro!: obeys_bind obeys_simple all_handleIncomingPacket all_connRead all_write all_resumeWrite
        all_timeoutCheck all_close all_closePoll all_reset all_statTick)

end

subsection \<open>All methods\<close>

locale connecting_steps = conn_steps H for H :: "conn \<Rightarrow> conn_ev list \<Rightarrow> conn \<Rightarrow> bool" +
  assumes step_localSyn: "H s [] (s\<lparr>cn_localSyn := y\<rparr>)"
    and step_listen: "H s [] (conn_addListener pid s)"
    and step_settled: "H s [EvSettle pid CS_CONNECTED] s"
    and step_timeout: "H s [EvConnectTimeout pid] (conn_removeListener pid s)"
begin

lemma all_connectSend: "obeys H (conn_connectSend env)"
proof -
  have "H s [] (set_localSeqNr n (s\<lparr>cn_localSyn := y\<rparr>))" for n y and s :: conn
    using hist_trans [OF step_localSyn step_seq] by simp
  then show ?thesis
    unfolding conn_connectSend_def
    by (intro obeys_read) (auto simp: Let_def intro!: obeys_intros obeys_steps all_sendUtpPacket)
qed

lemma all_awaitConnected: "obeys H (conn_awaitConnected pid)"
  unfolding conn_awaitConnected_def by (rule obeys_steps) (rule step_listen)

lemma all_waitForConnecting: "obeys H (waitForConnecting env pid)"
  unfolding waitForConnecting_def
  by (auto intro!: obeys_intros obeys_steps step_settled all_connectSend all_awaitConnected)

lemma all_connectTimeout: "obeys H (conn_connectTimeout pid)"
  unfolding conn_connectTimeout_def
  by (rule obeys_steps) (simp add: step_timeout hist_refl)

lemma every_do: "obeys H (conn_do env c)"
  by (cases "connects c")
    (auto simp: all_do all_waitForConnecting all_awaitConnected all_connectTimeout drop_result_def
      intro!: obeys_bind obeys_simple all_connectSend elim!: connects.elims)

end

text \<open>
  The two parts of \<open>waitForConnecting\<close>, and the whole: the SYN or the acknowledgement goes out, then the
  listener is added.
\<close>

lemma connectSend_parts:
  fixes env :: env and s :: conn
  assumes "cn_state s = CS_SYN_RECV \<and> \<not> cn_isInitiator s \<or> cn_state s = CS_SYN_SENT \<and> cn_isInitiator s"
  defines "p \<equiv> if cn_isInitiator s then createSynPacket env s else createAckPacket env None s"
  defines "s1 \<equiv> if cn_isInitiator s then set_localSeqNr (cn_seqNr s + 1) (s\<lparr>cn_localSyn := Some p\<rparr>) else s"
  shows "events (conn_connectSend env s) = [EvSend p (cn_remoteAddr s)]"
    and "result (conn_connectSend env s) = (case env_send env p of Inl e \<Rightarrow> Inl e | Inr n \<Rightarrow> Inr True)"
    and "final (conn_connectSend env s) = s1\<lparr>cn_lastLiveTime := env_perf env\<rparr>"
proof -
  have d: "cn_state s1 \<noteq> CS_CLOSED" "cn_state s1 \<noteq> CS_CONNECTED \<or> pk_type p \<noteq> ST_DATA \<and> pk_type p \<noteq> ST_FIN"
    using assms(1) by (auto simp: s1_def set_localSeqNr_def)
  have r: "cn_remoteAddr s1 = cn_remoteAddr s" "cn_state s \<noteq> CS_CONNECTED"
    using assms(1) by (auto simp: s1_def set_localSeqNr_def)
  have w: "conn_connectSend env s = eff_then (eff_update (\<lambda>_. (s1, [])))
      (eff_then (conn_sendUtpPacket env p) (eff_return True)) s"
    using r(2) by (simp add: conn_connectSend_def p_def s1_def Let_def eff_then_def eff_bind_def eff_defs
        split: sum.splits)
  show "events (conn_connectSend env s) = [EvSend p (cn_remoteAddr s)]"
    "result (conn_connectSend env s) = (case env_send env p of Inl e \<Rightarrow> Inl e | Inr n \<Rightarrow> Inr True)"
    "final (conn_connectSend env s) = s1\<lparr>cn_lastLiveTime := env_perf env\<rparr>"
    using sendUtp_direct [OF d, of env] r by (simp_all add: w eff_parts split: sum.splits)
qed

lemma waitForConnecting_final:
  fixes env :: env and pid :: nat and s :: conn
  assumes "cn_state s = CS_SYN_RECV \<and> \<not> cn_isInitiator s \<or> cn_state s = CS_SYN_SENT \<and> cn_isInitiator s"
  defines "p \<equiv> if cn_isInitiator s then createSynPacket env s else createAckPacket env None s"
  defines "s1 \<equiv> if cn_isInitiator s then set_localSeqNr (cn_seqNr s + 1) (s\<lparr>cn_localSyn := Some p\<rparr>) else s"
  shows "events (waitForConnecting env pid s) = [EvSend p (cn_remoteAddr s)]"
    and "result (waitForConnecting env pid s) = (case env_send env p of Inl e \<Rightarrow> Inl e | Inr n \<Rightarrow> Inr ())"
    and "final (waitForConnecting env pid s) = s1\<lparr>cn_lastLiveTime := env_perf env, cn_listeners := cn_listeners s
      @ (case env_send env p of Inl e \<Rightarrow> [] | Inr n \<Rightarrow> [pid])\<rparr>"
proof -
  note c = connectSend_parts [OF assms(1), of env, folded p_def, folded s1_def]
  have "cn_listeners s1 = cn_listeners s" by (simp add: s1_def set_localSeqNr_def)
  then show "events (waitForConnecting env pid s) = [EvSend p (cn_remoteAddr s)]"
    "result (waitForConnecting env pid s) = (case env_send env p of Inl e \<Rightarrow> Inl e | Inr n \<Rightarrow> Inr ())"
    "final (waitForConnecting env pid s) = s1\<lparr>cn_lastLiveTime := env_perf env, cn_listeners := cn_listeners s
      @ (case env_send env p of Inl e \<Rightarrow> [] | Inr n \<Rightarrow> [pid])\<rparr>"
    by (simp_all add: waitForConnecting_def eff_parts c conn_awaitConnected_def conn_addListener_def split: sum.splits)
qed

text \<open>Sequences of calls of some kinds.\<close>

inductive calls_run :: "(conn_call \<Rightarrow> bool) \<Rightarrow> conn \<Rightarrow> conn_ev list \<Rightarrow> conn \<Rightarrow> bool" for P where
  calls_start: "calls_run P s [] s"
| calls_call: "calls_run P s es t \<Longrightarrow> P c \<Longrightarrow> x = conn_do env c t \<Longrightarrow> calls_run P s (es @ events x) (final x)"

lemma calls_run_hist:
  assumes "history H" "\<And>c env. P c \<Longrightarrow> obeys H (conn_do env c)" "calls_run P s es t"
  shows "H s es t"
  using assms(3)
proof induction
  case calls_start
  show ?case by (rule history.hist_refl [OF assms(1)])
next
  case (calls_call s es t c x env)
  then show ?case using history.hist_trans [OF assms(1)] obeysD [OF assms(2)] by blast
qed

lemma calls_run_conn_run: "calls_run P s es t \<Longrightarrow> conn_run s es t"
  by (induction rule: calls_run.induct) (auto intro: start call)

lemma calls_run_once: "P c \<Longrightarrow> calls_run P s (events (conn_do env c s)) (final (conn_do env c s))"
  using calls_call [OF calls_start _ refl] by fastforce

end
