(* ===== verification/ConnType.thy ===== *)
theory ConnType imports ConnSteps begin

text \<open>
  The well-formedness of a connection: the invariants of its parts, the queue of packets out of order,
  the receive buffer, the send window and the counters, and the width of its numbers, hold together
  over any sequence of calls.
\<close>

definition conn_parts_ok :: "conn \<Rightarrow> bool" where
  "conn_parts_ok s \<longleftrightarrow> cq_inv (cn_recvQueue s) \<and> bb_inv (cn_recvBuffer s)
     \<and> sw_sized (cn_sendWindow s) \<and> stat_inv (cn_statistic s)"

definition conn_numbers_ok :: "conn \<Rightarrow> bool" where
  "conn_numbers_ok s \<longleftrightarrow> u16 (cn_seqNr s) \<and> u16 (cn_ackNr s)"

lemmas conn_ok_def = conn_parts_ok_def conn_numbers_ok_def

definition keeps :: "conn \<Rightarrow> conn \<Rightarrow> bool" where
  "keeps s t \<longleftrightarrow> (conn_parts_ok s \<longrightarrow> conn_parts_ok t) \<and> (conn_numbers_ok s \<longrightarrow> conn_numbers_ok t)
     \<and> cq_capacity (cn_recvQueue t) = cq_capacity (cn_recvQueue s)"

interpretation keeps: preorder_rel keeps
  by unfold_locales (simp_all add: keeps_def)

abbreviation kept :: "'a conn_eff \<Rightarrow> bool" where
  "kept m \<equiv> obeys (\<lambda>s es t. keeps s t) m"

subsection \<open>The parts\<close>

lemma u16_mask [simp]: "u16 (js_and n 65535)"
  using seq_add_u16 [of n 0] by (simp add: seq_add_def)

lemma setState_ok:
  "conn_parts_ok (fst (set_localState st s)) = conn_parts_ok s"
  "conn_numbers_ok (fst (set_localState st s)) = conn_numbers_ok s"
  "cn_recvQueue (fst (set_localState st s)) = cn_recvQueue s"
  by (simp_all add: set_localState_def notifyStateChange_def split_beta conn_ok_def)

lemma clear_capacity: "cq_capacity (cq_clear q) = cq_capacity q"
  by (simp add: cq_clear_def)

text \<open>Each step keeps them, so every method does.\<close>

interpretation kept: connecting_steps "\<lambda>s es t. keeps s t"
proof
  fix s :: conn and k st op x n a es
  show "keeps s (s\<lparr>cn_statistic := stat_updateSentData k (cn_statistic s)\<rparr>)"
    using stat_do_inv [of "cn_statistic s" "StSent k"] by (simp add: keeps_def conn_ok_def)
  show "keeps s (s\<lparr>cn_statistic := stat_do op (cn_statistic s)\<rparr>)"
    by (simp add: keeps_def conn_ok_def stat_do_inv)
  show "keeps s (s\<lparr>cn_sendWindow := fst (sw_do a (cn_sendWindow s))\<rparr>)"
    by (simp add: keeps_def conn_ok_def sw_sized_do)
  show "keeps s (fst (set_localState st s))" by (simp add: keeps_def setState_ok)
next
  fix s :: conn and r k buf outs
  assume "bb_read r k (cn_recvBuffer s) = Inr (buf, outs)"
  then show "keeps s (s\<lparr>cn_recvBuffer := buf\<rparr>)" using bb_read_inv by (auto simp: keeps_def conn_ok_def)
qed (simp_all add: keeps_def conn_ok_def set_localSeqNr_def set_localAckNr_def conn_addListener_def
    conn_removeListener_def bb_drain_inv bb_write_inv cq_enqueue_inv cq_dequeue_inv clear_capacity)

lemma conn_run_keeps: "conn_run s es t \<Longrightarrow> keeps s t"
  by (induction rule: conn_run.induct) (auto intro: keeps.rel_refl keeps.rel_trans obeysD [OF kept.every_do])

lemma conn_new_ok:
  "conn_parts_ok (fst (conn_new env st addr sendId recvId seqNr ackNr))"
  "u16 seqNr \<Longrightarrow> u16 ackNr \<Longrightarrow> conn_numbers_ok (fst (conn_new env st addr sendId recvId seqNr ackNr))"
  by (simp_all add: conn_ok_def conn_new_def Let_def sw_new_sized stat_new_inv)

text \<open>
  C9. Well-formedness. From its creation with 16-bit numbers on, over any sequence of calls whatever
  packets the peer sends, a connection keeps 16-bit sequence and acknowledgement numbers, holds at
  most 8192 packets out of order (4096 on the accepting side) under distinct numbers, has at most 64
  packets in flight with a window between 1 and 64, has readers waiting only while there is no data for them,
  and its counters add up.
\<close>

theorem conn_well_formed:
  assumes "u16 seqNr" "u16 ackNr" "conn_run (fst (conn_new env st addr sendId recvId seqNr ackNr)) es t"
  shows "u16 (cn_seqNr t) \<and> u16 (cn_ackNr t)
    \<and> cq_size (cn_recvQueue t) \<le> (if st = CS_SYN_SENT then 8192 else 4096) \<and> distinct (cq_keys (cn_recvQueue t))
    \<and> bm_size (sw_packetMap (cn_sendWindow t)) \<le> 64
    \<and> 1 \<le> bm_capacity (sw_packetMap (cn_sendWindow t)) \<and> bm_capacity (sw_packetMap (cn_sendWindow t)) \<le> 64
    \<and> (bb_readers (cn_recvBuffer t) = [] \<or> bb_buffer (cn_recvBuffer t) = [])
    \<and> traffic_inv (st_sent (cn_statistic t)) \<and> traffic_inv (st_recv (cn_statistic t))"
proof -
  let ?s = "fst (conn_new env st addr sendId recvId seqNr ackNr)"
  have k: "keeps ?s t" by (rule conn_run_keeps [OF assms(3)])
  then have ok: "conn_parts_ok t" "conn_numbers_ok t"
    using conn_new_ok(1) conn_new_ok(2) [OF assms(1,2)] by (simp_all add: keeps_def)
  have "cq_capacity (cn_recvQueue t) = (if st = CS_SYN_SENT then 8192 else 4096)"
    using k by (simp add: keeps_def conn_new_def Let_def cq_new_def MAX_RECV_QUEUE_SIZE_def MIN_RECV_QUEUE_SIZE_def)
  then have "cq_size (cn_recvQueue t) \<le> (if st = CS_SYN_SENT then 8192 else 4096)"
    using ok by (simp add: conn_ok_def cq_inv_def split: if_splits)
  moreover have "distinct (cq_keys (cn_recvQueue t))" using ok by (intro cq_keys_distinct) (simp add: conn_ok_def)
  ultimately show ?thesis using ok by (auto simp: conn_ok_def sw_sized_def bb_inv_def stat_inv_def)
qed

theorem conn_well_formed_witness:
  "u16 (cn_seqNr (final (conn_do sample_env CallClose closing_conn)))
   \<and> cq_size (cn_recvQueue (final (conn_do sample_env CallClose closing_conn))) \<le> 4096"
  using conn_well_formed [OF _ _ conn_run_once [of closing_conn sample_env CallClose, unfolded closing_conn_def]]
  by (simp add: closing_conn_def u16_def)

text \<open>
  C39. The speeds a connection reports. From its creation on, over any sequence of calls and of
  seconds, the average write speed, a rounded quotient, lies between the least and the greatest speed
  of a second, and so does the average read speed; and what was sent or received in all is what the
  seconds measured plus what was counted since.
\<close>

theorem conn_speeds:
  assumes "conn_run (fst (conn_new env st addr sendId recvId seqNr ackNr)) es t"
    and "conn_maxWriteSpeed t \<le> 2 ^ 53" "conn_maxReadSpeed t \<le> 2 ^ 53"
  shows "of_nat (conn_minWriteSpeed t) \<le> conn_averageWriteSpeed t \<and> conn_averageWriteSpeed t \<le> of_nat (conn_maxWriteSpeed t)
    \<and> of_nat (conn_minReadSpeed t) \<le> conn_averageReadSpeed t \<and> conn_averageReadSpeed t \<le> of_nat (conn_maxReadSpeed t)
    \<and> stat_totalSentData (cn_statistic t) = tr_accumulator (st_sent (cn_statistic t)) + stat_lastSentSpeed (cn_statistic t)
    \<and> stat_totalRecvData (cn_statistic t) = tr_accumulator (st_recv (cn_statistic t)) + stat_lastRecvSpeed (cn_statistic t)"
proof -
  have "conn_parts_ok t" using conn_run_keeps [OF assms(1)] conn_new_ok(1) by (simp add: keeps_def)
  then have inv: "traffic_inv (st_sent (cn_statistic t))" "traffic_inv (st_recv (cn_statistic t))"
    by (simp_all add: conn_parts_ok_def stat_inv_def)
  show ?thesis
    using traffic_average_bounds [OF inv(1)] traffic_average_bounds [OF inv(2)] assms(2,3) inv
    unfolding conn_maxWriteSpeed_def conn_minWriteSpeed_def conn_averageWriteSpeed_def conn_maxReadSpeed_def
      conn_minReadSpeed_def conn_averageReadSpeed_def stat_maxSentSpeed_def stat_minSentSpeed_def stat_averageSentSpeed_def
      stat_maxRecvSpeed_def stat_minRecvSpeed_def stat_averageRecvSpeed_def stat_totalSentData_def stat_totalRecvData_def
      stat_lastSentSpeed_def stat_lastRecvSpeed_def
    by (simp add: traffic_inv_def)
qed

theorem conn_speeds_witness:
  "conn_averageWriteSpeed (final (conn_do sample_env CallStatTick closing_conn))
    \<le> of_nat (conn_maxWriteSpeed (final (conn_do sample_env CallStatTick closing_conn)))"
  using conn_speeds [OF conn_run_once [of closing_conn sample_env CallStatTick, unfolded closing_conn_def]]
  by (simp add: closing_conn_def conn_statTick_def conn_new_def Let_def stat_new_def conn_maxWriteSpeed_def
      conn_maxReadSpeed_def stat_maxSentSpeed_def stat_maxRecvSpeed_def traffic_zero_def)

end
