(* ===== verification/Listener.thy ===== *)
theory Listener imports Prelude begin

text \<open>
  The listener (\<open>src/utp_listener.ts\<close>): connections queue up until \<open>accept\<close> asks for them, or an
  \<open>accept\<close> waits for the next connection. A connection is a reference of the type \<open>'c\<close>, a promise of
  \<open>accept\<close> a name; what an operation causes outside comes back as a list.
\<close>

record 'c listener =
  li_connections :: "'c list"
  li_pending :: "'c list"
  li_isClosed :: bool
  li_resolveNext :: "nat option"

text \<open>A promise is resolved with a connection or with \<open>null\<close>; a connection is told to close.\<close>

datatype 'c li_ev = LiResolve nat "'c option" | LiCloseConn 'c

definition li_new :: "'c listener" where
  "li_new = \<lparr>li_connections = [], li_pending = [], li_isClosed = False, li_resolveNext = None\<rparr>"

definition li_addConnection :: "'c \<Rightarrow> 'c listener \<Rightarrow> 'c listener \<times> 'c li_ev list" where
  "li_addConnection c l =
     (if li_isClosed l then (l, [LiCloseConn c])
      else
        (let l1 = l\<lparr>li_connections := li_connections l @ [c]\<rparr> in
         case li_resolveNext l1 of
           Some w \<Rightarrow> (l1\<lparr>li_resolveNext := None\<rparr>, [LiResolve w (Some c)])
         | None \<Rightarrow> (l1\<lparr>li_pending := li_pending l1 @ [c]\<rparr>, [])))"

text \<open>\<open>accept\<close> whose promise is \<open>w\<close>.\<close>

definition li_accept :: "nat \<Rightarrow> 'c listener \<Rightarrow> js_error + ('c listener \<times> 'c li_ev list)" where
  "li_accept w l =
     (if li_isClosed l then Inl ListenerClosed
      else case li_pending l of
        c # cs \<Rightarrow> Inr (l\<lparr>li_pending := cs\<rparr>, [LiResolve w (Some c)])
      | [] \<Rightarrow> Inr (l\<lparr>li_resolveNext := Some w\<rparr>, []))"

definition li_close :: "'c listener \<Rightarrow> 'c listener \<times> 'c li_ev list" where
  "li_close l =
     (let l1 = l\<lparr>li_isClosed := True, li_connections := [], li_pending := []\<rparr>;
          closing = map LiCloseConn (li_connections l)
      in case li_resolveNext l1 of
           Some w \<Rightarrow> (l1\<lparr>li_resolveNext := None\<rparr>, closing @ [LiResolve w None])
         | None \<Rightarrow> (l1, closing))"

text \<open>\<open>next\<close> of the asynchronous iterator: \<open>None\<close> says \<open>done\<close>, when \<open>accept\<close> threw.\<close>

definition li_next :: "nat \<Rightarrow> 'c listener \<Rightarrow> ('c listener \<times> 'c li_ev list) option" where
  "li_next w l = (case li_accept w l of Inl e \<Rightarrow> None | Inr r \<Rightarrow> Some r)"

subsection \<open>Sequences of operations\<close>

datatype 'c li_op = LiAdd 'c | LiAccept nat | LiNext nat | LiClose

fun li_do :: "'c li_op \<Rightarrow> 'c listener \<Rightarrow> 'c listener \<times> 'c li_ev list" where
  "li_do (LiAdd c) l = li_addConnection c l"
| "li_do (LiAccept w) l = (case li_accept w l of Inl e \<Rightarrow> (l, []) | Inr r \<Rightarrow> r)"
| "li_do (LiNext w) l = (case li_next w l of None \<Rightarrow> (l, []) | Some r \<Rightarrow> r)"
| "li_do LiClose l = li_close l"

definition added :: "'c li_op list \<Rightarrow> 'c list" where
  "added ops = concat (map (\<lambda>op. case op of LiAdd c \<Rightarrow> [c] | _ \<Rightarrow> []) ops)"

definition asked :: "'c li_op list \<Rightarrow> nat list" where
  "asked ops = concat (map (\<lambda>op. case op of LiAccept w \<Rightarrow> [w] | LiNext w \<Rightarrow> [w] | _ \<Rightarrow> []) ops)"

definition given :: "'c li_ev list \<Rightarrow> 'c list" where
  "given evs = concat (map (\<lambda>e. case e of LiResolve w (Some c) \<Rightarrow> [c] | _ \<Rightarrow> []) evs)"

definition answered :: "'c li_ev list \<Rightarrow> nat list" where
  "answered evs = concat (map (\<lambda>e. case e of LiResolve w (Some c) \<Rightarrow> [w] | _ \<Rightarrow> []) evs)"

lemma li_lists_simps [simp]:
  "added [] = []" "added (LiAdd c # ops) = c # added ops" "added (LiAccept w # ops) = added ops"
  "added (LiNext w # ops) = added ops" "added (LiClose # ops) = added ops"
  "asked [] = []" "asked (LiAdd c # ops) = asked ops" "asked (LiAccept w # ops) = w # asked ops"
  "asked (LiNext w # ops) = w # asked ops" "asked (LiClose # ops) = asked ops"
  "given [] = []" "given (LiResolve w (Some c) # evs) = c # given evs" "given (evs @ fs) = given evs @ given fs"
  "answered [] = []" "answered (LiResolve w (Some c) # evs) = w # answered evs"
  "answered (evs @ fs) = answered evs @ answered fs"
  by (simp_all add: added_def asked_def given_def answered_def)

definition li_waiters :: "'c listener \<Rightarrow> nat list" where
  "li_waiters l = (case li_resolveNext l of None \<Rightarrow> [] | Some w \<Rightarrow> [w])"

text \<open>No \<open>accept\<close> is called while another waits.\<close>

fun li_sequential :: "'c li_op list \<Rightarrow> 'c listener \<Rightarrow> bool" where
  "li_sequential [] l = True"
| "li_sequential (op # ops) l =
     ((case op of LiAccept w \<Rightarrow> li_resolveNext l = None | LiNext w \<Rightarrow> li_resolveNext l = None | _ \<Rightarrow> True)
      \<and> li_sequential ops (fst (li_do op l)))"

definition li_inv :: "'c listener \<Rightarrow> bool" where
  "li_inv l \<longleftrightarrow> (li_resolveNext l = None \<or> li_pending l = [])
     \<and> (li_isClosed l \<longrightarrow> li_connections l = [] \<and> li_pending l = [] \<and> li_resolveNext l = None)"

lemmas li_defs = li_addConnection_def li_accept_def li_next_def li_close_def li_inv_def li_waiters_def

lemma li_do_inv: "li_inv l \<Longrightarrow> li_inv (fst (li_do op l))"
  by (cases op) (auto simp: li_defs Let_def split: option.split list.split)

text \<open>
  An open listener that is not closed: what it was given and what it has pending is what it had and
  what was added, in order.
\<close>

lemma li_do_open:
  assumes "li_inv l" "\<not> li_isClosed l" "op \<noteq> LiClose"
  shows "\<not> li_isClosed (fst (li_do op l))"
    and "given (snd (li_do op l)) @ li_pending (fst (li_do op l)) = li_pending l @ added [op]"
    and "li_connections (fst (li_do op l)) = li_connections l @ added [op]"
  using assms by (cases op; auto simp: li_defs Let_def split: option.split list.split)+

lemma li_do_answers:
  assumes "li_inv l" "\<not> li_isClosed l" "op \<noteq> LiClose" "li_sequential [op] l"
  shows "answered (snd (li_do op l)) @ li_waiters (fst (li_do op l)) = li_waiters l @ asked [op]"
  using assms by (cases op) (auto simp: li_defs Let_def split: option.split list.split)

lemma li_cons:
  "added (op # ops) = added [op] @ added ops" "asked (op # ops) = asked [op] @ asked ops"
  by (cases op; simp)+

lemma li_run_open:
  assumes "li_inv l" "\<not> li_isClosed l" "LiClose \<notin> set ops"
  shows "given (snd (thread li_do ops l)) @ li_pending (fst (thread li_do ops l)) = li_pending l @ added ops
    \<and> li_connections (fst (thread li_do ops l)) = li_connections l @ added ops
    \<and> li_inv (fst (thread li_do ops l))
    \<and> (li_sequential ops l \<longrightarrow>
        answered (snd (thread li_do ops l)) @ li_waiters (fst (thread li_do ops l)) = li_waiters l @ asked ops)"
  using assms
proof (induction ops arbitrary: l)
  case Nil
  then show ?case by simp
next
  case (Cons op ops)
  let ?l = "fst (li_do op l)"
  have op: "op \<noteq> LiClose" and ops: "LiClose \<notin> set ops" using Cons.prems(3) by auto
  note IH = Cons.IH [OF li_do_inv [OF Cons.prems(1)] li_do_open(1) [OF Cons.prems(1,2) op] ops]
  have "given (snd (li_do op l)) @ given (snd (thread li_do ops ?l)) @ li_pending (fst (thread li_do ops ?l))
      = li_pending l @ added (op # ops)"
    using IH li_do_open(2) [OF Cons.prems(1,2) op]
    by (simp only: li_cons(1) [of op ops] append_assoc) (simp only: append_assoc [symmetric])
  moreover have "li_connections (fst (thread li_do ops ?l)) = li_connections l @ added (op # ops)"
    using IH li_do_open(3) [OF Cons.prems(1,2) op] by (simp only: li_cons(1) [of op ops] append_assoc)
  moreover have "answered (snd (li_do op l)) @ answered (snd (thread li_do ops ?l)) @ li_waiters (fst (thread li_do ops ?l))
      = li_waiters l @ asked (op # ops)" if "li_sequential (op # ops) l"
    using IH li_do_answers [OF Cons.prems(1,2) op] that
    by (simp only: li_cons(2) [of op ops] append_assoc li_sequential.simps simp_thms) (simp only: append_assoc [symmetric])
  ultimately show ?case using IH by (simp add: thread_Cons)
qed

text \<open>
  C40. Connections are accepted first come, first served. Over any sequence of \<open>addConnection\<close>,
  \<open>accept\<close> and \<open>next\<close> on a listener that is not closed, the connections given out followed by the
  pending ones are exactly those added, in order; and when no \<open>accept\<close> is called while another waits,
  the promises answered followed by the one that waits are exactly those asked for, in order.
\<close>

theorem listener_fifo:
  assumes "LiClose \<notin> set ops"
  shows "given (snd (thread li_do ops li_new)) @ li_pending (fst (thread li_do ops li_new)) = added ops
    \<and> li_connections (fst (thread li_do ops li_new)) = added ops
    \<and> (li_resolveNext (fst (thread li_do ops li_new)) \<noteq> None \<longrightarrow> li_pending (fst (thread li_do ops li_new)) = [])
    \<and> (li_sequential ops li_new \<longrightarrow>
        answered (snd (thread li_do ops li_new)) @ li_waiters (fst (thread li_do ops li_new)) = asked ops)"
proof -
  have "li_inv li_new" "\<not> li_isClosed li_new" "li_pending li_new = []" "li_connections li_new = []" "li_waiters li_new = []"
    by (simp_all add: li_new_def li_inv_def li_waiters_def)
  with li_run_open [OF this(1,2) assms] show ?thesis by (auto simp: li_inv_def)
qed

definition sample_ops :: "char li_op list" where
  "sample_ops = [LiAccept 1, LiAdd CHR ''a'', LiAdd CHR ''b'', LiNext 2]"

theorem listener_fifo_witness:
  "given (snd (thread li_do sample_ops li_new)) = [CHR ''a'', CHR ''b'']
   \<and> answered (snd (thread li_do sample_ops li_new)) = [1, 2]"
proof -
  have "li_pending (fst (thread li_do sample_ops li_new)) = []" "li_waiters (fst (thread li_do sample_ops li_new)) = []"
    "li_sequential sample_ops li_new" "LiClose \<notin> set sample_ops" "added sample_ops = [CHR ''a'', CHR ''b'']"
    "asked sample_ops = [1, 2]"
    by (simp_all add: sample_ops_def li_new_def li_defs thread_Cons)
  then show ?thesis using listener_fifo [of sample_ops] by simp
qed

text \<open>Closing tells every connection it was given to close, and answers a waiting \<open>accept\<close> with \<open>null\<close>.\<close>

lemma li_close_all:
  "LiCloseConn c \<in> set (snd (li_close l)) \<longleftrightarrow> c \<in> set (li_connections l)"
  "li_isClosed (fst (li_close l))" "li_accept w (fst (li_close l)) = Inl ListenerClosed"
  by (auto simp: li_close_def li_accept_def Let_def split: option.split)

text \<open>A second \<open>accept\<close> takes the place of one that waits, whose promise is then never resolved.\<close>

lemma li_accept_overlap:
  assumes "\<not> li_isClosed l" "li_pending l = []" "w \<noteq> v"
  shows "\<exists>l1 l2. li_accept w l = Inr (l1, []) \<and> li_accept v l1 = Inr (l2, []) \<and> li_waiters l2 = [v]
    \<and> snd (li_addConnection c l2) = [LiResolve v (Some c)]"
  using assms by (simp add: li_defs)

end
