(* ===== verification/Socket.thy ===== *)
theory Socket imports ConnType Listener begin

text \<open>
  The socket (\<open>src/utp_socket.ts\<close>): the table of connections, the dispatch of datagrams to them, the
  timer that checks them, listening, connecting and closing.

  Connections are shared by the table, the listener and the application, so they are kept in a store
  and named by their place in it (\<open>ut_conns\<close>). A method of a connection runs on its entry of the
  store; what it causes reaches the socket: its sends, its entering and leaving the table, and the
  promise of \<open>connectTo\<close> (named like the connection) that makes the listener get the connection. The
  reactions to promises run when the method has ended.

  Of the environment, \<open>env_send\<close> is here what the UDP socket answers for the encoded packet. Numbers
  drawn at random are parameters.
\<close>

datatype utp_state = US_ACTIVE | US_CLOSE_WAIT | US_CLOSED

record utp =
  ut_udpSocket :: bool
  ut_listener :: "nat listener"
  ut_connTable :: "(string, nat) js_map"
  ut_state :: utp_state
  ut_totalBytesWritten :: nat
  ut_totalBytesRead :: nat
  ut_totalUdpPacketSent :: nat
  ut_totalUdpPacketReceived :: nat
  ut_utpPacketReceived :: nat
  ut_mockPacketLossRate :: rat
  ut_mockPacketLossEnabled :: bool
  ut_timer :: bool
  ut_conns :: "conn list"

datatype utp_ev =
    UdpListen
  | UdpSend "byte list" utp_addr
  | UdpClose
  | TimeoutTimer bool
  | OfConn nat conn_ev
  | OfListener "nat li_ev"

type_synonym 'a utp_eff = "(utp, utp_ev, 'a) eff"

definition utp_new :: utp where
  "utp_new = \<lparr>ut_udpSocket = False, ut_listener = li_new, ut_connTable = [], ut_state = US_ACTIVE,
     ut_totalBytesWritten = 0, ut_totalBytesRead = 0, ut_totalUdpPacketSent = 0, ut_totalUdpPacketReceived = 0,
     ut_utpPacketReceived = 0, ut_mockPacketLossRate = 1 / 100, ut_mockPacketLossEnabled = False,
     ut_timer = False, ut_conns = []\<rparr>"

definition utp_isClosed :: "utp \<Rightarrow> bool" where
  "utp_isClosed u \<longleftrightarrow> ut_state u = US_CLOSED"

definition utp_isCloseWait :: "utp \<Rightarrow> bool" where
  "utp_isCloseWait u \<longleftrightarrow> ut_state u = US_CLOSE_WAIT"

definition utp_isActive :: "utp \<Rightarrow> bool" where
  "utp_isActive u \<longleftrightarrow> ut_state u = US_ACTIVE"

subsection \<open>The table\<close>

definition utp_addConn :: "string \<Rightarrow> nat \<Rightarrow> utp \<Rightarrow> utp" where
  "utp_addConn uid c u = u\<lparr>ut_connTable := jm_set uid c (ut_connTable u)\<rparr>"

definition utp_removeCon :: "string \<Rightarrow> utp \<Rightarrow> utp" where
  "utp_removeCon uid u = u\<lparr>ut_connTable := jm_del uid (ut_connTable u)\<rparr>"

definition utp_findConn :: "string \<Rightarrow> utp \<Rightarrow> nat option" where
  "utp_findConn uid u = jm_get (ut_connTable u) uid"

definition utp_hasConn :: "string \<Rightarrow> utp \<Rightarrow> bool" where
  "utp_hasConn uid u = jm_has (ut_connTable u) uid"

definition utp_connSize :: "utp \<Rightarrow> nat" where
  "utp_connSize u = length (ut_connTable u)"

subsection \<open>Sending\<close>

text \<open>What a call of \<open>sendUtpPacket\<close> answers, and what it does.\<close>

definition utp_sendAnswer :: "env \<Rightarrow> utp \<Rightarrow> packet \<Rightarrow> js_error + nat" where
  "utp_sendAnswer env u p =
     (if utp_isClosed u then Inr 0
      else case env_send env p of
        Inl e \<Rightarrow> Inl e
      | Inr n \<Rightarrow> if n = length (packet_toBytes p) then Inr n else Inl AssertionError)"

definition utp_sendUtpPacket :: "packet \<Rightarrow> utp_addr \<Rightarrow> utp \<Rightarrow> utp \<times> utp_ev list" where
  "utp_sendUtpPacket p addr u =
     (if utp_isClosed u then (u, [])
      else
        (let bytes = packet_toBytes p in
         (u\<lparr>ut_totalBytesWritten := ut_totalBytesWritten u + length bytes,
            ut_totalUdpPacketSent := ut_totalUdpPacketSent u + 1\<rparr>,
          [UdpSend bytes addr])))"

definition conn_env :: "env \<Rightarrow> utp \<Rightarrow> env" where
  "conn_env env u = env\<lparr>env_send := utp_sendAnswer env u\<rparr>"

subsection \<open>Running a method of a connection\<close>

definition absorbOne :: "nat \<Rightarrow> conn_ev \<Rightarrow> utp \<Rightarrow> utp \<times> utp_ev list" where
  "absorbOne c e u =
     (case e of
        EvSend p addr \<Rightarrow> utp_sendUtpPacket p addr u
      | EvAddConn uid \<Rightarrow> (utp_addConn uid c u, [])
      | EvRemoveConn uid \<Rightarrow> (utp_removeCon uid u, [])
      | _ \<Rightarrow> (u, [OfConn c e]))"

definition absorb :: "nat \<Rightarrow> conn_ev list \<Rightarrow> utp \<Rightarrow> utp \<times> utp_ev list" where
  "absorb c es u = thread (absorbOne c) es u"

definition onConn :: "env \<Rightarrow> nat \<Rightarrow> (env \<Rightarrow> 'a conn_eff) \<Rightarrow> 'a utp_eff" where
  "onConn env c m = (\<lambda>u.
     let x = m (conn_env env u) (ut_conns u ! c);
         (u1, es) = absorb c (events x) (u\<lparr>ut_conns := (ut_conns u)[c := final x]\<rparr>)
     in (u1, es, result x))"

text \<open>\<open>conn.close()\<close> whose promise nobody awaits: if it rejects, the rejection is unhandled.\<close>

definition closeConn :: "env \<Rightarrow> nat \<Rightarrow> unit utp_eff" where
  "closeConn env c = eff_try (eff_bind (onConn env c conn_close) (\<lambda>_. eff_return ())) (\<lambda>e. eff_emit [OfConn c (EvUnhandled e)])"

fun ofListener :: "env \<Rightarrow> nat li_ev \<Rightarrow> unit utp_eff" where
  "ofListener env (LiCloseConn c) = closeConn env c"
| "ofListener env (LiResolve w c) = eff_emit [OfListener (LiResolve w c)]"

definition utp_addConnection :: "env \<Rightarrow> nat \<Rightarrow> unit utp_eff" where
  "utp_addConnection env c =
     eff_read (\<lambda>u. li_addConnection c (ut_listener u)) (\<lambda>(l, outs).
     eff_then (eff_modify (\<lambda>u. u\<lparr>ut_listener := l\<rparr>)) (eff_forEach (ofListener env) outs))"

text \<open>
  Does a method of the connection \<open>c\<close> settle its promise well, and is it one that \<open>dispatch\<close> made for
  the listener?
\<close>

definition accepted_by :: "nat \<Rightarrow> conn_ev list \<Rightarrow> conn \<Rightarrow> bool" where
  "accepted_by c es s \<longleftrightarrow> EvSettle c CS_CONNECTED \<in> set es \<and> \<not> cn_isInitiator s"

definition runConn :: "env \<Rightarrow> nat \<Rightarrow> (env \<Rightarrow> 'a conn_eff) \<Rightarrow> 'a utp_eff" where
  "runConn env c m =
     eff_read (\<lambda>u. accepted_by c (events (m (conn_env env u) (ut_conns u ! c))) (ut_conns u ! c)) (\<lambda>accepted.
     eff_bind (eff_try (eff_bind (onConn env c m) (\<lambda>x. eff_return (Inr x))) (\<lambda>e. eff_return (Inl e))) (\<lambda>r.
     eff_then (eff_when accepted (utp_addConnection env c))
       (case r of Inl e \<Rightarrow> eff_throw e | Inr x \<Rightarrow> eff_return x)))"

subsection \<open>Connecting, listening, receiving\<close>

text \<open>\<open>UtpConn.connectTo\<close> up to the promise it returns.\<close>

definition utp_connectTo :: "env \<Rightarrow> conn_state \<Rightarrow> utp_addr \<Rightarrow> int \<Rightarrow> int \<Rightarrow> int \<Rightarrow> int \<Rightarrow> nat utp_eff" where
  "utp_connectTo env initState remoteAddr sendId recvId seqNr ackNr =
     eff_read (\<lambda>u. length (ut_conns u)) (\<lambda>c.
     eff_then (eff_update (\<lambda>u. let (s, es) = conn_new env initState remoteAddr sendId recvId seqNr ackNr
                               in absorb c es (u\<lparr>ut_conns := ut_conns u @ [s]\<rparr>)))
     (eff_then (runConn env c (\<lambda>e. waitForConnecting e c)) (eff_return c)))"

text \<open>\<open>local\<close> is what \<open>Deno.listenDatagram\<close> answers: the address of the UDP socket, or the error it throws.\<close>

definition utp_createUdpSocketIfNone :: "js_error + deno_addr \<Rightarrow> unit utp_eff" where
  "utp_createUdpSocketIfNone local =
     eff_read ut_udpSocket (\<lambda>present.
     if present then eff_return ()
     else
       (case local of
          Inl e \<Rightarrow> eff_throw e
        | Inr localAddr \<Rightarrow>
            eff_then (eff_update (\<lambda>u. (u\<lparr>ut_udpSocket := True\<rparr>, [UdpListen])))
            (case addr_fromDenoAddr localAddr of
               Inl e \<Rightarrow> eff_throw e
             | Inr _ \<Rightarrow> eff_update (\<lambda>u. (u\<lparr>ut_timer := True\<rparr>, [TimeoutTimer True])))))"

definition utp_connect :: "env \<Rightarrow> js_error + deno_addr \<Rightarrow> int \<Rightarrow> int \<Rightarrow> string \<Rightarrow> nat utp_eff" where
  "utp_connect env local random port hostname =
     eff_then (utp_createUdpSocketIfNone local)
     (case addr_create port hostname of
        Inl e \<Rightarrow> eff_throw e
      | Inr remoteAddr \<Rightarrow> utp_connectTo env CS_SYN_SENT remoteAddr (random + 1) random 1 0)"

definition utp_listen :: "js_error + deno_addr \<Rightarrow> int \<Rightarrow> string \<Rightarrow> unit utp_eff" where
  "utp_listen local port hostname =
     (case addr_create port hostname of Inl e \<Rightarrow> eff_throw e | Inr _ \<Rightarrow> utp_createUdpSocketIfNone local)"

text \<open>The connections a packet that is not a SYN may be for.\<close>

definition targetConns :: "utp_addr \<Rightarrow> packet \<Rightarrow> utp \<Rightarrow> nat list" where
  "targetConns remoteAddr p u =
     (let localRecvId = pk_connId p in
      List.map_filter (\<lambda>sendId. utp_findConn (generateUniqueId remoteAddr sendId localRecvId) u)
        [localRecvId + 1, localRecvId - 1])"

fun utp_deliver :: "env \<Rightarrow> packet \<Rightarrow> nat list \<Rightarrow> unit utp_eff" where
  "utp_deliver env p [] = eff_return ()"
| "utp_deliver env p (c # cs) =
     (if pk_type p = ST_RESET then eff_then (runConn env c conn_reset) (utp_deliver env p cs)
      else eff_bind (runConn env c (\<lambda>e. handleIncomingPacket e p)) (\<lambda>handled.
             if handled then eff_return () else utp_deliver env p cs))"

definition utp_acceptSyn :: "env \<Rightarrow> int \<Rightarrow> packet \<Rightarrow> utp_addr \<Rightarrow> unit utp_eff" where
  "utp_acceptSyn env random p remoteAddr =
     (let localSendId = pk_connId p; localRecvId = pk_connId p + 1 in
      eff_read (utp_hasConn (generateUniqueId remoteAddr localSendId localRecvId)) (\<lambda>known.
      if known then eff_return ()
      else
        eff_try
          (eff_bind (utp_connectTo env CS_SYN_RECV remoteAddr localSendId localRecvId random (pk_seqNr p))
             (\<lambda>_. eff_return ()))
          (\<lambda>_. eff_return ())))"

definition utp_dispatch :: "env \<Rightarrow> int \<Rightarrow> byte list \<Rightarrow> deno_addr \<Rightarrow> unit utp_eff" where
  "utp_dispatch env random udpBytes remoteUdpAddr =
     (case packet_isPacket udpBytes of
        Inl e \<Rightarrow> eff_throw e
      | Inr False \<Rightarrow> eff_return ()
      | Inr True \<Rightarrow>
          (case packet_fromBytes udpBytes of
             Inl e \<Rightarrow> eff_throw e
           | Inr p \<Rightarrow>
               (case addr_fromDenoAddr remoteUdpAddr of
                  Inl e \<Rightarrow> eff_throw e
                | Inr remoteAddr \<Rightarrow>
                    eff_then (eff_modify (\<lambda>u. u\<lparr>ut_utpPacketReceived := ut_utpPacketReceived u + 1\<rparr>))
                    (if pk_type p = ST_SYN then utp_acceptSyn env random p remoteAddr
                     else eff_read (targetConns remoteAddr p) (\<lambda>cs. utp_deliver env p cs)))))"

text \<open>One datagram as the receive loop gets it: the random numbers for the loss and for a new connection.\<close>

record datagram =
  dg_env :: env
  dg_loss :: rat
  dg_random :: int
  dg_bytes :: "byte list"
  dg_addr :: deno_addr

definition utp_receive :: "datagram \<Rightarrow> unit utp_eff" where
  "utp_receive d =
     eff_read (\<lambda>u. ut_mockPacketLossEnabled u \<and> dg_loss d < ut_mockPacketLossRate u) (\<lambda>lost.
     if lost then eff_return ()
     else
       eff_then (eff_modify (\<lambda>u. u\<lparr>ut_totalUdpPacketReceived := ut_totalUdpPacketReceived u + 1,
                     ut_totalBytesRead := ut_totalBytesRead u + length (dg_bytes d)\<rparr>))
         (utp_dispatch (dg_env d) (dg_random d) (dg_bytes d) (dg_addr d)))"

text \<open>\<open>startListen\<close> on the datagrams that come; an error ends the loop unless the socket is closed.\<close>

fun utp_startListen :: "datagram list \<Rightarrow> unit utp_eff" where
  "utp_startListen [] = eff_return ()"
| "utp_startListen (d # ds) =
     eff_read utp_isClosed (\<lambda>closed.
     if closed then eff_return ()
     else
       eff_then
         (eff_try (utp_receive d)
            (\<lambda>e. eff_read utp_isClosed (\<lambda>closed. if closed then eff_return () else eff_throw e)))
         (utp_startListen ds))"

subsection \<open>The timer and closing\<close>

definition utp_timeoutOne :: "env \<Rightarrow> string \<times> nat \<Rightarrow> unit utp_eff" where
  "utp_timeoutOne env entry =
     eff_read (\<lambda>u. utp_findConn (fst entry) u = Some (snd entry)
                 \<and> cn_state (ut_conns u ! snd entry) \<notin> {CS_CLOSED, CS_RESET}) (\<lambda>due.
     eff_when due (runConn env (snd entry) conn_timeoutCheck))"

definition utp_timeoutCheck :: "env \<Rightarrow> unit utp_eff" where
  "utp_timeoutCheck env = eff_read ut_connTable (\<lambda>entries. eff_forEach (utp_timeoutOne env) entries)"

definition utp_startTimeoutCheck :: "unit utp_eff" where
  "utp_startTimeoutCheck = eff_update (\<lambda>u. (u\<lparr>ut_timer := True\<rparr>, [TimeoutTimer True]))"

definition utp_stopTimeoutCheck :: "unit utp_eff" where
  "utp_stopTimeoutCheck = eff_update (\<lambda>u. (u\<lparr>ut_timer := False\<rparr>, [TimeoutTimer False]))"

definition utp_tryCloseSocket :: "env \<Rightarrow> bool utp_eff" where
  "utp_tryCloseSocket env =
     eff_read (\<lambda>u. u) (\<lambda>u.
     if utp_connSize u = 0 then
       eff_then utp_stopTimeoutCheck
       (if \<not> ut_udpSocket u then eff_throw TypeError
        else
          eff_then (eff_emit [UdpClose])
          (eff_then (eff_modify (\<lambda>u. u\<lparr>ut_state := US_CLOSED\<rparr>)) (eff_return True)))
     else
       eff_then
         (eff_forEach (closeConn env)
            (filter (\<lambda>c. cn_state (ut_conns u ! c) \<notin> {CS_CLOSE_WAIT, CS_CLOSED}) (map snd (ut_connTable u))))
         (eff_return False))"

text \<open>\<open>close\<close> answers whether its promise is resolved; if not, an interval goes on with \<open>tryCloseSocket\<close>.\<close>

definition utp_close :: "env \<Rightarrow> bool utp_eff" where
  "utp_close env =
     eff_read ut_state (\<lambda>st.
     if st = US_CLOSED then eff_return True
     else if st = US_CLOSE_WAIT then eff_return True
     else
       eff_then (eff_modify (\<lambda>u. u\<lparr>ut_state := US_CLOSE_WAIT\<rparr>))
       (eff_then
          (eff_read (\<lambda>u. li_close (ut_listener u)) (\<lambda>(l, outs).
           eff_then (eff_modify (\<lambda>u. u\<lparr>ut_listener := l\<rparr>)) (eff_forEach (ofListener env) outs)))
       (utp_tryCloseSocket env)))"

end
