(* ===== verification/Display.thy ===== *)
theory Display imports Logging Socket begin

text \<open>
  What the program prints of its values: packets, extensions and connections (\<open>toString\<close>,
  \<open>print\<close>, \<open>tag\<close>, \<open>printConnTableKeys\<close>), and that the text of an extension determines it.
\<close>

subsection \<open>Digits\<close>

definition radix_digit :: "nat \<Rightarrow> char" where
  "radix_digit d = (if d < 10 then char_of (48 + d) else char_of (87 + d))"

text \<open>\<open>Number.prototype.toString\<close> with a radix, on natural numbers.\<close>

function radix_toString :: "nat \<Rightarrow> nat \<Rightarrow> string" where
  "radix_toString r n =
     (if r < 2 \<or> n < r then [radix_digit n] else radix_toString r (n div r) @ [radix_digit (n mod r)])"
  by pat_completeness auto
termination by (relation "measure snd") (auto intro: div_less_dividend)

declare radix_toString.simps [simp del]

definition padStart :: "nat \<Rightarrow> string \<Rightarrow> string" where
  "padStart n s = replicate (n - length s) CHR ''0'' @ s"

fun js_join :: "string \<Rightarrow> string list \<Rightarrow> string" where
  "js_join sep [] = ''''"
| "js_join sep [x] = x"
| "js_join sep (x # y # xs) = x @ sep @ js_join sep (y # xs)"

subsection \<open>Packets and extensions\<close>

definition bitmaskToBinaryString :: "byte list \<Rightarrow> string" where
  "bitmaskToBinaryString bitmask = js_join '' '' (map (\<lambda>b. padStart 8 (radix_toString 2 (unat b))) bitmask)"

definition sack_toString :: "sack \<Rightarrow> string" where
  "sack_toString k = ''UtpSelectiveAckExtension{base: '' @ int_toString (sack_base k) @ '', bitmask: ''
     @ bitmaskToBinaryString (sack_bitmask k) @ ''}''"

definition extBits_toString :: "byte list \<Rightarrow> string" where
  "extBits_toString bits =
     (let hex = js_join '''' (map (\<lambda>b. padStart 2 (radix_toString 16 (unat b))) bits)
      in ''ExtensionBits{0x'' @ hex @ ''}'')"

definition packet_typeName :: "int \<Rightarrow> string" where
  "packet_typeName t =
     (if t = ST_DATA then ''ST_DATA'' else if t = ST_FIN then ''ST_FIN'' else if t = ST_STATE then ''ST_STATE''
      else if t = ST_RESET then ''ST_RESET'' else if t = ST_SYN then ''ST_SYN'' else ''undefined'')"

text \<open>A number that may be \<open>NaN\<close>, and the length of data that may be absent.\<close>

definition tsDiff_toString :: "int option \<Rightarrow> string" where
  "tsDiff_toString d = (case d of None \<Rightarrow> ''NaN'' | Some n \<Rightarrow> int_toString n)"

definition dataLength_toString :: "byte list option \<Rightarrow> string" where
  "dataLength_toString d = (case d of None \<Rightarrow> ''undefined'' | Some bs \<Rightarrow> int_toString (int (length bs)))"

definition newline :: string where
  "newline = [CHR 0x0A]"

definition packet_toString :: "packet \<Rightarrow> string" where
  "packet_toString p =
     ''{'' @ newline
     @ ''  type: '' @ int_toString (pk_type p) @ ''('' @ packet_typeName (pk_type p) @ ''),'' @ newline
     @ ''  version: '' @ int_toString (pk_version p) @ '','' @ newline
     @ ''  extension: '' @ int_toString (pk_extension p) @ '','' @ newline
     @ ''  connectionId: '' @ int_toString (pk_connId p) @ '','' @ newline
     @ ''  timestamp: '' @ int_toString (pk_timestamp p) @ '','' @ newline
     @ ''  timestampDifference: '' @ tsDiff_toString (pk_tsDiff p) @ '','' @ newline
     @ ''  windowSize: '' @ int_toString (pk_windowSize p) @ '','' @ newline
     @ ''  seqNumber: '' @ int_toString (pk_seqNr p) @ '','' @ newline
     @ ''  ackNumber: '' @ int_toString (pk_ackNr p) @ '','' @ newline
     @ ''  data: '' @ dataLength_toString (pk_data p) @ '','' @ newline
     @ ''}''"

definition packet_print :: "date \<Rightarrow> string \<Rightarrow> packet \<Rightarrow> loggers \<Rightarrow> console list" where
  "packet_print d tag p l = concat (map (\<lambda>message. logger_debug d tag message l)
     [''Packet: type='' @ int_toString (pk_type p) @ '', seqNr='' @ int_toString (pk_seqNr p) @ '', ackNr=''
        @ int_toString (pk_ackNr p) @ '', windowSize='' @ int_toString (pk_windowSize p),
      ''Timestamp: '' @ int_toString (pk_timestamp p) @ '', TimestampDiff: '' @ tsDiff_toString (pk_tsDiff p),
      ''Extensions: '' @ int_toString (int (length (pk_extensions p))),
      ''Payload length: '' @ dataLength_toString (pk_data p)])"

text \<open>The reading of an extension by its type, and the length of what follows the header but the data.\<close>

definition extensionBitsExtension :: "packet \<Rightarrow> byte list option" where
  "extensionBitsExtension p =
     (case find (\<lambda>e. ext_type e = 2) (pk_extensions p) of Some (BitsExt bits) \<Rightarrow> Some bits | _ \<Rightarrow> None)"

definition extensionPayloadLength :: "packet \<Rightarrow> nat" where
  "extensionPayloadLength p =
     EXTENSION_HEADER_SIZE * length (pk_extensions p) + sum_list (map (\<lambda>e. length (ext_toBytes e)) (pk_extensions p))"

lemma packet_length_parts:
  "packet_length p = HEADER_SIZE + extensionPayloadLength p + (case pk_data p of None \<Rightarrow> 0 | Some d \<Rightarrow> length d)"
  by (simp add: packet_length_def extensionPayloadLength_def)

lemma toBytes_exts_length: "length (toBytes_exts es) = 2 * length es + sum_list (map (\<lambda>e. length (ext_toBytes e)) es)"
  by (induction es) (simp_all add: Let_def put_uint8_def)

text \<open>The two getters agree with what \<open>toBytes\<close> writes between the header and the data.\<close>

lemma extensionPayload_bytes: "extensionPayloadLength p = length (toBytes_exts (pk_extensions p))"
  by (simp add: extensionPayloadLength_def toBytes_exts_length EXTENSION_HEADER_SIZE_def)

subsection \<open>Connections and the socket\<close>

fun conn_stateName :: "conn_state \<Rightarrow> string" where
  "conn_stateName CS_SYN_SENT = ''CS_SYN_SENT''"
| "conn_stateName CS_SYN_RECV = ''CS_SYN_RECV''"
| "conn_stateName CS_CONNECTED = ''CS_CONNECTED''"
| "conn_stateName CS_RESET = ''CS_RESET''"
| "conn_stateName CS_CLOSE_WAIT = ''CS_CLOSE_WAIT''"
| "conn_stateName CS_CLOSED = ''CS_CLOSED''"

definition conn_tag :: "conn \<Rightarrow> string" where
  "conn_tag s = ''[CONNECTION|'' @ conn_uniqueId s @ ''|state('' @ conn_stateName (cn_state s) @ '')]''"

definition utp_printConnTableKeys :: "date \<Rightarrow> string \<Rightarrow> utp \<Rightarrow> loggers \<Rightarrow> console list" where
  "utp_printConnTableKeys d tag u l =
     (let keys = jm_keys (ut_connTable u) in
      logger_debug d tag (''Connection table keys: ''
        @ (if length keys > 0 then js_join '', '' keys else ''None'')) l)"

text \<open>The logger of a socket has the tag of its construction; \<open>addr\<close> is the address of the UDP socket.\<close>

definition utp_enableLogging :: "string \<Rightarrow> loggers \<Rightarrow> loggers" where
  "utp_enableLogging tag l = logger_enable tag l"

definition utp_disableLogging :: "string \<Rightarrow> loggers \<Rightarrow> loggers" where
  "utp_disableLogging tag l = logger_disable tag l"

definition utp_localAddr :: "deno_addr option \<Rightarrow> utp \<Rightarrow> js_error + utp_addr option" where
  "utp_localAddr addr u =
     (case (if ut_udpSocket u then addr else None) of
        None \<Rightarrow> Inr None
      | Some a \<Rightarrow> (case addr_fromDenoAddr a of Inl e \<Rightarrow> Inl e | Inr b \<Rightarrow> Inr (Some b)))"

definition addr_fromNetAddr :: "int \<Rightarrow> string \<Rightarrow> js_error + utp_addr" where
  "addr_fromNetAddr port hostname = addr_create port hostname"

lemma fromDenoAddr_net: "addr_fromDenoAddr (NetAddr port hostname) = addr_fromNetAddr port hostname"
  by (simp add: addr_fromDenoAddr_def addr_fromNetAddr_def)

subsection \<open>The text determines the bits\<close>

definition digit_value :: "char \<Rightarrow> nat" where
  "digit_value c = (let n = of_char c in if n < 58 then n - 48 else n - 87)"

definition radix_value :: "nat \<Rightarrow> string \<Rightarrow> nat" where
  "radix_value r s = fold (\<lambda>c v. r * v + digit_value c) s 0"

lemma digit_value [simp]: "d < 16 \<Longrightarrow> digit_value (radix_digit d) = d"
  by (auto simp: digit_value_def radix_digit_def Let_def of_char_of)

lemma radix_value_toString:
  "2 \<le> r \<Longrightarrow> r \<le> 16 \<Longrightarrow> radix_value r (radix_toString r n) = n"
proof (induction r n rule: radix_toString.induct)
  case (1 r n)
  show ?case
  proof (cases "n < r")
    case True
    then show ?thesis using 1 by (subst radix_toString.simps) (simp add: radix_value_def)
  next
    case False
    have "n mod r < 16" using 1(2,3) by (simp add: order_less_le_trans [OF mod_less_divisor])
    then show ?thesis using 1 False by (subst radix_toString.simps) (simp add: radix_value_def)
  qed
qed

lemma radix_value_padStart: "radix_value r (padStart k s) = radix_value r s"
proof -
  have "fold (\<lambda>c v. r * v + digit_value c) (replicate n CHR ''0'') 0 = 0" for n
    by (induction n) (simp_all add: digit_value_def)
  then show ?thesis by (simp add: radix_value_def padStart_def)
qed

lemma length_radix_toString: "2 \<le> r \<Longrightarrow> n < r ^ k \<Longrightarrow> 0 < k \<Longrightarrow> length (radix_toString r n) \<le> k"
proof (induction k arbitrary: n)
  case (Suc k)
  show ?case
  proof (cases "n < r")
    case True
    then show ?thesis by (subst radix_toString.simps) simp
  next
    case False
    then have "0 < k" using Suc(3) by (cases k) simp_all
    moreover have "n div r < r ^ k" using Suc(2,3) by (simp add: div_less_iff_less_mult mult.commute)
    ultimately show ?thesis using Suc False by (subst radix_toString.simps) simp
  qed
qed simp

lemma byte_texts:
  fixes b :: byte
  shows "length (padStart 8 (radix_toString 2 (unat b))) = 8" "length (padStart 2 (radix_toString 16 (unat b))) = 2"
    and "radix_value 2 (padStart 8 (radix_toString 2 (unat b))) = unat b"
    and "radix_value 16 (padStart 2 (radix_toString 16 (unat b))) = unat b"
proof -
  have b: "unat b < 2 ^ 8" "unat b < 16 ^ 2" using unsigned_less [of b] by simp_all
  show "length (padStart 8 (radix_toString 2 (unat b))) = 8" "length (padStart 2 (radix_toString 16 (unat b))) = 2"
    using length_radix_toString [OF _ b(1)] length_radix_toString [OF _ b(2)] by (simp_all add: padStart_def)
qed (simp_all add: radix_value_padStart radix_value_toString)

lemma byte_texts_inj:
  fixes b c :: byte
  shows "padStart 8 (radix_toString 2 (unat b)) = padStart 8 (radix_toString 2 (unat c)) \<Longrightarrow> b = c"
    and "padStart 2 (radix_toString 16 (unat b)) = padStart 2 (radix_toString 16 (unat c)) \<Longrightarrow> b = c"
  using byte_texts(3,4) by (metis unsigned_word_eqI)+

lemma js_join_Cons: "js_join sep (x # xs) = (if xs = [] then x else x @ sep @ js_join sep xs)"
  by (cases xs) simp_all

lemma js_join_inj:
  assumes len: "\<And>x. length (f x) = n" and inj: "\<And>x y. f x = f y \<Longrightarrow> x = y" and n: "0 < n"
  shows "js_join sep (map f xs) = js_join sep (map f ys) \<Longrightarrow> xs = ys"
proof (induction xs arbitrary: ys)
  case Nil
  have "f y \<noteq> []" "[] \<noteq> f y" for y using len [of y] n by auto
  then show ?case using Nil by (cases ys) (auto simp: js_join_Cons split: if_splits)
next
  case (Cons x xs)
  have ne: "f y \<noteq> []" for y using len [of y] n by auto
  obtain y zs where ys: "ys = y # zs" using Cons.prems ne by (cases ys) (auto simp: js_join_Cons split: if_splits)
  have e: "f x @ (if xs = [] then [] else sep @ js_join sep (map f xs))
      = f y @ (if zs = [] then [] else sep @ js_join sep (map f zs))"
    using Cons.prems by (simp add: ys js_join_Cons split: if_splits)
  then have xy: "x = y" and r: "(if xs = [] then [] else sep @ js_join sep (map f xs))
      = (if zs = [] then [] else sep @ js_join sep (map f zs))"
    using len inj by (simp_all add: append_eq_append_conv)
  have "js_join sep (map f ws) \<noteq> []" if "ws \<noteq> []" for ws using that ne by (cases ws) (auto simp: js_join_Cons)
  then have "js_join sep (map f xs) = js_join sep (map f zs)" using r by (auto split: if_splits)
  then show ?case using Cons.IH xy ys by simp
qed

text \<open>Two selective acknowledgements, or two extension bits, that print alike are alike.\<close>

lemma extBits_toString_inj: "extBits_toString a = extBits_toString b \<Longrightarrow> a = b"
proof -
  assume "extBits_toString a = extBits_toString b"
  then have e: "js_join '''' (map (\<lambda>b. padStart 2 (radix_toString 16 (unat b))) a)
      = js_join '''' (map (\<lambda>b. padStart 2 (radix_toString 16 (unat b))) b)"
    by (simp add: extBits_toString_def)
  show "a = b"
    by (rule js_join_inj [OF _ _ _ e, where n = 2]) (auto simp: byte_texts dest: byte_texts_inj)
qed

lemma bitmaskToBinaryString_inj: "bitmaskToBinaryString a = bitmaskToBinaryString b \<Longrightarrow> a = b"
  unfolding bitmaskToBinaryString_def
  by (rule js_join_inj [where n = 8]) (auto simp: byte_texts dest: byte_texts_inj)

end
