(* ===== verification/ConnPromise.thy ===== *)
theory ConnPromise imports ConnType begin

text \<open>
  The promise of \<open>connect\<close>: the state-change listener and the timer that settle it. Every step of a
  connection conserves the promises, those settled and those a listener still stands for.
\<close>

fun settles_promise :: "nat \<Rightarrow> conn_ev \<Rightarrow> bool" where
  "settles_promise pid (EvSettle q st) = (q = pid)"
| "settles_promise pid (EvConnectTimeout q) = (q = pid)"
| "settles_promise pid _ = False"

definition settled :: "nat \<Rightarrow> conn_ev list \<Rightarrow> nat" where
  "settled pid es = length (filter (settles_promise pid) es)"

lemma settled_simps [simp]:
  "settled pid [] = 0" "settled pid (e # es) = (if settles_promise pid e then Suc (settled pid es) else settled pid es)"
  "settled pid (es @ fs) = settled pid es + settled pid fs"
  by (simp_all add: settled_def)

text \<open>
  The promises, settled or stood for by a listener, are conserved. When a single listener was there and
  the state changed to one that settles, it is gone; and no listener is answered while the connection
  stays CONNECTED.
\<close>

definition promise_hist :: "nat \<Rightarrow> conn \<Rightarrow> conn_ev list \<Rightarrow> conn \<Rightarrow> bool" where
  "promise_hist pid s es t \<longleftrightarrow>
     settled pid es + count_list (cn_listeners t) pid = count_list (cn_listeners s) pid
     \<and> length (cn_listeners t) \<le> length (cn_listeners s) \<and> stage (cn_state s) \<le> stage (cn_state t)
     \<and> (length (cn_listeners s) \<le> 1 \<and> cn_state t \<noteq> cn_state s \<and> settles (cn_state t) \<longrightarrow> cn_listeners t = [])
     \<and> (cn_state s = CS_CONNECTED \<and> cn_state t = CS_CONNECTED \<longrightarrow> (\<forall>st. EvSettle pid st \<notin> set es))"

lemma settled_none: "list_all outgoing es \<Longrightarrow> settled pid es = 0"
  by (induction es) (auto elim: outgoing.elims)

lemma settled_reads: "settled pid (read_events outs) = 0"
  by (induction outs) (auto simp: read_events_def)

lemma count_remove1: "x \<in> set xs \<Longrightarrow> Suc (count_list (remove1 x xs) y) = count_list xs y + (if x = y then 0 else 1)"
  by (induction xs) auto

lemma notifyLoop_conserves:
  "settled pid (snd (notifyLoop st i n ls)) + count_list (fst (notifyLoop st i n ls)) pid = count_list ls pid"
proof (induction st i n ls rule: notifyLoop.induct)
  case (2 st i n ls)
  show ?case
  proof (cases "i < length ls \<and> settles st")
    case True
    then have "ls ! i \<in> set ls" by simp
    from count_remove1 [OF this, of pid] show ?thesis using 2(1) True by (simp add: split_beta split: if_splits)
  next
    case False
    then show ?thesis using 2(2) by (auto simp: split_beta)
  qed
qed simp

lemma notifyLoop_shrinks: "length (fst (notifyLoop st i n ls)) \<le> length ls"
proof (induction st i n ls rule: notifyLoop.induct)
  case (2 st i n ls)
  show ?case
  proof (cases "i < length ls \<and> settles st")
    case True
    then show ?thesis using 2(1) by (simp add: split_beta length_remove1)
  next
    case False
    then show ?thesis using 2(2) by (auto simp: split_beta)
  qed
qed simp

lemma promise_hist_state:
  assumes "stage (cn_state s) \<le> stage st"
  shows "promise_hist pid s (snd (set_localState st s)) (fst (set_localState st s))"
proof (cases "cn_state s = st")
  case True
  then show ?thesis by (simp add: set_localState_def promise_hist_def)
next
  case False
  let ?r = "notifyLoop st 0 (length (cn_listeners s)) (cn_listeners s)"
  have "fst ?r = []" if "length (cn_listeners s) \<le> 1" "settles st"
    using that by (cases "cn_listeners s") auto
  then show ?thesis
    using False assms notifyLoop_conserves [of pid st 0 "length (cn_listeners s)" "cn_listeners s"]
      notifyLoop_shrinks [of st 0 "length (cn_listeners s)" "cn_listeners s"]
    by (auto simp: promise_hist_def set_localState_def notifyStateChange_def split_beta)
qed

lemma promise_trans:
  assumes "promise_hist pid s es t" "promise_hist pid t fs u"
  shows "promise_hist pid s (es @ fs) u"
proof -
  have "cn_state t = CS_CONNECTED" if "cn_state s = CS_CONNECTED" "cn_state u = CS_CONNECTED"
    using that assms by (cases "cn_state t") (simp_all add: promise_hist_def)
  moreover have "cn_listeners u = []"
    if "length (cn_listeners s) \<le> 1" "cn_state u \<noteq> cn_state s" "settles (cn_state u)"
  proof (cases "cn_state u = cn_state t")
    case True
    then have "cn_listeners t = []" using that assms(1) by (simp add: promise_hist_def)
    then show ?thesis using assms(2) by (simp add: promise_hist_def)
  next
    case False
    then show ?thesis using that assms by (simp add: promise_hist_def)
  qed
  ultimately show ?thesis using assms by (auto simp: promise_hist_def)
qed

lemma settled_within: "EvSettle pid st \<in> set es \<Longrightarrow> 0 < settled pid es"
  by (induction es) auto

lemma quiet_promise: "list_all outgoing es \<Longrightarrow> EvSettle pid st \<notin> set es" "EvSettle pid st \<notin> set (read_events outs)"
  using settled_within [of pid st es] settled_within [of pid st "read_events outs"]
  by (auto simp: settled_none settled_reads)

interpretation promise: conn_steps "promise_hist pid" for pid
proof
  fix s es t fs u assume "promise_hist pid s es t" "promise_hist pid t fs u"
  then show "promise_hist pid s (es @ fs) u" by (rule promise_trans)
next
  fix s :: conn and st assume "stage (cn_state s) \<le> stage st"
  then show "promise_hist pid s (snd (set_localState st s)) (fst (set_localState st s))" by (rule promise_hist_state)
qed (auto simp: promise_hist_def settled_none settled_reads quiet_promise set_localSeqNr_def set_localAckNr_def)

lemma promise_timeout: "obeys (promise_hist pid) (conn_connectTimeout q)"
  unfolding conn_connectTimeout_def
  using count_remove1 [of q _ pid]
  by (intro promise.obeys_steps)
    (auto simp: promise_hist_def conn_removeListener_def length_remove1 split: if_splits)

text \<open>What happens to a connection after \<open>connect\<close> was called: anything but another \<open>connect\<close>.\<close>

fun after_connect :: "conn_call \<Rightarrow> bool" where
  "after_connect (CallConnect pid) = False"
| "after_connect CallConnectSend = False"
| "after_connect (CallConnectListen pid) = False"
| "after_connect c = True"

lemma promise_do: "after_connect c \<Longrightarrow> obeys (promise_hist pid) (conn_do env c)"
  by (cases "connects c") (auto simp: promise.all_do promise_timeout elim: connects.elims)

text \<open>
  C11. The promise of \<open>connect\<close>. \<open>waitForConnecting\<close> sends its packet, awaits the sending, and only then
  adds the listener that settles the promise; anything may happen to the connection during that await
  (\<open>es\<close>, up to the state \<open>s\<close>) and after it (\<open>fs\<close>, up to \<open>t\<close>). Whatever does, the promise is settled at
  most once, and not before the listener is there; it has been settled once the state changes after
  that to CONNECTED, RESET or CLOSED, so in particular by the time the connection is one of these when
  it was still opening at the end of the await; and while it is not settled, the timer of 5 seconds
  settles it when it fires. But a change during the await is missed: if the connection is CONNECTED
  when the listener is added, the listener does not resolve the promise while it stays so, and the
  timer rejects it, although the connection is CONNECTED.
\<close>

theorem connect_promise:
  fixes env :: env and pid :: nat and addr :: utp_addr and sendId recvId seqNr ackNr :: int
  assumes "st = CS_SYN_SENT \<or> st = CS_SYN_RECV"
  defines "x \<equiv> conn_connectSend env (fst (conn_new env st addr sendId recvId seqNr ackNr))"
  assumes "result x = Inr True" "calls_run after_connect (final x) es s"
  defines "y \<equiv> conn_awaitConnected pid s"
  assumes "calls_run after_connect (final y) fs t"
  shows "settled pid (events x @ es @ events y) = 0 \<and> settled pid fs \<le> 1
    \<and> (cn_state t \<in> {CS_CONNECTED, CS_RESET, CS_CLOSED} \<and> cn_state t \<noteq> cn_state s \<longrightarrow> settled pid fs = 1)
    \<and> (cn_state s = CS_CONNECTED \<and> cn_state t = CS_CONNECTED \<longrightarrow> (\<forall>st. EvSettle pid st \<notin> set fs))
    \<and> (settled pid fs = 0 \<longrightarrow> events (conn_connectTimeout pid t) = [EvConnectTimeout pid])
    \<and> (settled pid fs = 1 \<longrightarrow> events (conn_connectTimeout pid t) = [])"
proof -
  define s0 where "s0 = fst (conn_new env st addr sendId recvId seqNr ackNr)"
  have ok: "cn_state s0 = CS_SYN_RECV \<and> \<not> cn_isInitiator s0 \<or> cn_state s0 = CS_SYN_SENT \<and> cn_isInitiator s0"
    using assms(1) by (auto simp: s0_def conn_new_def Let_def)
  note c = connectSend_parts [OF ok, of env, folded s0_def, folded x_def [folded s0_def]]
  have l: "cn_listeners (final x) = []" "settled pid (events x) = 0"
    by (simp_all add: c set_localSeqNr_def) (simp add: s0_def conn_new_def Let_def)
  have "promise_hist pid (final x) es s" by (rule calls_run_hist [OF promise.history_axioms promise_do assms(4)])
  then have s: "settled pid es = 0" "cn_listeners s = []" using l by (simp_all add: promise_hist_def)
  then have y: "events y = []" "cn_listeners (final y) = [pid]" "cn_state (final y) = cn_state s"
    by (simp_all add: y_def conn_awaitConnected_def conn_addListener_def)
  have h: "promise_hist pid (final y) fs t" by (rule calls_run_hist [OF promise.history_axioms promise_do assms(6)])
  have "count_list (cn_listeners t) pid = 0 \<longleftrightarrow> pid \<notin> set (cn_listeners t)" by (simp add: count_list_0_iff)
  then show ?thesis using h s(1) l(2) y by (auto simp: promise_hist_def settles_def conn_connectTimeout_def)
qed

lemma handleSynAck_state:
  assumes "cn_state s = CS_SYN_SENT" "pk_type p = ST_STATE"
  shows "cn_state (final (handleIncomingPacket env p s)) = CS_CONNECTED"
proof -
  have "cn_state (final (conn_handleAck env p s)) = CS_SYN_SENT" "result (conn_handleAck env p s) = Inr ()"
    using assms(1) still_state [OF obeys_handleAck, of env p s] by (simp_all add: conn_handleAck_def)
  then show ?thesis
    using assms(2) by (simp add: handleIncomingPacket_def handleAtSynSent_def eff_parts setState_parts set_localAckNr_def)
qed

text \<open>The answer to the SYN is handled while its sending is awaited.\<close>

theorem connect_promise_witness:
  "let x = conn_connectSend sample_env (fst (conn_new sample_env CS_SYN_SENT sample_addr 7 6 1 0));
       s = final (conn_do sample_env (CallHandle sample_ack) (final x));
       y = conn_awaitConnected 5 s in
     cn_state (final y) = CS_CONNECTED \<and> events (conn_connectTimeout 5 (final y)) = [EvConnectTimeout 5]"
proof -
  define s0 where "s0 = fst (conn_new sample_env CS_SYN_SENT sample_addr 7 6 1 0)"
  define x where "x = conn_connectSend sample_env s0"
  define d where "d = conn_do sample_env (CallHandle sample_ack) (final x)"
  define y where "y = conn_awaitConnected 5 (final d)"
  have "cn_state s0 = CS_SYN_SENT \<and> cn_isInitiator s0" by (simp add: s0_def conn_new_def Let_def)
  note c = connectSend_parts [OF disjI2 [OF this], of sample_env, folded x_def]
  have "result x = Inr True" by (simp add: c sample_env_def)
  moreover have "cn_state (final d) = CS_CONNECTED"
    using handleSynAck_state [of "final x" sample_ack sample_env]
    by (simp add: d_def drop_result_def eff_parts c set_localSeqNr_def sample_ack_def s0_def conn_new_def Let_def split: sum.split)
  moreover have "calls_run after_connect (final x) (events d) (final d)" unfolding d_def by (rule calls_run_once) simp
  ultimately have "events (conn_connectTimeout 5 (final y)) = [EvConnectTimeout 5]" "cn_state (final y) = CS_CONNECTED"
    using connect_promise [of CS_SYN_SENT sample_env sample_addr 7 6 1 0, folded s0_def, folded x_def, OF _ _ _ calls_start, of "events d" "final d" 5]
    by (simp_all add: y_def) (simp add: conn_awaitConnected_def conn_addListener_def)
  then show ?thesis by (simp add: Let_def x_def s0_def d_def y_def)
qed

end
