(* ===== verification/ConnSend.thy ===== *)
theory ConnSend imports ConnState begin

text \<open>
  The sending side. \<open>tx_log s es l t\<close>: between \<open>s\<close> and \<open>t\<close> the connection numbered the packets \<open>l\<close>,
  consecutively from its sequence number, and every numbered packet it sent or keeps is one of them
  or was in the window before. Over a run of writes, their continuations, acknowledgements and timers
  the data packets carry exactly the written bytes, cut in chunks.
\<close>

subsection \<open>The packets a connection numbers\<close>

text \<open>A data packet as \<open>createDataPacket\<close> makes it.\<close>

definition data_of :: "conn \<Rightarrow> packet \<Rightarrow> bool" where
  "data_of s p \<longleftrightarrow> pk_type p = ST_DATA \<and> pk_version p = 1 \<and> pk_extension p = 0 \<and> pk_extensions p = []
     \<and> pk_connId p = cn_sendId s
     \<and> (\<exists>d. pk_data p = Some d \<and> d \<noteq> [] \<and> int (length d) \<le> chunkSize)"

definition tx_log :: "conn \<Rightarrow> conn_ev list \<Rightarrow> packet list \<Rightarrow> conn \<Rightarrow> bool" where
  "tx_log s es l t \<longleftrightarrow>
     u16 (cn_seqNr t) \<and> cn_seqNr t = seq_add (cn_seqNr s) (int (length l)) \<and> cn_sendId t = cn_sendId s
     \<and> (\<forall>i < length l. pk_seqNr (l ! i) = seq_add (cn_seqNr s) (int i))
     \<and> (\<forall>p \<in> set l. data_of s p)
     \<and> numbered_sends es \<subseteq> set l \<union> sw_packets (cn_sendWindow s)
     \<and> sw_packets (cn_sendWindow t) \<subseteq> set l \<union> sw_packets (cn_sendWindow s)"

lemma tx_log_trans:
  assumes "tx_log s es l t" "tx_log t fs m u" shows "tx_log s (es @ fs) (l @ m) u"
proof -
  have seq: "cn_seqNr t = seq_add (cn_seqNr s) (int (length l))" using assms(1) by (simp add: tx_log_def)
  have "pk_seqNr ((l @ m) ! i) = seq_add (cn_seqNr s) (int i)" if i: "i < length (l @ m)" for i
  proof (cases "i < length l")
    case True
    then show ?thesis using assms(1) by (simp add: tx_log_def nth_append)
  next
    case False
    then have "pk_seqNr (m ! (i - length l)) = seq_add (cn_seqNr t) (int (i - length l))"
      using assms(2) i by (simp add: tx_log_def)
    then show ?thesis using False by (simp add: seq seq_add_add nth_append)
  qed
  moreover have "numbered_sends (es @ fs) \<subseteq> set (l @ m) \<union> sw_packets (cn_sendWindow s)"
    "sw_packets (cn_sendWindow u) \<subseteq> set (l @ m) \<union> sw_packets (cn_sendWindow s)"
    using assms unfolding tx_log_def numbered_sends_simps set_append by blast+
  moreover have "cn_seqNr u = seq_add (cn_seqNr s) (int (length (l @ m)))"
    using assms(2) by (simp add: tx_log_def seq seq_add_add)
  moreover have "\<forall>p \<in> set (l @ m). data_of s p"
    using assms by (auto simp: tx_log_def data_of_def)
  ultimately show ?thesis using assms by (simp add: tx_log_def)
qed

lemma tx_log_still: "still {} s es t \<Longrightarrow> u16 (cn_seqNr s) \<Longrightarrow> tx_log s es [] t"
  by (simp add: still_def tx_log_def)

lemma tx_log_u16: "tx_log s es l t \<Longrightarrow> u16 (cn_seqNr t)"
  by (simp add: tx_log_def)

subsection \<open>Writing\<close>

lemma createData_parts:
  fixes env :: env and s :: conn
  assumes "u16 (cn_seqNr s)" "d \<noteq> []" "int (length d) \<le> chunkSize"
  defines "p \<equiv> fst (createDataPacket env d s)" and "s1 \<equiv> snd (createDataPacket env d s)"
  shows "data_of s p" "pk_seqNr p = cn_seqNr s" "payload p = d" "pk_data p = Some d"
    and "cn_seqNr s1 = seq_add (cn_seqNr s) 1" "cn_sendWindow s1 = cn_sendWindow s" "cn_sendId s1 = cn_sendId s"
    "cn_state s1 = cn_state s"
  using assms(2,3) unfolding p_def s1_def
  by (simp_all add: createDataPacket_def packet_blank_def data_of_def payload_def packet_types
      set_localSeqNr_def seq_add_def)

text \<open>Numbering one packet and handing it to \<open>sendUtpPacket\<close>.\<close>

lemma tx_log_one:
  assumes "u16 (cn_seqNr s)" "d \<noteq> []" "int (length d) \<le> chunkSize"
    and "createDataPacket env d s = (p, s1)"
  shows "tx_log s (events (conn_sendUtpPacket env p s1)) [p] (final (conn_sendUtpPacket env p s1))"
proof -
  note c = createData_parts [OF assms(1-3), of env, unfolded assms(4) fst_conv snd_conv]
  have "still {p} s1 (events (conn_sendUtpPacket env p s1)) (final (conn_sendUtpPacket env p s1))"
    by (rule obeysD [OF obeys_sendUtpPacket])
  then show ?thesis using c assms(1) by (simp add: still_def tx_log_def)
qed

text \<open>What a call of \<open>write\<close> took of its data: all, up to the chunk that waits, or some prefix when it threw.\<close>

fun taken :: "byte list \<Rightarrow> js_error + (packet \<times> byte list) option \<Rightarrow> byte list \<Rightarrow> bool" where
  "taken data (Inl e) a = (\<exists>rest. data = a @ rest)"
| "taken data (Inr None) a = (a = data)"
| "taken data (Inr (Some (p, rest))) a = (a @ rest = data)"

lemma taken_append:
  assumes "taken (drop n data) r a" shows "taken data r (take n data @ a)"
proof -
  have split: "take n data @ (a @ rest) = data" if "a @ rest = drop n data" for rest
    unfolding that by (rule append_take_drop_id)
  show ?thesis
  proof (cases r)
    case (Inl e)
    then obtain rest where "a @ rest = drop n data" using assms by (auto dest: sym)
    then have "data = (take n data @ a) @ rest" using split by simp
    then show ?thesis unfolding Inl taken.simps by (rule exI)
  next
    case (Inr q)
    show ?thesis
    proof (cases q)
      case None
      then show ?thesis using assms Inr by simp
    next
      case (Some pr)
      obtain p rest where "pr = (p, rest)" by fastforce
      then show ?thesis using assms Inr Some split by simp
    qed
  qed
qed

definition log_bytes :: "packet list \<Rightarrow> byte list" where
  "log_bytes l = concat (map payload l)"

text \<open>How many chunks \<open>n\<close> bytes make.\<close>

definition chunks :: "nat \<Rightarrow> nat" where
  "chunks n = (n + (nat chunkSize - 1)) div nat chunkSize"

lemma chunks_simps: "chunks 0 = 0" "0 < n \<Longrightarrow> n \<le> 1380 \<Longrightarrow> chunks n = 1" "chunks (1380 + n) = Suc (chunks n)"
proof -
  show "chunks 0 = 0" by (simp add: chunks_def chunkSize_eq)
  show "chunks n = 1" if "0 < n" "n \<le> 1380"
  proof -
    have "n + 1379 = 1 * 1380 + (n - 1)" "n - 1 < 1380" using that by simp_all
    then have "(n + 1379) div 1380 = 1" by (simp only: div_mult_self3 div_less)
    then show ?thesis by (simp add: chunks_def chunkSize_eq)
  qed
  have "(1380 + n + 1379) div 1380 = Suc ((n + 1379) div 1380)" by simp
  then show "chunks (1380 + n) = Suc (chunks n)" by (simp add: chunks_def chunkSize_eq)
qed

lemma taken_le: "taken data r a \<Longrightarrow> length a \<le> length data"
  by (cases "(data, r, a)" rule: taken.cases) auto

lemma write_log:
  "u16 (cn_seqNr s) \<Longrightarrow>
    \<exists>l. tx_log s (events (conn_write env data s)) l (final (conn_write env data s))
      \<and> taken data (result (conn_write env data s)) (log_bytes l) \<and> length l = chunks (length (log_bytes l))"
proof (induction env data arbitrary: s rule: conn_write.induct)
  case (1 env data)
  let ?chunk = "take (nat chunkSize) data"
  let ?rest = "drop (length ?chunk) data"
  show ?case
  proof (cases "data = []")
    case True
    then have "conn_write env data s = (s, [], Inr None)"
      by (subst conn_write.simps) (simp add: eff_return_def)
    then show ?thesis
      using True 1(2) by (intro exI [of _ "[]"]) (simp add: tx_log_def log_bytes_def chunks_simps)
  next
    case False
    obtain p s1 where c: "createDataPacket env ?chunk s = (p, s1)" by fastforce
    have d: "?chunk \<noteq> []" "int (length ?chunk) \<le> chunkSize" using False by (auto simp: chunkSize_eq)
    note parts = createData_parts [OF 1(2) d, of env, unfolded c fst_conv snd_conv]
    define x where "x = conn_sendUtpPacket env p s1"
    have one: "tx_log s (events x) [p] (final x)" unfolding x_def by (rule tx_log_one [OF 1(2) d c])
    have bytes: "log_bytes [p] = ?chunk" by (simp add: log_bytes_def parts(3))
    have split: "?chunk @ ?rest = data" by (simp add: min_def)
    have w: "conn_write env data s =
        eff_bind (\<lambda>_. x) (\<lambda>n. case n of
            None \<Rightarrow> eff_return (Some (p, ?rest))
          | Some n \<Rightarrow>
              if n \<noteq> packet_length p then eff_throw AssertionError
              else
                eff_then (eff_modify (\<lambda>s. s\<lparr>cn_statistic := stat_updateSentData (length ?chunk) (cn_statistic s)\<rparr>))
                  (conn_write env ?rest)) s"
      by (subst conn_write.simps) (simp add: False Let_def c x_def eff_then_def eff_bind_def eff_modify_def
            del: length_take)
    show ?thesis
    proof (cases "result x = Inr (Some (packet_length p))")
      case True
      define s2 where "s2 = (final x)\<lparr>cn_statistic := stat_updateSentData (length ?chunk) (cn_statistic (final x))\<rparr>"
      have s2: "tx_log s (events x) [p] s2" using one by (simp add: s2_def tx_log_def)
      obtain l where l: "tx_log s2 (events (conn_write env ?rest s2)) l (final (conn_write env ?rest s2))"
        "taken ?rest (result (conn_write env ?rest s2)) (log_bytes l)" "length l = chunks (length (log_bytes l))"
        using 1(1) [OF False refl, of "packet_length p" p s2] tx_log_u16 [OF s2] by auto
      have e: "final (conn_write env data s) = final (conn_write env ?rest s2)"
        "events (conn_write env data s) = events x @ events (conn_write env ?rest s2)"
        "result (conn_write env data s) = result (conn_write env ?rest s2)"
        using True by (simp_all add: w eff_parts s2_def)
      have "take (length ?chunk) data = ?chunk" by (simp add: min_def)
      then have "taken data (result (conn_write env ?rest s2)) (log_bytes ([p] @ l))"
        using taken_append [OF l(2)] bytes by (simp add: log_bytes_def del: length_take)
      moreover have "length ([p] @ l) = chunks (length (log_bytes ([p] @ l)))"
      proof (cases "?rest = []")
        case True
        then have "l = []" using taken_le [OF l(2)] l(3) by (simp add: chunks_simps)
        then show ?thesis using bytes d by (simp add: log_bytes_def chunks_simps(2) chunkSize_eq)
      next
        case False
        then have "length (log_bytes ([p] @ l)) = 1380 + length (log_bytes l)"
          using bytes by (simp add: log_bytes_def chunkSize_eq min_def split: if_splits)
        then show ?thesis using l(3) by (simp only: chunks_simps) simp
      qed
      ultimately show ?thesis
        using tx_log_trans [OF s2 l(1)] unfolding e by blast
    next
      case False
      have e: "final (conn_write env data s) = final x" "events (conn_write env data s) = events x"
        and t: "taken data (result (conn_write env data s)) ?chunk"
        using False split by (auto simp: w eff_parts split: sum.splits option.splits intro: exI [of _ ?rest])
      moreover have "length [p] = chunks (length (log_bytes [p]))"
        using bytes d by (simp add: chunks_simps(2) chunkSize_eq)
      ultimately show ?thesis using one bytes by (intro exI [of _ "[p]"]) simp
    qed
  qed
qed

lemma resumeWrite_log:
  assumes "u16 (cn_seqNr s)"
  shows "\<exists>l. tx_log s (events (conn_resumeWrite env p rest n s)) l (final (conn_resumeWrite env p rest n s))
      \<and> taken rest (result (conn_resumeWrite env p rest n s)) (log_bytes l) \<and> length l = chunks (length (log_bytes l))"
proof (cases "n = packet_length p")
  case False
  then show ?thesis
    using assms by (intro exI [of _ "[]"]) (simp add: conn_resumeWrite_def tx_log_def log_bytes_def chunks_simps)
next
  case True
  define s1 where "s1 = s\<lparr>cn_statistic := stat_updateSentData
      (case pk_data p of None \<Rightarrow> 0 | Some d \<Rightarrow> length d) (cn_statistic s)\<rparr>"
  have s1: "tx_log s [] [] s1" using assms by (simp add: s1_def tx_log_def)
  obtain l where l: "tx_log s1 (events (conn_write env rest s1)) l (final (conn_write env rest s1))"
    "taken rest (result (conn_write env rest s1)) (log_bytes l)" "length l = chunks (length (log_bytes l))"
    using write_log [of s1 env rest] assms by (auto simp: s1_def)
  have e: "final (conn_resumeWrite env p rest n s) = final (conn_write env rest s1)"
    "events (conn_resumeWrite env p rest n s) = events (conn_write env rest s1)"
    "result (conn_resumeWrite env p rest n s) = result (conn_write env rest s1)"
    using True by (simp_all add: conn_resumeWrite_def eff_parts s1_def)
  show ?thesis using tx_log_trans [OF s1 l(1)] l(2,3) by (auto simp: e)
qed

subsection \<open>A sender at work\<close>

text \<open>
  The calls a CONNECTED sender gets that neither write nor close: packets from its peer other than a
  FIN, reads, the timers.
\<close>

fun background :: "conn_call \<Rightarrow> bool" where
  "background (CallHandle p) = (pk_type p \<noteq> ST_FIN)"
| "background (CallConnectTimer pid) = True"
| "background (CallRead r n) = True"
| "background CallTimeoutCheck = True"
| "background CallStatTick = True"
| "background _ = False"

lemma background_still:
  assumes "cn_state s = CS_CONNECTED" "background c"
  shows "obeys_at (still {}) (conn_do env c) s"
proof (cases c)
  case (CallHandle p)
  then have p: "pk_type p \<noteq> ST_FIN" using assms(2) by simp
  have k: "obeys_at (still {}) (handleAtConnected env p) t" for t
    unfolding handleAtConnected_def
    using p by (auto simp: still_def intro!: still.at_intros still.at_steps obeys_at [OF obeys_processReceivedPackets]
        obeys_at [OF obeys_sendAck])
  have "obeys_at (still {}) (handleIncomingPacket env p) s"
    unfolding handleIncomingPacket_def
    using assms(1) still_state [OF obeys_handleAck]
    by (intro still.at_then still.at_bind still.at_control obeys_at [OF obeys_handleAck])
      (auto simp: still_def k intro!: still.at_intros still.at_steps)
  then show ?thesis using CallHandle by (auto simp: drop_result_def intro!: still.at_intros)
next
  case CallTimeoutCheck
  then show ?thesis
    using assms(1) unfolding CallTimeoutCheck conn_do.simps conn_timeoutCheck_def
    by (intro still.at_control(2))
      (auto intro!: still.at_intros obeys_at [OF obeys_keepAlive] obeys_at [OF obeys_windowTimeoutCheck])
qed (use assms(2) in \<open>auto intro: obeys_at [OF obeys_connectTimeout] obeys_at [OF obeys_statTick] obeys_at [OF obeys_connRead]\<close>)

text \<open>
  \<open>tx_run s es ws t\<close>: from \<open>s\<close> the sender reaches \<open>t\<close> with the events \<open>es\<close>, having taken the byte
  strings \<open>ws\<close> from the calls of \<open>write\<close> and the continuations of the blocked ones. A run ends before a
  \<open>write\<close> that throws, because the socket failed to send.
\<close>

definition took :: "byte list \<Rightarrow> (packet \<times> byte list) option \<Rightarrow> byte list" where
  "took data r = (case r of None \<Rightarrow> data | Some (p, rest) \<Rightarrow> take (length data - length rest) data)"

lemma taken_took: "taken data (Inr r) a \<Longrightarrow> a = took data r"
  by (cases r) (auto simp: took_def)

inductive tx_run :: "conn \<Rightarrow> conn_ev list \<Rightarrow> byte list list \<Rightarrow> conn \<Rightarrow> bool" where
  tx_start: "tx_run s [] [] s"
| tx_write: "tx_run s es ws t \<Longrightarrow> x = conn_write env data t \<Longrightarrow> result x = Inr r
    \<Longrightarrow> tx_run s (es @ events x) (ws @ [took data r]) (final x)"
| tx_resume: "tx_run s es ws t \<Longrightarrow> x = conn_resumeWrite env p rest n t \<Longrightarrow> result x = Inr r
    \<Longrightarrow> tx_run s (es @ events x) (ws @ [took rest r]) (final x)"
| tx_call: "tx_run s es ws t \<Longrightarrow> background c \<Longrightarrow> x = conn_do env c t
    \<Longrightarrow> tx_run s (es @ events x) ws (final x)"

lemma tx_run_log:
  assumes "tx_run s es ws t" "cn_state s = CS_CONNECTED" "u16 (cn_seqNr s)"
  shows "cn_state t = CS_CONNECTED \<and> (\<exists>l. tx_log s es l t \<and> log_bytes l = concat ws \<and> length l = sum_list (map (\<lambda>w. chunks (length w)) ws))"
  using assms
proof induction
  case (tx_start s)
  then show ?case by (intro conjI exI [of _ "[]"]) (simp_all add: tx_log_def log_bytes_def)
next
  case (tx_write s es ws t x env data r)
  then obtain l where l: "tx_log s es l t" "log_bytes l = concat ws" "length l = sum_list (map (\<lambda>w. chunks (length w)) ws)"
    and c: "cn_state t = CS_CONNECTED" by blast
  obtain m where m: "tx_log t (events x) m (final x)" "taken data (result x) (log_bytes m)" "length m = chunks (length (log_bytes m))"
    using write_log [OF tx_log_u16 [OF l(1)], of env data] tx_write.hyps(2) by blast
  have "cn_state (final x) = CS_CONNECTED"
    using obeysD [OF calm_write, of t env data] c tx_write.hyps(2) by (simp add: calm_def)
  moreover have "log_bytes (l @ m) = concat (ws @ [took data r])"
    "length (l @ m) = sum_list (map (\<lambda>w. chunks (length w)) (ws @ [took data r]))"
    using l(2,3) taken_took m(2,3) tx_write.hyps(3) by (simp_all add: log_bytes_def)
  ultimately show ?case using tx_log_trans [OF l(1) m(1)] by blast
next
  case (tx_resume s es ws t x env p rest n r)
  then obtain l where l: "tx_log s es l t" "log_bytes l = concat ws" "length l = sum_list (map (\<lambda>w. chunks (length w)) ws)"
    and c: "cn_state t = CS_CONNECTED" by blast
  obtain m where m: "tx_log t (events x) m (final x)" "taken rest (result x) (log_bytes m)" "length m = chunks (length (log_bytes m))"
    using resumeWrite_log [OF tx_log_u16 [OF l(1)], of env p rest n] tx_resume.hyps(2) by blast
  have "cn_state (final x) = CS_CONNECTED"
    using obeysD [OF calm_resumeWrite, of t env p rest n] c tx_resume.hyps(2) by (simp add: calm_def)
  moreover have "log_bytes (l @ m) = concat (ws @ [took rest r])"
    "length (l @ m) = sum_list (map (\<lambda>w. chunks (length w)) (ws @ [took rest r]))"
    using l(2,3) taken_took m(2,3) tx_resume.hyps(3) by (simp_all add: log_bytes_def)
  ultimately show ?case using tx_log_trans [OF l(1) m(1)] by blast
next
  case (tx_call s es ws t c x env)
  then obtain l where l: "tx_log s es l t" "log_bytes l = concat ws" "length l = sum_list (map (\<lambda>w. chunks (length w)) ws)"
    and c: "cn_state t = CS_CONNECTED" by blast
  have "still {} t (events x) (final x)"
    using background_still [OF c tx_call.hyps(2), of env] tx_call.hyps(3) by (simp add: obeys_at_def)
  then have "cn_state (final x) = CS_CONNECTED" "tx_log t (events x) [] (final x)"
    using c tx_log_still tx_log_u16 [OF l(1)] by (simp_all add: still_def tx_log_still)
  then show ?case using tx_log_trans [OF l(1)] l(2,3) by fastforce
qed

text \<open>
  C10. The sender's stream. Over any run of writes, continuations of blocked writes, received packets
  and timers of a CONNECTED connection whose window was empty, there is one list of data packets,
  numbered consecutively from the sequence number of the start, each with at most 1380 bytes and
  encodable, whose payloads concatenated are exactly the bytes taken from the writes; and every data,
  FIN or SYN packet that goes out, first transmissions, admitted and retransmitted ones alike, and
  every one still in the window, is a packet of this list.
\<close>

theorem sender_stream:
  assumes "tx_run s es ws t" "cn_state s = CS_CONNECTED" "u16 (cn_seqNr s)"
    and "sw_outstanding (cn_sendWindow s) = []"
  shows "\<exists>l. concat (map payload l) = concat ws \<and> length l = sum_list (map (\<lambda>w. chunks (length w)) ws)
    \<and> (\<forall>i < length l. pk_seqNr (l ! i) = seq_add (cn_seqNr s) (int i))
    \<and> (\<forall>p \<in> set l. pk_type p = ST_DATA \<and> pk_connId p = cn_sendId s \<and> length (payload p) \<le> 1380 \<and> packet_encodable p)
    \<and> (\<forall>p a. EvSend p a \<in> set es \<and> pk_type p \<in> {ST_DATA, ST_FIN, ST_SYN} \<longrightarrow> p \<in> set l)
    \<and> sw_packets (cn_sendWindow t) \<subseteq> set l
    \<and> cn_seqNr t = seq_add (cn_seqNr s) (int (length l))"
proof -
  obtain l where l: "tx_log s es l t" "log_bytes l = concat ws" "length l = sum_list (map (\<lambda>w. chunks (length w)) ws)"
    using tx_run_log [OF assms(1-3)] by blast
  have w: "sw_packets (cn_sendWindow s) = {}" using assms(4) by (simp add: sw_packets_def)
  have "pk_type p = ST_DATA \<and> pk_connId p = cn_sendId s \<and> length (payload p) \<le> 1380 \<and> packet_encodable p"
    if "p \<in> set l" for p
    using l(1) that
    by (auto simp: tx_log_def data_of_def payload_def chunkSize_eq packet_encodable_def first_ext_type_def)
  moreover have "p \<in> set l" if "EvSend p a \<in> set es" "pk_type p \<in> {ST_DATA, ST_FIN, ST_SYN}" for p a
    using l(1) that unfolding tx_log_def w by (auto simp: numbered_sends_def numbered_def)
  ultimately show ?thesis
    using l unfolding tx_log_def w log_bytes_def by (intro exI [of _ l]) blast
qed

text \<open>A write of two bytes on a fresh connection.\<close>

definition window_room :: "conn \<Rightarrow> nat \<Rightarrow> bool" where
  "window_room s n \<longleftrightarrow> cn_state s = CS_CONNECTED \<and> bm_waiting (sw_packetMap (cn_sendWindow s)) = []
     \<and> of_nat (length (bm_map (sw_packetMap (cn_sendWindow s))) + n) \<le> bm_capacity (sw_packetMap (cn_sendWindow s))"

lemma length_jm_set: "length (jm_set k v m) \<le> Suc (length m)"
  by (simp add: jm_length_set)

lemma write_one_chunk:
  fixes env :: env and s :: conn
  assumes room: "window_room s (Suc n)" and "data \<noteq> []" "int (length data) \<le> chunkSize"
    and "env_send env (fst (createDataPacket env data s)) = Inr (packet_length (fst (createDataPacket env data s)))"
  defines "x \<equiv> conn_write env data s"
  shows "result x = Inr None"
    and "events x = [EvSend (fst (createDataPacket env data s)) (cn_remoteAddr s)]"
    and "window_room (final x) n" "cn_seqNr (final x) = seq_add (cn_seqNr s) 1" "cn_remoteAddr (final x) = cn_remoteAddr s"
    "cn_ackNr (final x) = cn_ackNr s"
    "cn_sendWindow (final x) = fst (sw_waitForAck (env_now env) (fst (createDataPacket env data s)) (cn_remoteAddr s) (cn_sendWindow s))"
proof -
  obtain p s1 where c: "createDataPacket env data s = (p, s1)" by fastforce
  have s1: "window_room s1 (Suc n)" "cn_sendWindow s1 = cn_sendWindow s" "cn_remoteAddr s1 = cn_remoteAddr s" "cn_ackNr s1 = cn_ackNr s" "cn_seqNr s1 = seq_add (cn_seqNr s) 1"
      "cn_state s1 = CS_CONNECTED"
    using c room by (auto simp: createDataPacket_def set_localSeqNr_def window_room_def seq_add_def)
  have p: "pk_type p = ST_DATA" using c by (auto simp: createDataPacket_def packet_blank_def)
  have take: "take (nat chunkSize) data = data" using assms(3) by (simp add: chunkSize_eq)
  have empty: "conn_write env [] t = (t, [], Inr None)" for t
    by (subst conn_write.simps) (simp add: eff_return_def)
  define sw where "sw = fst (sw_waitForAck (env_now env) p (cn_remoteAddr s1) (cn_sendWindow s1))"
  have adm: "sw_waitForAck (env_now env) p (cn_remoteAddr s1) (cn_sendWindow s1) = (sw, True, [])"
    using s1(1) by (simp add: window_room_def sw_def sw_waitForAck_def bm_set_def bm_resolveNextSetter_def split_beta)
  have sw: "bm_waiting (sw_packetMap sw) = []" "bm_capacity (sw_packetMap sw) = bm_capacity (sw_packetMap (cn_sendWindow s1))"
    "length (bm_map (sw_packetMap sw)) \<le> Suc (length (bm_map (sw_packetMap (cn_sendWindow s1))))"
    using s1(1) length_jm_set
    by (simp_all add: window_room_def sw_def sw_waitForAck_def bm_set_def bm_resolveNextSetter_def split_beta)
  have x: "x = (s1\<lparr>cn_lastLiveTime := env_perf env, cn_sendWindow := sw,
      cn_statistic := stat_updateSentData (length data) (cn_statistic s1)\<rparr>, [EvSend p (cn_remoteAddr s1)], Inr None)"
    using assms(2,4) s1(6) p c
    by (simp add: x_def, subst conn_write.simps) (simp add: take c Let_def eff_defs conn_sendUtpPacket_def conn_isClosed_def
        conn_waitForAck_def split_beta adm utp_send_def empty resumed_def)
  show "result x = Inr None" "events x = [EvSend (fst (createDataPacket env data s)) (cn_remoteAddr s)]"
    "cn_seqNr (final x) = seq_add (cn_seqNr s) 1" "cn_remoteAddr (final x) = cn_remoteAddr s" "cn_ackNr (final x) = cn_ackNr s"
    "cn_sendWindow (final x) = fst (sw_waitForAck (env_now env) (fst (createDataPacket env data s)) (cn_remoteAddr s) (cn_sendWindow s))"
    using s1 by (simp_all add: x c sw_def)
  have "of_nat (length (bm_map (sw_packetMap sw)) + n)
      \<le> (of_nat (length (bm_map (sw_packetMap (cn_sendWindow s1))) + Suc n) :: rat)"
    using sw(3) by simp
  then show "window_room (final x) n" using s1(1,6) sw(1,2) by (simp add: x window_room_def)
qed

lemma sample_room: "window_room sample_conn 4"
  by (simp add: window_room_def sw_new_def bm_new_def MIN_WINDOW_SIZE_def)

definition two_bytes :: "byte list" where
  "two_bytes = [1, 2]"

lemma sample_tx_run:
  defines "x \<equiv> conn_write sample_env two_bytes sample_conn"
  shows "tx_run sample_conn (events x) [two_bytes] (final x)"
    and "events x = [EvSend (fst (createDataPacket sample_env two_bytes sample_conn)) sample_addr]"
proof -
  have "result x = Inr None" "events x = [EvSend (fst (createDataPacket sample_env two_bytes sample_conn)) sample_addr]"
    unfolding x_def using write_one_chunk [of sample_conn 3 two_bytes sample_env] sample_room
    by (simp_all add: two_bytes_def chunkSize_eq sample_env_def eval_nat_numeral)
  then show "tx_run sample_conn (events x) [two_bytes] (final x)"
    "events x = [EvSend (fst (createDataPacket sample_env two_bytes sample_conn)) sample_addr]"
    using tx_write [OF tx_start, of x sample_env two_bytes sample_conn None] x_def by (simp_all add: took_def)
qed

theorem sender_stream_witness:
  "\<exists>l. concat (map payload l) = [1, 2] \<and> length l = 1 \<and> (\<forall>p \<in> set l. pk_type p = ST_DATA \<and> packet_encodable p)"
proof -
  have "sw_outstanding (cn_sendWindow sample_conn) = []" "u16 (cn_seqNr sample_conn)"
    by (simp_all add: sw_new_def sw_outstanding_def bm_all_def bm_new_def u16_def)
  from sender_stream [OF sample_tx_run(1) _ this(2,1)] show ?thesis
    by (auto simp: two_bytes_def chunks_simps)
qed

end
