(* ===== verification/ConnOver.thy ===== *)
theory ConnOver imports ConnSend ConnSteps begin

text \<open>
  Calls on a connection that is not, or no longer, CONNECTED: writing, which then goes past the send
  window, and reading after a reset.
\<close>

subsection \<open>Writing outside the window\<close>

lemma write_done: "conn_write env [] t = (t, [], Inr None)"
  by (subst conn_write.simps) (simp add: eff_return_def)

text \<open>One chunk goes out directly.\<close>

lemma write_direct_step:
  fixes env :: env and s :: conn
  assumes st: "cn_state s \<noteq> CS_CONNECTED" "cn_state s \<noteq> CS_CLOSED" and ok: "\<And>p. env_send env p = Inr (packet_length p)"
    and "data \<noteq> []"
  defines "c \<equiv> createDataPacket env (take (nat chunkSize) data) s"
  defines "s1 \<equiv> (snd c)\<lparr>cn_lastLiveTime := env_perf env,
      cn_statistic := stat_updateSentData (length (take (nat chunkSize) data)) (cn_statistic s)\<rparr>"
  defines "y \<equiv> conn_write env (drop (nat chunkSize) data) s1"
  shows "conn_write env data s = (final y, EvSend (fst c) (cn_remoteAddr s) # events y, result y)"
    and "cn_sendWindow s1 = cn_sendWindow s" "cn_state s1 = cn_state s" "cn_remoteAddr s1 = cn_remoteAddr s"
    and "cn_sendId s1 = cn_sendId s"
proof -
  obtain p s0 where c: "c = (p, s0)" by fastforce
  have s0: "cn_state s0 = cn_state s" "cn_remoteAddr s0 = cn_remoteAddr s" "cn_sendWindow s0 = cn_sendWindow s"
    "cn_statistic s0 = cn_statistic s" "cn_sendId s0 = cn_sendId s"
    using c by (auto simp: c_def createDataPacket_def set_localSeqNr_def)
  note d = sendUtp_direct [of s0 p env, unfolded ok]
  have x: "conn_sendUtpPacket env p s0
      = (s0\<lparr>cn_lastLiveTime := env_perf env\<rparr>, [EvSend p (cn_remoteAddr s)], Inr (Some (packet_length p)))"
    using st s0 d by (subst parts_collapse) simp
  have "drop (length (take (nat chunkSize) data)) data = drop (nat chunkSize) data"
    by (cases "length data \<le> nat chunkSize") simp_all
  then show "conn_write env data s = (final y, EvSend (fst c) (cn_remoteAddr s) # events y, result y)"
    using assms(4) c s0 unfolding y_def s1_def
    by (subst conn_write.simps)
      (simp add: Let_def c_def [symmetric] eff_then_def eff_bind_def eff_modify_def x split_beta final_def events_def result_def
        split: sum.split del: length_take)
  show "cn_sendWindow s1 = cn_sendWindow s" "cn_state s1 = cn_state s" "cn_remoteAddr s1 = cn_remoteAddr s"
    "cn_sendId s1 = cn_sendId s"
    using c s0 by (simp_all add: s1_def)
qed

lemma chunks_step: "data \<noteq> [] \<Longrightarrow> chunks (length data) = Suc (chunks (length (drop (nat chunkSize) data)))"
  using chunks_simps(1) chunks_simps(2) [of "length data"] chunks_simps(3) [of "length data - 1380"]
  by (cases "length data \<le> 1380") (simp_all add: chunkSize_eq)

lemma write_direct:
  assumes "cn_state s \<noteq> CS_CONNECTED" "cn_state s \<noteq> CS_CLOSED" "\<And>p. env_send env p = Inr (packet_length p)" "u16 (cn_seqNr s)"
  shows "\<exists>l. events (conn_write env data s) = map (\<lambda>p. EvSend p (cn_remoteAddr s)) l \<and> log_bytes l = data
    \<and> length l = chunks (length data) \<and> (\<forall>p \<in> set l. data_of s p)
    \<and> (\<forall>i < length l. pk_seqNr (l ! i) = seq_add (cn_seqNr s) (int i))
    \<and> result (conn_write env data s) = Inr None
    \<and> cn_sendWindow (final (conn_write env data s)) = cn_sendWindow s
    \<and> cn_state (final (conn_write env data s)) = cn_state s"
  using assms
proof (induction "length data" arbitrary: data s rule: less_induct)
  case less
  show ?case
  proof (cases "data = []")
    case True
    then show ?thesis by (intro exI [of _ "[]"]) (simp add: write_done log_bytes_def chunks_simps)
  next
    case False
    let ?chunk = "take (nat chunkSize) data" and ?rest = "drop (nat chunkSize) data"
    define p where "p = fst (createDataPacket env ?chunk s)"
    define s1 where "s1 = (snd (createDataPacket env ?chunk s))\<lparr>cn_lastLiveTime := env_perf env,
      cn_statistic := stat_updateSentData (length ?chunk) (cn_statistic s)\<rparr>"
    define y where "y = conn_write env ?rest s1"
    note step = write_direct_step [OF less.prems(1,2,3) False, folded p_def s1_def, folded y_def]
    have d: "?chunk \<noteq> []" "int (length ?chunk) \<le> chunkSize" using False by (auto simp: chunkSize_eq)
    note parts = createData_parts [OF less.prems(4) d, of env, folded p_def]
    have seq: "cn_seqNr s1 = seq_add (cn_seqNr s) 1" using parts(5) by (simp add: s1_def)
    have "length ?rest < length data" using False by (simp add: chunkSize_eq)
    from less.hyps [OF this, of s1] less.prems step(2-5)
    obtain l where l: "events y = map (\<lambda>p. EvSend p (cn_remoteAddr s)) l" "log_bytes l = ?rest"
      "length l = chunks (length ?rest)" "\<forall>p \<in> set l. data_of s1 p"
      "\<forall>i < length l. pk_seqNr (l ! i) = seq_add (cn_seqNr s1) (int i)"
      "result y = Inr None" "cn_sendWindow (final y) = cn_sendWindow s" "cn_state (final y) = cn_state s"
      unfolding y_def by (auto simp: seq)
    have "pk_seqNr ((p # l) ! i) = seq_add (cn_seqNr s) (int i)" if "i < length (p # l)" for i
      using that l(5) parts(2) less.prems(4) by (cases i) (simp_all add: seq seq_add_add)
    moreover have "\<forall>q \<in> set (p # l). data_of s q" using l(4) parts(1) step(5) by (auto simp: data_of_def)
    ultimately show ?thesis
      using l(1-3,6-8) parts(3) chunks_step [OF False]
      by (intro exI [of _ "p # l"]) (simp add: step(1) log_bytes_def)
  qed
qed

text \<open>
  C29. Writing on a connection that is not CONNECTED and not yet CLOSED. \<open>write\<close> does not look at the
  state: it numbers and sends all its chunks at once and reports success, but none of them enters the
  send window, so none counts against it and none is ever sent again; after the close of either side
  they come after its FIN, and a peer that has closed ignores every one of them.
\<close>

theorem write_outside_connected:
  fixes env :: env and s :: conn and data :: "byte list"
  assumes "cn_state s \<noteq> CS_CONNECTED" "cn_state s \<noteq> CS_CLOSED" "\<And>p. env_send env p = Inr (packet_length p)" "u16 (cn_seqNr s)"
  defines "x \<equiv> conn_write env data s"
  shows "\<exists>l. events x = map (\<lambda>p. EvSend p (cn_remoteAddr s)) l \<and> concat (map payload l) = data
    \<and> length l = chunks (length data) \<and> (\<forall>i < length l. pk_seqNr (l ! i) = seq_add (cn_seqNr s) (int i))
    \<and> result x = Inr None \<and> cn_sendWindow (final x) = cn_sendWindow s \<and> cn_state (final x) = cn_state s
    \<and> (\<forall>p \<in> set l. \<forall>env' r. cn_state r \<in> {CS_CLOSE_WAIT, CS_RESET, CS_CLOSED}
         \<longrightarrow> handleIncomingPacket env' (packet_wire p) r = (r, [], Inr False))"
proof -
  obtain l where l: "events x = map (\<lambda>p. EvSend p (cn_remoteAddr s)) l" "log_bytes l = data"
    "length l = chunks (length data)" "\<forall>p \<in> set l. data_of s p"
    "\<forall>i < length l. pk_seqNr (l ! i) = seq_add (cn_seqNr s) (int i)"
    "result x = Inr None" "cn_sendWindow (final x) = cn_sendWindow s" "cn_state (final x) = cn_state s"
    using write_direct [OF assms(1-4)] unfolding x_def by blast
  have "handleIncomingPacket env' (packet_wire p) r = (r, [], Inr False)"
    if "p \<in> set l" "cn_state r \<in> {CS_CLOSE_WAIT, CS_RESET, CS_CLOSED}" for p env' r
  proof -
    have "pk_type (packet_wire p) = ST_DATA" using l(4) that(1) by (auto simp: data_of_def packet_wire_def packet_types)
    then show ?thesis
      using that(2) by (auto simp: handleIncomingPacket_def packet_types eff_then_def eff_bind_def eff_return_def)
  qed
  then show ?thesis using l unfolding log_bytes_def by (intro exI [of _ l]) blast
qed

text \<open>A write of two bytes after the close of the sample connection.\<close>

theorem write_outside_connected_witness:
  "\<exists>l. events (conn_write sample_env two_bytes (sample_conn\<lparr>cn_state := CS_CLOSE_WAIT\<rparr>)) = map (\<lambda>p. EvSend p sample_addr) l
    \<and> concat (map payload l) = [1, 2] \<and> length l = 1"
  using write_outside_connected [of "sample_conn\<lparr>cn_state := CS_CLOSE_WAIT\<rparr>" sample_env two_bytes]
  by (auto simp: u16_def sample_env_def two_bytes_def chunks_simps)

subsection \<open>Reads that wait when the connection is reset\<close>

fun gives_read :: "conn_ev \<Rightarrow> bool" where
  "gives_read (EvRead r x) = True"
| "gives_read _ = False"

lemma outgoing_no_read: "list_all outgoing es \<Longrightarrow> \<not> list_ex gives_read es"
  by (induction es) (auto elim: outgoing.elims)

text \<open>The connection was reset and the reads \<open>rs\<close> wait first.\<close>

definition stranded :: "(nat \<times> nat) list \<Rightarrow> conn \<Rightarrow> bool" where
  "stranded rs s \<longleftrightarrow> cn_state s = CS_RESET \<and> bb_buffer (cn_recvBuffer s) = []
     \<and> \<not> bb_closed (cn_recvBuffer s) \<and> \<not> bb_closedForWriting (cn_recvBuffer s)
     \<and> (\<exists>more. bb_readers (cn_recvBuffer s) = rs @ more)"

definition stranded_hist :: "(nat \<times> nat) list \<Rightarrow> conn \<Rightarrow> conn_ev list \<Rightarrow> conn \<Rightarrow> bool" where
  "stranded_hist rs s es t \<longleftrightarrow> (stranded rs s \<longrightarrow> stranded rs t \<and> \<not> list_ex gives_read es)"

interpretation stranded: send_steps "stranded_hist rs" for rs
proof
  fix es s assume "list_all outgoing es"
  then show "stranded_hist rs s es s" by (simp add: stranded_hist_def outgoing_no_read)
qed (auto simp: stranded_hist_def stranded_def set_localSeqNr_def)

lemma stranded_settle: "\<not> list_ex gives_read es \<Longrightarrow> obeys (stranded_hist rs) (eff_emit es)"
  by (intro stranded.obeys_steps) (simp add: stranded_hist_def)

lemma settles_no_read: "\<not> list_ex gives_read (snd (notifyLoop st i n ls))"
  by (induction st i n ls rule: notifyLoop.induct) (simp_all add: split_beta)

text \<open>The two parts of \<open>reset\<close>: leaving, which does not touch the buffer, and the rest.\<close>

lemma leave_parts:
  fixes s :: conn
  defines "x \<equiv> eff_then conn_removeSelf (eff_then conn_statRelease (eff_update (set_localState CS_RESET))) s"
  shows "result x = Inr ()" "cn_state (final x) = CS_RESET" "cn_recvBuffer (final x) = cn_recvBuffer s"
    "\<not> list_ex gives_read (events x)"
  by (auto simp: x_def eff_parts conn_removeSelf_def conn_statRelease_def set_localState_def notifyStateChange_def
      split_beta settles_no_read)

lemma stranded_tail: "obeys (stranded_hist rs) (reset_tail env)"
proof -
  have "stranded_hist rs s (resumed s (snd (sw_reset (cn_sendWindow s)))) (s\<lparr>cn_sendWindow := fst (sw_reset (cn_sendWindow s))\<rparr>)" for s
    using stranded.step_windowEvents [of "resumed s (snd (sw_reset (cn_sendWindow s)))" ActReset] by simp
  then have w: "obeys (stranded_hist rs) (eff_update (\<lambda>s. let (sw, rel) = sw_reset (cn_sendWindow s)
      in (s\<lparr>cn_sendWindow := sw\<rparr>, resumed s rel)))"
    by (intro stranded.obeys_steps) (simp add: split_beta)
  have "obeys (stranded_hist rs) (eff_modify (\<lambda>s. s\<lparr>cn_recvQueue := cq_clear (cn_recvQueue s), cn_remoteFin := None\<rparr>))"
    by (intro stranded.obeys_steps) (simp add: stranded_hist_def stranded_def)
  then show ?thesis
    unfolding reset_tail_def
    by (intro stranded.obeys_intros w stranded.all_sendUtpPacket stranded_settle) simp_all
qed

lemma reset_parts:
  assumes "bb_buffer (cn_recvBuffer s) = []" "bb_readers (cn_recvBuffer s) = rs @ qs"
    and "\<not> bb_closed (cn_recvBuffer s)" "\<not> bb_closedForWriting (cn_recvBuffer s)"
  shows "stranded rs (final (conn_reset env s)) \<and> \<not> list_ex gives_read (events (conn_reset env s))"
proof -
  let ?x = "eff_then conn_removeSelf (eff_then conn_statRelease (eff_update (set_localState CS_RESET))) s"
  have "stranded rs (final ?x)" using assms leave_parts(2,3) [of s] by (simp add: stranded_def)
  then have "stranded rs (final (reset_tail env (final ?x))) \<and> \<not> list_ex gives_read (events (reset_tail env (final ?x)))"
    using obeysD [OF stranded_tail, of rs "final ?x" env] by (simp add: stranded_hist_def)
  then show ?thesis
    using leave_parts(1,4) [of s] by (simp add: conn_reset_split then_parts [of _ "reset_tail env"])
qed

lemma stranded_reset: "obeys (stranded_hist rs) (conn_reset env)"
proof (rule obeysI)
  fix s :: conn
  show "obeys_at (stranded_hist rs) (conn_reset env) s"
    using reset_parts [of s rs _ env] by (auto simp: obeys_at_def stranded_hist_def stranded_def [of rs s])
qed

text \<open>All calls but the polling of a \<open>close\<close> that was made before.\<close>

fun not_poll :: "conn_call \<Rightarrow> bool" where
  "not_poll CallClosePoll = False"
| "not_poll c = True"

lemma stranded_vacuous: "\<not> stranded rs s \<Longrightarrow> obeys_at (stranded_hist rs) m s"
  by (simp add: obeys_at_def stranded_hist_def)

lemma stranded_handle: "obeys (stranded_hist rs) (handleIncomingPacket env p)"
proof -
  have "obeys_at (stranded_hist rs) (eff_read cn_state (\<lambda>st. case st of
           CS_SYN_SENT \<Rightarrow> handleAtSynSent p
         | CS_SYN_RECV \<Rightarrow> handleAtSynReceived env p
         | CS_CONNECTED \<Rightarrow> handleAtConnected env p
         | CS_CLOSE_WAIT \<Rightarrow>
             (if pk_type p = ST_STATE then eff_then (conn_handleAck env p) (eff_return True)
              else eff_return False)
         | CS_CLOSED \<Rightarrow> eff_return False
         | CS_RESET \<Rightarrow> eff_return False)) s" for s
    by (cases "stranded rs s") (auto simp: stranded_vacuous stranded_def intro!: stranded.at_control(2) stranded.at_simple)
  then show ?thesis
    unfolding handleIncomingPacket_def
    by (intro stranded.obeys_then stranded.obeys_when stranded.obeys_bind stranded.obeys_simple stranded.all_handleAck)
      (auto simp: obeys_def stranded_hist_def stranded_def intro!: stranded.at_steps)
qed

lemma stranded_connect:
  "obeys (stranded_hist rs) (conn_connectSend env)" "obeys (stranded_hist rs) (conn_awaitConnected pid)"
proof -
  have y: "obeys (stranded_hist rs) (eff_modify (\<lambda>s. set_localSeqNr (cn_seqNr s + 1) (s\<lparr>cn_localSyn := Some packet\<rparr>)))" for packet
    by (intro stranded.obeys_steps) (simp add: stranded_hist_def stranded_def set_localSeqNr_def)
  show "obeys (stranded_hist rs) (conn_connectSend env)"
    by (auto simp: conn_connectSend_def Let_def intro!: stranded.obeys_intros y stranded.all_sendUtpPacket)
  show "obeys (stranded_hist rs) (conn_awaitConnected pid)"
    unfolding conn_awaitConnected_def
    by (intro stranded.obeys_steps) (simp add: stranded_hist_def stranded_def conn_addListener_def)
qed

lemma stranded_do: "not_poll c \<Longrightarrow> obeys (stranded_hist rs) (conn_do env c)"
proof (rule obeysI)
  fix s :: conn
  assume c: "not_poll c"
  show "obeys_at (stranded_hist rs) (conn_do env c) s"
  proof (cases "stranded rs s")
    case False
    then show ?thesis by (rule stranded_vacuous)
  next
    case True
    then have s: "cn_state s = CS_RESET" by (simp add: stranded_def)
    show ?thesis
    proof (cases c)
      case (CallConnect pid)
      then show ?thesis
        by (auto simp: waitForConnecting_def
            intro!: obeys_at [where H = "stranded_hist rs"] stranded.obeys_intros stranded_connect stranded_settle)
    next
      case CallConnectSend
      then show ?thesis
        by (simp add: drop_result_def obeys_at [OF stranded.obeys_bind [OF stranded_connect(1) stranded.obeys_simple(1)]])
    next
      case (CallConnectListen pid)
      then show ?thesis by (simp add: obeys_at [OF stranded_connect(2)])
    next
      case (CallRead r n)
      have "conn_read r n s = (s\<lparr>cn_recvBuffer := (cn_recvBuffer s)\<lparr>bb_readers := bb_readers (cn_recvBuffer s) @ [(r, n)]\<rparr>\<rparr>, [], Inr ())"
        using True by (auto simp: conn_read_def bb_read_def stranded_def bb_length_def read_events_def eff_update_def)
      then show ?thesis using True CallRead by (auto simp: obeys_at_def stranded_hist_def stranded_def)
    next
      case CallTimeoutCheck
      then show ?thesis using s by (simp add: conn_timeoutCheck_def stranded.at_control(2) stranded.at_simple)
    next
      case CallClose
      then show ?thesis
        using s by (auto simp: drop_result_def conn_close_def conn_isClosed_def intro!: stranded.at_intros)
    qed (use c in \<open>auto simp: drop_result_def conn_connectTimeout_def conn_statTick_def stranded_hist_def stranded_def
          conn_removeListener_def
        intro!: obeys_at [where H = "stranded_hist rs"] stranded.obeys_bind stranded.obeys_simple stranded.obeys_steps
          stranded_handle stranded.all_write stranded.all_resumeWrite stranded_reset\<close>)
  qed
qed

text \<open>
  C30. Reads that wait at a reset wait for ever. A reset does not end the receive buffer: the reads that
  wait for data when it comes are not settled by it, and whatever is called on the connection
  afterwards (a poll of an earlier \<open>close\<close> apart), no read is: the connection stays RESET and the reads
  stay in front.
\<close>

theorem reset_strands_reads:
  assumes "bb_buffer (cn_recvBuffer s) = []" "bb_readers (cn_recvBuffer s) = rs"
    and "\<not> bb_closed (cn_recvBuffer s)" "\<not> bb_closedForWriting (cn_recvBuffer s)"
    and "calls_run not_poll (final (conn_reset env s)) es t"
  shows "cn_state t = CS_RESET \<and> (\<exists>more. bb_readers (cn_recvBuffer t) = rs @ more)
    \<and> (\<forall>r x. EvRead r x \<notin> set (events (conn_reset env s) @ es))"
proof -
  have tail: "stranded rs (final (conn_reset env s)) \<and> \<not> list_ex gives_read (events (conn_reset env s))"
    by (rule reset_parts [of s rs "[]"]) (use assms in simp_all)
  have "stranded_hist rs (final (conn_reset env s)) es t"
    by (rule calls_run_hist [OF stranded.history_axioms stranded_do assms(5)])
  then show ?thesis using tail by (auto simp: stranded_hist_def stranded_def list_ex_iff)
qed

theorem reset_strands_reads_witness:
  "let s = final (conn_reset sample_env (final (conn_read 1 10 sample_conn))) in
     \<exists>more. bb_readers (cn_recvBuffer (final (conn_do sample_env (CallHandle (sample_pkts 0)) s))) = [(1, 10)] @ more"
proof -
  define r where "r = final (conn_read 1 10 sample_conn)"
  have "r = sample_conn\<lparr>cn_recvBuffer := (bb_new bb_defaultMaxBytes)\<lparr>bb_readers := [(1, 10)]\<rparr>\<rparr>"
    by (simp add: r_def conn_read_def bb_read_def bb_new_def bb_length_def eff_defs read_events_def)
  then have r: "bb_buffer (cn_recvBuffer r) = []" "bb_readers (cn_recvBuffer r) = [(1, 10)]"
    "\<not> bb_closed (cn_recvBuffer r)" "\<not> bb_closedForWriting (cn_recvBuffer r)"
    by (simp_all add: bb_new_def)
  have "calls_run not_poll s (events (conn_do sample_env (CallHandle (sample_pkts 0)) s))
      (final (conn_do sample_env (CallHandle (sample_pkts 0)) s))" for s
    by (rule calls_run_once) simp
  from reset_strands_reads [OF r this] show ?thesis unfolding Let_def r_def [symmetric] by blast
qed

end
