(* ===== verification/EndToEnd.thy ===== *)
theory EndToEnd imports ConnSend begin

text \<open>
  Two connections and the network between them. The network carries datagrams, the encodings of what
  the sender gave to its socket; it may lose, repeat and reorder them. The receiver decodes what arrives
  and handles it, and its application reads.
\<close>

text \<open>The datagrams of the data packets a connection sent.\<close>

definition datagrams :: "conn_ev list \<Rightarrow> byte list set" where
  "datagrams es = {packet_toBytes p | p. pk_type p = ST_DATA \<and> (\<exists>a. EvSend p a \<in> set es)}"

inductive net_run :: "byte list set \<Rightarrow> conn \<Rightarrow> conn_ev list \<Rightarrow> conn \<Rightarrow> bool" for D s where
  net_start: "net_run D s [] s"
| net_packet: "net_run D s evs t \<Longrightarrow> b \<in> D \<Longrightarrow> packet_fromBytes b = Inr q \<Longrightarrow> x = handleIncomingPacket env q t
    \<Longrightarrow> net_run D s (evs @ events x) (final x)"
| net_read: "net_run D s evs t \<Longrightarrow> x = conn_read r k t \<Longrightarrow> net_run D s (evs @ events x) (final x)"

text \<open>
  The stream of the packets \<open>l\<close> as the receiver decodes them, continued by packets of \<open>k\<close> bytes which
  are never sent.
\<close>

definition stream_of :: "int \<Rightarrow> packet list \<Rightarrow> nat \<Rightarrow> nat \<Rightarrow> packet" where
  "stream_of base l k i =
     (if i < length l then packet_wire (l ! i)
      else packet_blank\<lparr>pk_type := ST_DATA, pk_seqNr := seq_add base (int i), pk_data := Some (replicate k 0)\<rparr>)"

lemma wire_data:
  assumes "pk_type p = ST_DATA" "u16 (pk_seqNr p)"
  shows "pk_type (packet_wire p) = ST_DATA" "pk_seqNr (packet_wire p) = pk_seqNr p" "payload (packet_wire p) = payload p"
  using assms by (auto simp: packet_wire_def packet_types u16_def payload_def split: option.splits)

lemma payload_filler: "length l \<le> i \<Longrightarrow> payload (stream_of base l k i) = replicate k 0"
  by (simp add: stream_of_def payload_def)

lemma concat_fillers:
  "length l \<le> n \<Longrightarrow> length (concat (map (\<lambda>i. payload (stream_of base l k i)) [length l..<n])) = (n - length l) * k"
proof -
  have "concat (map (\<lambda>i. payload (stream_of base l k i)) xs) = concat (map (\<lambda>i. replicate k 0) xs)"
    if "\<forall>i \<in> set xs. length l \<le> i" for xs
    using that by (intro arg_cong [of _ _ concat] map_cong) (simp_all add: payload_filler)
  moreover have "length (concat (map (\<lambda>i. replicate k (0 :: byte)) xs)) = length xs * k" for xs :: "nat list"
    by (induction xs) simp_all
  ultimately show ?thesis by simp
qed

lemma stream_split:
  "m \<le> n \<Longrightarrow> map f [0..<n] = map f [0..<m] @ map f [m..<n]"
  by (metis map_append upt_add_eq_append zero_le le_add_diff_inverse)

text \<open>The receiver cannot tell which packets would have followed those that were sent.\<close>

lemma net_rx:
  assumes run: "net_run D s evs t" and D: "D \<subseteq> packet_toBytes ` set l"
    and l: "\<And>i. i < length l \<Longrightarrow> pk_seqNr (l ! i) = seq_add base (int i)"
      "\<And>p. p \<in> set l \<Longrightarrow> pk_type p = ST_DATA \<and> packet_encodable p"
    and len: "length l < 49152" and at: "rx_at base m s" "m \<le> length l"
  shows "\<exists>n \<le> length l. \<forall>k. rx_run base (stream_of base l k) (length l + 16384) m s evs n t"
  using run
proof induction
  case net_start
  show ?case using at(2) by (intro exI [of _ m]) (simp add: rx_start)
next
  case (net_read evs t x r m)
  then show ?case by (blast intro: rx_read)
next
  case (net_packet evs t b q x env)
  then obtain n where n: "n \<le> length l" "\<And>k. rx_run base (stream_of base l k) (length l + 16384) m s evs n t"
    by blast
  obtain p where p: "p \<in> set l" "b = packet_toBytes p" using net_packet.hyps(2) D by blast
  then have q: "q = packet_wire p"
    using packet_fromBytes_toBytes [of p] l(2) [OF p(1)] net_packet.hyps(3) by simp
  obtain i where i: "i < length l" "l ! i = p" using p(1) by (auto simp: in_set_conv_nth)
  let ?n = "rx_next n t (final x)"
  have may: "rx_may (length l + 16384) n i t"
    unfolding rx_may_def using n(1) i(1) len by auto
  have run: "rx_run base (stream_of base l k) (length l + 16384) m s (evs @ events x) ?n (final x)" for k
    by (rule rx_packet [OF n(2) may]) (simp add: net_packet.hyps(4) stream_of_def i q)
  have stream: "peer_stream base (stream_of base l k)" for k
    using l wire_data by (auto simp: peer_stream_def stream_of_def)
  have mn: "m \<le> ?n" using rx_run_inv [OF run stream at(1)] by blast
  have "rx_stream (evs @ events x) (final x)
      = bb_buffer (cn_recvBuffer s) @ concat (map (\<lambda>j. payload (stream_of base l k j)) [m..<?n])" for k
    using rx_run_inv [OF run stream at(1)] by simp
  then have eq: "concat (map (\<lambda>j. payload (stream_of base l 1 j)) [m..<?n])
      = concat (map (\<lambda>j. payload (stream_of base l 2 j)) [m..<?n])"
    by (metis append_same_eq same_append_eq)
  have "?n \<le> length l"
  proof (rule ccontr)
    assume "\<not> ?n \<le> length l"
    then have mm: "length l \<le> ?n" "0 < ?n - length l" by simp_all
    have split: "map f [m..<?n] = map f [m..<length l] @ map f [length l..<?n]" for f :: "nat \<Rightarrow> byte list"
      using at(2) mm(1) by (metis map_append upt_add_eq_append le_add_diff_inverse)
    have same: "map (\<lambda>j. payload (stream_of base l 1 j)) [m..<length l]
        = map (\<lambda>j. payload (stream_of base l 2 j)) [m..<length l]"
      by (simp add: stream_of_def)
    have "concat (map (\<lambda>j. payload (stream_of base l 1 j)) [length l..<?n])
        = concat (map (\<lambda>j. payload (stream_of base l 2 j)) [length l..<?n])"
      using eq unfolding split concat_append same by simp
    then have "(?n - length l) * 1 = (?n - length l) * 2"
      by (metis concat_fillers [OF mm(1)])
    then show False using mm(2) by simp
  qed
  then show ?case using run by blast
qed

text \<open>What a receiver that had delivered \<open>m\<close> packets has given and can give after a run of the network.\<close>

lemma net_stream:
  assumes "net_run D s evs t" "D \<subseteq> packet_toBytes ` set l"
    and "\<And>i. i < length l \<Longrightarrow> pk_seqNr (l ! i) = seq_add base (int i)"
    and ok: "\<And>p. p \<in> set l \<Longrightarrow> pk_type p = ST_DATA \<and> packet_encodable p"
    and "length l < 49152" "rx_at base m s" "m \<le> length l"
  shows "\<exists>n \<le> length l. m \<le> n \<and> rx_inv base (stream_of base l 0) (length l + 16384) n t
    \<and> rx_stream evs t = bb_buffer (cn_recvBuffer s) @ concat (map payload (take (n - m) (drop m l)))"
proof -
  obtain n where n: "n \<le> length l" "\<And>k. rx_run base (stream_of base l k) (length l + 16384) m s evs n t"
    using net_rx [OF assms] by blast
  have "peer_stream base (stream_of base l 0)"
    using assms(3) ok wire_data by (auto simp: peer_stream_def stream_of_def)
  note inv = rx_run_inv [OF n(2) this assms(6)]
  have "map (\<lambda>j. payload (stream_of base l 0 j)) [m..<n] = map payload (take (n - m) (drop m l))"
    using n(1) inv assms(3) ok wire_data by (intro nth_equalityI) (auto simp: stream_of_def)
  then show ?thesis using inv n(1) by (intro exI [of _ n]) simp
qed

text \<open>The log of a sender's run, and what of it the network can carry.\<close>

lemma tx_datagrams:
  assumes "tx_run s es ws t" "cn_state s = CS_CONNECTED" "u16 (cn_seqNr s)" "sw_outstanding (cn_sendWindow s) = []"
  shows "\<exists>l. log_bytes l = concat ws \<and> length l = sum_list (map (\<lambda>w. chunks (length w)) ws)
    \<and> (\<forall>i < length l. pk_seqNr (l ! i) = seq_add (cn_seqNr s) (int i))
    \<and> (\<forall>p \<in> set l. pk_type p = ST_DATA \<and> packet_encodable p) \<and> datagrams es \<subseteq> packet_toBytes ` set l
    \<and> sw_packets (cn_sendWindow t) \<subseteq> set l"
proof -
  obtain l where l: "tx_log s es l t" "log_bytes l = concat ws" "length l = sum_list (map (\<lambda>w. chunks (length w)) ws)"
    using tx_run_log [OF assms(1-3)] by blast
  have "\<forall>p \<in> set l. pk_type p = ST_DATA \<and> packet_encodable p"
    using l(1) by (auto simp: tx_log_def data_of_def packet_encodable_def first_ext_type_def)
  moreover have "datagrams es \<subseteq> packet_toBytes ` set l"
    using l(1) assms(4) by (auto simp: datagrams_def tx_log_def numbered_sends_def numbered_def sw_packets_def)
  moreover have "sw_packets (cn_sendWindow t) \<subseteq> set l"
    using l(1) assms(4) by (auto simp: tx_log_def sw_packets_def)
  ultimately show ?thesis using l by (intro exI [of _ l]) (simp add: tx_log_def)
qed

text \<open>
  C1. End to end. Bytes written on one connection arrive on the other as they were written: for a
  sender whose writes make fewer than 49152 packets (67 megabytes), whatever it does besides (its
  window blocking it, acknowledgements, retransmissions), and whatever the network does with its
  datagrams (loss, repetition, any order), the bytes the receiving application was given followed by
  those it can still read are a prefix of the bytes written.
\<close>

theorem end_to_end:
  assumes "tx_run s es ws t" "cn_state s = CS_CONNECTED" "u16 (cn_seqNr s)"
    and "sw_outstanding (cn_sendWindow s) = []"
    and "sum_list (map (\<lambda>w. chunks (length w)) ws) < 49152"
    and "rx_fresh (cn_seqNr s) r" and "net_run (datagrams es) r evs r'"
  shows "\<exists>rest. read_bytes evs @ bb_buffer (cn_recvBuffer r') @ rest = concat ws"
proof -
  obtain l where l: "log_bytes l = concat ws" "length l = sum_list (map (\<lambda>w. chunks (length w)) ws)"
    "\<And>i. i < length l \<Longrightarrow> pk_seqNr (l ! i) = seq_add (cn_seqNr s) (int i)"
    "\<And>p. p \<in> set l \<Longrightarrow> pk_type p = ST_DATA \<and> packet_encodable p" "datagrams es \<subseteq> packet_toBytes ` set l"
    using tx_datagrams [OF assms(1-4)] by blast
  then obtain n where "rx_stream evs r' = bb_buffer (cn_recvBuffer r) @ concat (map payload (take (n - 0) (drop 0 l)))"
    using net_stream [OF assms(7) l(5,3,4) _ rx_fresh_at [OF assms(6)]] l(2) assms(5) by auto
  then have "read_bytes evs @ bb_buffer (cn_recvBuffer r') = concat (map payload (take n l))"
    using assms(6) by (simp add: rx_stream_def rx_fresh_def)
  moreover have "concat (map payload (take n l)) @ concat (map payload (drop n l)) = concat ws"
    unfolding l(1) [symmetric] log_bytes_def by (metis append_take_drop_id concat_append map_append)
  ultimately show ?thesis by (metis append.assoc)
qed

text \<open>The two bytes of the sample write, received by a peer that expects them.\<close>

definition sample_peer :: conn where
  "sample_peer = sample_conn\<lparr>cn_ackNr := 99\<rparr>"

theorem end_to_end_witness:
  "\<exists>q x rest. x = handleIncomingPacket sample_env q sample_peer \<and> pk_data q = Some [1, 2]
     \<and> net_run (datagrams (events (conn_write sample_env two_bytes sample_conn))) sample_peer (events x) (final x)
     \<and> read_bytes (events x) @ bb_buffer (cn_recvBuffer (final x)) @ rest = [1, 2]"
proof -
  let ?w = "conn_write sample_env two_bytes sample_conn"
  define p where "p = fst (createDataPacket sample_env two_bytes sample_conn)"
  define x where "x = handleIncomingPacket sample_env (packet_wire p) sample_peer"
  have p: "data_of sample_conn p" "pk_seqNr p = 100" "pk_type p = ST_DATA"
    using createData_parts [of sample_conn two_bytes sample_env]
    by (simp_all add: p_def two_bytes_def chunkSize_eq u16_def data_of_def)
  have q: "pk_type (packet_wire p) = ST_DATA" "pk_seqNr (packet_wire p) = 100"
    using wire_data [of p] p by (simp_all add: u16_def)
  have "packet_toBytes p \<in> datagrams (events ?w)"
    using sample_tx_run(2) p(3) by (auto simp: datagrams_def p_def)
  moreover have "packet_fromBytes (packet_toBytes p) = Inr (packet_wire p)"
    using p(1) by (intro packet_fromBytes_toBytes) (auto simp: data_of_def packet_encodable_def first_ext_type_def)
  ultimately have run: "net_run (datagrams (events ?w)) sample_peer ([] @ events x) (final x)"
    by (rule net_packet [OF net_start]) (simp add: x_def)
  have "pk_data (packet_wire p) = Some [1, 2]"
    using createData_parts(4) [of sample_conn two_bytes sample_env]
    by (simp add: p_def packet_wire_def two_bytes_def chunkSize_eq u16_def)
  moreover have "rx_fresh (cn_seqNr sample_conn) sample_peer"
    by (simp add: rx_fresh_def sample_peer_def bb_new_def seq_simps)
  moreover have "sw_outstanding (cn_sendWindow sample_conn) = []" "u16 (cn_seqNr sample_conn)"
    by (simp_all add: sw_new_def sw_outstanding_def bm_all_def bm_new_def u16_def)
  ultimately show ?thesis
    using end_to_end [OF sample_tx_run(1) _ _ _ _ _ run] run
    by (simp add: two_bytes_def chunks_simps) (metis x_def)
qed

end
