(* ===== verification/AckHonest.thy ===== *)
theory AckHonest imports EndToEnd begin

text \<open>
  A receiver acknowledges only what reached it. For any behaviour of the network, the cumulative number
  and the selective mask of every acknowledgement it sends, as its peer decodes them, name packets of
  which a datagram arrived.
\<close>

subsection \<open>What was delivered or is queued did arrive\<close>

text \<open>In less than the number space a place is told from its number.\<close>

lemma same_place:
  assumes "m < 65536" "n < 65536"
  shows "seq_add base (int m) = seq_add base (int n) \<longleftrightarrow> m = n"
    and "seq_add base (int m - 1) = seq_add base (int n - 1) \<longleftrightarrow> m = n"
proof -
  have "\<bar>int m - int n\<bar> < 65536" "\<bar>(int m - 1) - (int n - 1)\<bar> < 65536" using assms by auto
  from this [THEN same_mod_close [rotated]] show "seq_add base (int m) = seq_add base (int n) \<longleftrightarrow> m = n"
    "seq_add base (int m - 1) = seq_add base (int n - 1) \<longleftrightarrow> m = n"
    unfolding seq_add_inj by auto
qed

text \<open>The datagrams of the packets of \<open>l\<close> at the places \<open>B\<close>.\<close>

definition sent_at :: "packet list \<Rightarrow> nat set \<Rightarrow> byte list set" where
  "sent_at l B = (\<lambda>i. packet_toBytes (l ! i)) ` B"

text \<open>A log of a sender: data packets numbered from \<open>base\<close>, none empty, in less than half the number space.\<close>

definition stream_log :: "int \<Rightarrow> packet list \<Rightarrow> bool" where
  "stream_log base l \<longleftrightarrow> length l < 32768 \<and> (\<forall>i < length l. pk_seqNr (l ! i) = seq_add base (int i)
     \<and> pk_type (l ! i) = ST_DATA \<and> packet_encodable (l ! i) \<and> payload (l ! i) \<noteq> [])"

text \<open>
  What the receiver holds after a run depends on the packets that arrived only: the log \<open>l\<close> may be
  replaced by one that has an empty packet at a place that did not arrive.
\<close>

lemma rx_arrived_run:
  assumes l: "stream_log base l" and B: "B \<subseteq> {..<length l}" and run: "net_run (sent_at l B) r evs t"
    and at: "rx_at base 0 r" and j: "j \<notin> B"
  defines "l' \<equiv> l[j := (l ! j)\<lparr>pk_data := None\<rparr>]"
  shows "\<exists>n \<le> length l. cn_ackNr t = seq_add base (int n - 1)
    \<and> (\<forall>k. rx_stream evs t = bb_buffer (cn_recvBuffer r) @ concat (map (\<lambda>i. payload (stream_of base l k i)) [0..<n])
         \<and> rx_stream evs t = bb_buffer (cn_recvBuffer r) @ concat (map (\<lambda>i. payload (stream_of base l' k i)) [0..<n])
         \<and> rx_inv base (stream_of base l k) (length l + 16384) n t
         \<and> rx_inv base (stream_of base l' k) (length l + 16384) n t)"
proof -
  have at_l: "pk_seqNr (l ! i) = seq_add base (int i)" "pk_type (l ! i) = ST_DATA \<and> packet_encodable (l ! i)"
    if "i < length l" for i
    using l that by (auto simp: stream_log_def)
  have at_l': "pk_seqNr (l' ! i) = seq_add base (int i) \<and> pk_type (l' ! i) = ST_DATA \<and> packet_encodable (l' ! i)"
    if "i < length l'" for i
    using that at_l [of i] by (cases "i = j") (simp_all add: l'_def packet_encodable_def)
  have len: "length l < 49152" "length l' = length l" using l by (simp_all add: stream_log_def l'_def)
  have stream: "\<exists>n \<le> length m. \<forall>k. rx_stream evs t = bb_buffer (cn_recvBuffer r) @ concat (map (\<lambda>i. payload (stream_of base m k i)) [0..<n])
      \<and> rx_inv base (stream_of base m k) (length m + 16384) n t"
    if D: "sent_at l B \<subseteq> packet_toBytes ` set m" and seq: "\<And>i. i < length m \<Longrightarrow> pk_seqNr (m ! i) = seq_add base (int i)"
      and data: "\<And>p. p \<in> set m \<Longrightarrow> pk_type p = ST_DATA \<and> packet_encodable p" and small: "length m < 49152" for m
  proof -
    obtain n where n: "n \<le> length m" "\<And>k. rx_run base (stream_of base m k) (length m + 16384) 0 r evs n t"
      using net_rx [OF run D seq data small at] by blast
    have "peer_stream base (stream_of base m k)" for k
      using seq data wire_data by (auto simp: peer_stream_def stream_of_def)
    then show ?thesis using n rx_run_inv [OF n(2) _ at] by blast
  qed
  have "sent_at l B \<subseteq> packet_toBytes ` set l" using B by (auto simp: sent_at_def)
  moreover have "\<And>p. p \<in> set l \<Longrightarrow> pk_type p = ST_DATA \<and> packet_encodable p"
    using at_l(2) by (auto simp: in_set_conv_nth)
  ultimately obtain n where n: "n \<le> length l"
    "\<And>k. rx_stream evs t = bb_buffer (cn_recvBuffer r) @ concat (map (\<lambda>i. payload (stream_of base l k i)) [0..<n])"
    "\<And>k. rx_inv base (stream_of base l k) (length l + 16384) n t"
    using stream [of l] at_l(1) len(1) by blast
  have "l' ! i = l ! i" if "i \<in> B" for i using that j by (cases "i = j") (auto simp: l'_def)
  moreover have "l' ! i \<in> set l'" if "i \<in> B" for i using that B len(2) by auto
  ultimately have "packet_toBytes (l ! i) \<in> packet_toBytes ` set l'" if "i \<in> B" for i using that by (metis imageI)
  then have "sent_at l B \<subseteq> packet_toBytes ` set l'" by (auto simp: sent_at_def)
  moreover have "\<And>p. p \<in> set l' \<Longrightarrow> pk_type p = ST_DATA \<and> packet_encodable p"
    using at_l' by (auto simp: in_set_conv_nth)
  ultimately obtain n' where n': "n' \<le> length l"
    "\<And>k. rx_stream evs t = bb_buffer (cn_recvBuffer r) @ concat (map (\<lambda>i. payload (stream_of base l' k i)) [0..<n'])"
    "\<And>k. rx_inv base (stream_of base l' k) (length l + 16384) n' t"
    using stream [of l'] at_l' len by auto
  have ack: "cn_ackNr t = seq_add base (int n - 1)" "cn_ackNr t = seq_add base (int n' - 1)"
    using n(3) n'(3) by (auto simp: rx_inv_def)
  then have "n' = n" using n(1) n'(1) len(1) same_place(2) [of n' n base] by simp
  then show ?thesis using n n' ack(1) by blast
qed

lemma cut_payload: "payload (p\<lparr>pk_data := None\<rparr>) = []"
  by (simp add: payload_def)

lemma stream_payload:
  assumes "i < length m" "pk_type (m ! i) = ST_DATA" "u16 (pk_seqNr (m ! i))"
  shows "payload (stream_of base m k i) = payload (m ! i)"
  using assms wire_data(3) by (simp add: stream_of_def)

lemma delivered_arrived:
  assumes l: "stream_log base l" and B: "B \<subseteq> {..<length l}" and run: "net_run (sent_at l B) r evs t"
    and at: "rx_at base 0 r" and n: "cn_ackNr t = seq_add base (int n - 1)" "n \<le> length l"
  shows "{..<n} \<subseteq> B"
proof
  fix j assume j: "j \<in> {..<n}"
  show "j \<in> B"
  proof (rule ccontr)
    assume nb: "j \<notin> B"
    let ?l' = "l[j := (l ! j)\<lparr>pk_data := None\<rparr>]"
    obtain m where m: "m \<le> length l" "cn_ackNr t = seq_add base (int m - 1)"
      and s: "rx_stream evs t = bb_buffer (cn_recvBuffer r) @ concat (map (\<lambda>i. payload (stream_of base l 0 i)) [0..<m])"
        "rx_stream evs t = bb_buffer (cn_recvBuffer r) @ concat (map (\<lambda>i. payload (stream_of base ?l' 0 i)) [0..<m])"
      using rx_arrived_run [OF l B run at nb] by blast
    have "length l < 32768" using l by (simp add: stream_log_def)
    then have mn: "m = n" using m n same_place(2) [of m n base] by simp
    have pl: "payload (stream_of base l 0 i) = payload (l ! i)"
      "payload (stream_of base ?l' 0 i) = (if i = j then [] else payload (l ! i))" if "i < n" for i
    proof -
      have i: "i < length l" using that n(2) by simp
      then have d: "pk_type (l ! i) = ST_DATA" "u16 (pk_seqNr (l ! i))" using l by (simp_all add: stream_log_def)
      show "payload (stream_of base l 0 i) = payload (l ! i)" by (rule stream_payload [OF i d])
      show "payload (stream_of base ?l' 0 i) = (if i = j then [] else payload (l ! i))"
        using stream_payload [of i ?l' base 0] i d by (cases "i = j") (simp_all add: cut_payload)
    qed
    have maps: "map (\<lambda>i. payload (stream_of base l 0 i)) [0..<n] = map (\<lambda>i. payload (l ! i)) [0..<n]"
      "map (\<lambda>i. payload (stream_of base ?l' 0 i)) [0..<n] = map (\<lambda>i. if i = j then [] else payload (l ! i)) [0..<n]"
      using pl by simp_all
    have "concat (map (\<lambda>i. payload (l ! i)) [0..<n]) = concat (map (\<lambda>i. if i = j then [] else payload (l ! i)) [0..<n])"
      using s unfolding mn maps by simp
    then have "(\<Sum>i \<leftarrow> [0..<n]. length (payload (l ! i))) = (\<Sum>i \<leftarrow> [0..<n]. length (if i = j then [] else payload (l ! i)))"
      by (drule_tac arg_cong [of _ _ length]) (simp add: length_concat comp_def)
    moreover have "(\<Sum>i \<leftarrow> [0..<n]. length (if i = j then [] else payload (l ! i))) < (\<Sum>i \<leftarrow> [0..<n]. length (payload (l ! i)))"
    proof -
      have "(\<Sum>i = 0..<n. length (if i = j then [] else payload (l ! i))) < (\<Sum>i = 0..<n. length (payload (l ! i)))"
        using j l n(2) by (intro sum_strict_mono_ex1) (auto simp: stream_log_def)
      then show ?thesis by (simp add: interv_sum_list_conv_sum_set_nat)
    qed
    ultimately show False by simp
  qed
qed

lemma queued_arrived:
  assumes l: "stream_log base l" and B: "B \<subseteq> {..<length l}" and run: "net_run (sent_at l B) r evs t"
    and at: "rx_at base 0 r" and q: "cq_get (cn_recvQueue t) key = Some p"
  shows "\<exists>j \<in> B. key = seq_add base (int j)"
proof -
  have place: "\<exists>i < length l. p = packet_wire (m ! i) \<and> key = seq_add base (int i)"
    if len: "length m = length l" and inv: "\<And>k. rx_inv base (stream_of base m k) (length l + 16384) n t" for m n
  proof -
    have e: "\<exists>i. p = stream_of base m k i \<and> key = seq_add base (int i)" for k
    proof -
      have "rx_entry base (stream_of base m k) (length l + 16384) n key p"
        using inv [of k] q by (simp add: rx_inv_def)
      then show ?thesis unfolding rx_entry_def by blast
    qed
    obtain i1 where i1: "p = stream_of base m 1 i1" "key = seq_add base (int i1)" using e [of 1] by blast
    obtain i2 where i2: "p = stream_of base m 2 i2" "key = seq_add base (int i2)" using e [of 2] by blast
    have "i1 < length m \<or> i2 < length m"
    proof (rule ccontr)
      assume "\<not> (i1 < length m \<or> i2 < length m)"
      then have far: "length m \<le> i1" "length m \<le> i2" by simp_all
      have "length (payload p) = 1" unfolding i1(1) payload_filler [OF far(1)] by simp
      moreover have "length (payload p) = 2" unfolding i2(1) payload_filler [OF far(2)] by simp
      ultimately show False by simp
    qed
    then show ?thesis using i1 i2 len by (auto simp: stream_of_def)
  qed
  have "\<exists>n. \<forall>k. rx_inv base (stream_of base l k) (length l + 16384) n t"
    using rx_arrived_run [OF l B run at, of "length l"] B by fastforce
  then obtain i where i: "i < length l" "p = packet_wire (l ! i)" "key = seq_add base (int i)"
    using place [of l] by blast
  have "i \<in> B"
  proof (rule ccontr)
    assume nb: "i \<notin> B"
    let ?l' = "l[i := (l ! i)\<lparr>pk_data := None\<rparr>]"
    have "\<exists>n. \<forall>k. rx_inv base (stream_of base ?l' k) (length l + 16384) n t"
      using rx_arrived_run [OF l B run at nb] by blast
    then obtain j where j: "j < length l" "p = packet_wire (?l' ! j)" "key = seq_add base (int j)"
      using place [of ?l'] by auto
    have "length l < 32768" using l by (simp add: stream_log_def)
    then have "i = j" using i(1,3) j(1,3) same_place(1) [of i j base] by simp
    then have "payload (packet_wire (l ! i)) = payload (packet_wire ((l ! i)\<lparr>pk_data := None\<rparr>))"
      using i j by simp
    moreover have "pk_type (l ! i) = ST_DATA" "u16 (pk_seqNr (l ! i))" "payload (l ! i) \<noteq> []"
      using l i(1) by (simp_all add: stream_log_def)
    ultimately show False using wire_data(3) [of "l ! i"] wire_data(3) [of "(l ! i)\<lparr>pk_data := None\<rparr>"]
      by (simp add: cut_payload)
  qed
  then show ?thesis using i(3) by blast
qed

subsection \<open>The acknowledgement as the peer decodes it\<close>

text \<open>
  What an acknowledgement claims: the packets up to some place by its number, and places by its mask,
  all of them among \<open>B\<close>.
\<close>

definition ack_honest :: "int \<Rightarrow> nat set \<Rightarrow> packet \<Rightarrow> bool" where
  "ack_honest base B q \<longleftrightarrow> pk_type q = ST_STATE \<and> (\<exists>m. pk_ackNr q = seq_add base (int m - 1) \<and> {..<m} \<subseteq> B)
     \<and> (\<forall>key \<in> set (sw_ackedBySack q). \<exists>j \<in> B. key = seq_add base (int j))"

lemma ack_honest_mono: "ack_honest base B q \<Longrightarrow> B \<subseteq> C \<Longrightarrow> ack_honest base C q"
  unfolding ack_honest_def by blast

text \<open>
  The length of a mask is written in one octet: of a mask longer than 255 octets the peer reads only a
  beginning as the mask, and takes the rest for data.
\<close>

lemma long_mask_wire:
  fixes p :: packet
  assumes "pk_extensions p = [SackExt k]" "pk_extension p = 1" "pk_version p = 1" "pk_data p = None"
    and "sack_base k = pk_ackNr p" "u16 (pk_ackNr p)" "length (sack_bitmask k) mod 4 = 0"
  defines "n \<equiv> length (sack_bitmask k) mod 256"
  defines "p' \<equiv> p\<lparr>pk_extensions := [SackExt (k\<lparr>sack_bitmask := take n (sack_bitmask k)\<rparr>)],
      pk_data := Some (drop n (sack_bitmask k))\<rparr>"
  shows "packet_fromBytes (packet_toBytes p) = Inr (packet_wire p')"
proof -
  have n: "n \<le> length (sack_bitmask k)" "n < 256" by (simp_all add: n_def)
  have "n mod 4 = 0" using assms(7) by (simp add: n_def mod_mod_cancel)
  then have "packet_encodable p'"
    using assms(1-3,5,6) n by (auto simp: p'_def packet_encodable_def ext_ok_def first_ext_type_def u16_def)
  moreover have "packet_toBytes p = packet_toBytes p'"
  proof -
    have "(word_of_int z :: byte) = word_of_int (z mod 256)" for z
      by (simp add: word_of_int_eq_iff take_bit_eq_mod)
    then have "put_uint8 (int (length (sack_bitmask k))) = put_uint8 (int n)"
      unfolding put_uint8_def n_def zmod_int by simp
    then show ?thesis
      using assms(1,4) n by (simp add: p'_def packet_toBytes_def toBytes_header_def)
  qed
  ultimately show ?thesis using packet_fromBytes_toBytes [of p'] by simp
qed

lemma mask_prefix:
  "set (sack_getRemoteReceivedSeqNrs (k\<lparr>sack_bitmask := take n (sack_bitmask k)\<rparr>)) \<subseteq> set (sack_getRemoteReceivedSeqNrs k)"
proof -
  have "mask_bit (take n bm) i = mask_bit bm i" if "i < 8 * n" for i and bm :: "byte list"
    using that by (simp add: mask_bit_def less_mult_imp_div_less mult.commute)
  then show ?thesis unfolding sack_received_list by auto
qed

definition holds_only :: "int \<Rightarrow> nat set \<Rightarrow> conn \<Rightarrow> bool" where
  "holds_only base B u \<longleftrightarrow> (\<exists>n. cn_ackNr u = seq_add base (int n - 1) \<and> {..<n} \<subseteq> B)
     \<and> (\<forall>key. cq_get (cn_recvQueue u) key \<noteq> None \<longrightarrow> (\<exists>j \<in> B. key = seq_add base (int j)))"

lemma ack_of_holder:
  fixes env :: env and u :: conn
  assumes h: "holds_only base B u" and q: "packet_fromBytes (packet_toBytes (createAckPacket env (sack_createFromConn u) u)) = Inr q"
  shows "ack_honest base B q"
proof -
  let ?p = "createAckPacket env (sack_createFromConn u) u"
  have u: "u16 (cn_ackNr u)" using h by (auto simp: holds_only_def)
  show ?thesis
  proof (cases "sack_createFromConn u")
    case None
    then have p: "pk_ackNr ?p = cn_ackNr u" "pk_extensions ?p = []" "packet_encodable ?p"
      by (simp_all add: createAckPacket_def packet_blank_def packet_encodable_def first_ext_type_def)
    have "q = packet_wire ?p" using packet_fromBytes_toBytes [OF p(3)] q by simp
    then have "pk_ackNr q = cn_ackNr u" "sw_ackedBySack q = []" "pk_type q = ST_STATE"
      using p u by (simp_all add: createAckPacket_def packet_types packet_wire_def u16_def sw_ackedBySack_def sackExtension_def)
    then show ?thesis using h by (auto simp: ack_honest_def holds_only_def)
  next
    case (Some k)
    then have c: "sack_create (cn_ackNr u) (cq_keys (cn_recvQueue u)) = Some k" by (simp add: sack_createFromConn_def)
    note len = sack_create_length [OF c]
    let ?n = "length (sack_bitmask k) mod 256"
    let ?k = "k\<lparr>sack_bitmask := take ?n (sack_bitmask k)\<rparr>"
    have p: "pk_ackNr ?p = cn_ackNr u" "pk_extensions ?p = [SackExt k]" "pk_extension ?p = 1" "pk_version ?p = 1"
      "pk_data ?p = None" "sack_base k = pk_ackNr ?p"
      using Some len(5) by (simp_all add: createAckPacket_def packet_blank_def)
    have "q = packet_wire (?p\<lparr>pk_extensions := [SackExt ?k], pk_data := Some (drop ?n (sack_bitmask k))\<rparr>)"
      using long_mask_wire [OF p(2-6) _ len(1)] q u p(1) by simp
    then have "pk_ackNr q = cn_ackNr u" "sw_ackedBySack q = sack_getRemoteReceivedSeqNrs ?k" "pk_type q = ST_STATE"
      using p(1) u by (simp_all add: createAckPacket_def packet_types packet_wire_def u16_def sw_ackedBySack_def sackExtension_def)
    moreover have "\<exists>j \<in> B. key = seq_add base (int j)" if "key \<in> set (sack_getRemoteReceivedSeqNrs k)" for key
    proof -
      have "u16 key" if k: "key \<in> set (cq_keys (cn_recvQueue u))" for key
      proof -
        obtain j where "key = seq_add base (int j)" using h k by (auto simp: holds_only_def cq_keys_set)
        then show ?thesis by simp
      qed
      then have "key \<in> set (cq_keys (cn_recvQueue u))" using sack_create_sets(1) [OF _ c] that by blast
      then show ?thesis using h by (simp add: holds_only_def cq_keys_set)
    qed
    ultimately show ?thesis using h mask_prefix [of ?n k] unfolding ack_honest_def holds_only_def by auto
  qed
qed

text \<open>A receiver that was fed the datagrams of the places \<open>B\<close> holds nothing else.\<close>

lemma receiver_holds:
  assumes l: "stream_log base l" and B: "B \<subseteq> {..<length l}" and run: "net_run (sent_at l B) r evs t"
    and at: "rx_at base 0 r"
  shows "holds_only base B t"
proof -
  obtain n where n: "n \<le> length l" "cn_ackNr t = seq_add base (int n - 1)"
    using rx_arrived_run [OF l B run at, of "length l"] B by fastforce
  have "{..<n} \<subseteq> B" by (rule delivered_arrived [OF l B run at n(2,1)])
  then show ?thesis using n(2) queued_arrived [OF l B run at] by (auto simp: holds_only_def)
qed

lemma packet_acks:
  fixes env :: env
  assumes l: "stream_log base l" and B: "B \<subseteq> {..<length l}" and run: "net_run (sent_at l B) r evs s"
    and at: "rx_at base 0 r" and b: "b \<in> sent_at l B" "packet_fromBytes b = Inr p"
  defines "x \<equiv> handleIncomingPacket env p s"
  assumes send: "EvSend q a \<in> set (events x)" "packet_fromBytes (packet_toBytes q) = Inr q'"
  shows "ack_honest base B q'"
proof -
  obtain i where i: "i \<in> B" "i < length l" "b = packet_toBytes (l ! i)" using b(1) B by (auto simp: sent_at_def)
  have d: "pk_type (l ! i) = ST_DATA" "pk_seqNr (l ! i) = seq_add base (int i)" "packet_encodable (l ! i)"
    using l i(2) by (simp_all add: stream_log_def)
  have p: "p = packet_wire (l ! i)" using packet_fromBytes_toBytes [OF d(3)] b(2) i(3) by simp
  let ?f = "stream_of base l 0"
  have fi: "?f i = p" using i(2) p by (simp add: stream_of_def)
  have w: "pk_type (?f i) = ST_DATA" "pk_seqNr (?f i) = seq_add base (int i)"
    unfolding fi p using wire_data [OF d(1)] d(2) by simp_all
  obtain n where n: "n \<le> length l" "rx_inv base ?f (length l + 16384) n s"
    using rx_arrived_run [OF l B run at, of "length l"] B by fastforce
  have len: "length l < 32768" using l by (simp add: stream_log_def)
  have next_run: "net_run (sent_at l B) r (evs @ events x) (final x)"
    by (rule net_packet [OF run b]) (simp add: x_def)
  note holds = receiver_holds [OF l B next_run at]
  have "\<exists>u. q = createAckPacket env (sack_createFromConn u) u \<and> cn_ackNr u = cn_ackNr (final x)
      \<and> cn_recvQueue u = cn_recvQueue (final x)"
  proof (rule rx_data [OF n(2) _ w, of env], unfold fi, fold x_def)
    assume "\<forall>q a. EvSend q a \<in> set (events x) \<longrightarrow> (\<exists>u. q = createAckPacket env (sack_createFromConn u) u
       \<and> cn_ackNr u = cn_ackNr (final x) \<and> cn_recvQueue u = cn_recvQueue (final x))"
    then show ?thesis using send(1) by blast
  qed (use n(1) i(2) len in simp_all)
  then obtain u where u: "q = createAckPacket env (sack_createFromConn u) u" "cn_ackNr u = cn_ackNr (final x)"
    "cn_recvQueue u = cn_recvQueue (final x)" by blast
  have "holds_only base B u" using holds u(2,3) by (simp add: holds_only_def)
  from ack_of_holder [OF this] show ?thesis using send(2) u(1) by blast
qed

lemma receiver_acks:
  assumes run: "net_run (sent_at l B) r evs t" and l: "stream_log base l" and B: "B \<subseteq> {..<length l}" and at: "rx_at base 0 r"
  shows "EvSend q a \<in> set evs \<Longrightarrow> packet_fromBytes (packet_toBytes q) = Inr q' \<Longrightarrow> ack_honest base B q'"
  using run
proof induction
  case (net_packet evs t b p x env)
  then show ?case using packet_acks [OF l B net_packet.hyps(1) at net_packet.hyps(2,3)] by auto
next
  case (net_read evs t x rd k)
  moreover have "EvSend q a \<notin> set (events (conn_read rd k t))"
    by (auto simp: conn_read_def read_events_def split: sum.splits prod.splits)
  ultimately show ?case by auto
qed simp

end
