(* ===== verification/WindowBooks.thy ===== *)
theory WindowBooks imports AckHonest begin

text \<open>
  The books of a send window: every packet handed to it is outstanding, or has arrived at the peer, or
  was sent four times. Each operation of the window keeps them: admitting, handing over, sending again,
  dropping, and an acknowledgement that claims only what arrived.
\<close>

text \<open>
  \<open>c i\<close> is how often the \<open>i\<close>-th packet was sent. An entry that waits for room was not sent; one in
  flight was sent once more than it was retransmitted.
\<close>

definition entry_ok :: "int \<Rightarrow> packet list \<Rightarrow> (nat \<Rightarrow> nat) \<Rightarrow> int set \<Rightarrow> int \<Rightarrow> pkt_info \<Rightarrow> bool" where
  "entry_ok base l c W k info \<longleftrightarrow> (\<exists>i < length l. k = seq_add base (int i) \<and> pi_packet info = l ! i
     \<and> (if k \<in> W then pi_resendTimes info = 0 \<and> c i = 0 else pi_resendTimes info < c i))"

definition book :: "int \<Rightarrow> packet list \<Rightarrow> nat set \<Rightarrow> (nat \<Rightarrow> nat) \<Rightarrow> send_window \<Rightarrow> bool" where
  "book base l B c w \<longleftrightarrow> sw_ok w
     \<and> (\<forall>(k, info) \<in> set (sw_outstanding w). entry_ok base l c (sw_waitKeys w) k info)
     \<and> (\<forall>i < length l. seq_add base (int i) \<in> fst ` set (sw_outstanding w) \<or> i \<in> B \<or> 4 \<le> c i)"

lemma book_cong:
  assumes "\<And>i. i < length l \<Longrightarrow> c i = c' i" shows "book base l B c w = book base l B c' w"
proof -
  have "entry_ok base l c W k info = entry_ok base l c' W k info" for W k info
    unfolding entry_ok_def using assms by (intro ex_cong1 conj_cong refl) auto
  then show ?thesis using assms by (simp add: book_def)
qed

lemma book_entry:
  assumes "book base l B c w" "(k, info) \<in> set (sw_outstanding w)"
  obtains i where "i < length l" "k = seq_add base (int i)" "pi_packet info = l ! i"
    "if k \<in> sw_waitKeys w then pi_resendTimes info = 0 \<and> c i = 0 else pi_resendTimes info < c i"
proof -
  have "entry_ok base l c (sw_waitKeys w) k info" using assms by (auto simp: book_def)
  then show ?thesis unfolding entry_ok_def using that by blast
qed

lemma log_inj: "stream_log base l \<Longrightarrow> i < length l \<Longrightarrow> j < length l \<Longrightarrow> l ! i = l ! j \<longleftrightarrow> i = j"
proof -
  assume l: "stream_log base l" and i: "i < length l" and j: "j < length l"
  then have "pk_seqNr (l ! i) = seq_add base (int i)" "pk_seqNr (l ! j) = seq_add base (int j)" "length l < 65536"
    by (simp_all add: stream_log_def)
  then show ?thesis using same_place(1) [of i j base] i j by force
qed

lemma log_snoc:
  assumes "stream_log base (l @ [p])"
  shows "stream_log base l" "pk_seqNr p = seq_add base (int (length l))"
proof -
  have at: "pk_seqNr ((l @ [p]) ! i) = seq_add base (int i) \<and> pk_type ((l @ [p]) ! i) = ST_DATA
      \<and> packet_encodable ((l @ [p]) ! i) \<and> payload ((l @ [p]) ! i) \<noteq> []" if "i \<le> length l" for i
    using assms that by (simp add: stream_log_def)
  have "pk_seqNr (l ! i) = seq_add base (int i) \<and> pk_type (l ! i) = ST_DATA \<and> packet_encodable (l ! i) \<and> payload (l ! i) \<noteq> []"
    if "i < length l" for i
    using at [of i] that by (simp add: nth_append)
  then show "stream_log base l" using assms by (simp add: stream_log_def)
  show "pk_seqNr p = seq_add base (int (length l))" using at [of "length l"] by simp
qed

text \<open>How often the released entries carry a packet.\<close>

definition among :: "packet \<Rightarrow> (int \<times> pkt_info) list \<Rightarrow> nat" where
  "among p rel = length (filter (\<lambda>e. pi_packet (snd e) = p) rel)"

lemma among_pos: "(k, info) \<in> set rel \<Longrightarrow> pi_packet info = p \<Longrightarrow> 0 < among p rel"
  by (force simp: among_def filter_empty_conv)

lemma among_zero: "among p rel = 0 \<longleftrightarrow> (\<forall>(k, info) \<in> set rel. pi_packet info \<noteq> p)"
  by (auto simp: among_def filter_empty_conv)

text \<open>Admitting the waiting entries \<open>rel\<close>, each of which is sent once; \<open>W\<close> are those that wait afterwards.\<close>

lemma entry_release:
  assumes b: "book base l B c w" and l: "stream_log base l" and m: "(k, info) \<in> set (sw_outstanding w)"
    and rel: "set rel \<subseteq> set (sw_outstanding w)" "sw_waitKeys w \<subseteq> fst ` set rel \<union> W"
    and W: "k \<in> W \<Longrightarrow> k \<in> sw_waitKeys w \<and> k \<notin> fst ` set rel"
  shows "entry_ok base l (\<lambda>i. c i + among (l ! i) rel) W k info"
proof (rule book_entry [OF b m])
  fix i assume i: "i < length l" "k = seq_add base (int i)" "pi_packet info = l ! i"
    and st: "if k \<in> sw_waitKeys w then pi_resendTimes info = 0 \<and> c i = 0 else pi_resendTimes info < c i"
  have ok: "sw_ok w" using b by (simp add: book_def)
  have "if k \<in> W then pi_resendTimes info = 0 \<and> c i + among (l ! i) rel = 0
      else pi_resendTimes info < c i + among (l ! i) rel"
  proof (cases "k \<in> W")
    case True
    have "pi_packet info' \<noteq> l ! i" if r: "(k', info') \<in> set rel" for k' info'
    proof -
      obtain j where j: "j < length l" "k' = seq_add base (int j)" "pi_packet info' = l ! j"
        by (rule book_entry [OF b subsetD [OF rel(1) r]])
      then have "j \<noteq> i" using W [OF True] r i(2) by force
      then show ?thesis using log_inj [OF l j(1) i(1)] j(3) by simp
    qed
    then have "among (l ! i) rel = 0" by (auto simp: among_zero)
    then show ?thesis using True st W by simp
  next
    case False
    show ?thesis
    proof (cases "k \<in> sw_waitKeys w")
      case True
      then obtain info' where r: "(k, info') \<in> set rel" using False rel(2) by auto
      then have "(k, info') \<in> set (sw_outstanding w)" using rel(1) by blast
      then have "info' = info" by (rule eq_key_imp_eq_value [OF sw_ok_distinct [OF ok] _ m])
      then have "0 < among (l ! i) rel" using among_pos [OF r] i(3) by simp
      then show ?thesis using True False st by simp
    qed (use False st in simp)
  qed
  then show ?thesis using i by (auto simp: entry_ok_def)
qed

lemma released_keys:
  assumes "sw_ok w" "bm_waiting (sw_packetMap w) = rel @ ws"
  shows "set rel \<subseteq> set (sw_outstanding w)" "sw_waitKeys w = fst ` set rel \<union> fst ` set ws"
    "fst ` set rel \<inter> fst ` set ws = {}"
  using sw_ok_distinct [OF assms(1)] by (auto simp: sw_outstanding_def bm_all_def sw_waitKeys_def bm_waitKeys_def assms(2))

lemma book_release:
  assumes b: "book base l B c w" and l: "stream_log base l"
    and w': "sw_ok w'" "sw_outstanding w' = filter (\<lambda>e. \<not> R (fst e)) (sw_outstanding w)"
    and rel: "bm_waiting (sw_packetMap w) = rel @ bm_waiting (sw_packetMap w')"
    and R: "\<And>i. i < length l \<Longrightarrow> R (seq_add base (int i)) \<Longrightarrow> i \<in> B \<or> 4 \<le> c i"
  shows "book base l B (\<lambda>i. c i + among (l ! i) rel) w'"
proof -
  let ?c = "\<lambda>i. c i + among (l ! i) rel"
  have ok: "sw_ok w" using b by (simp add: book_def)
  note keys = released_keys [OF ok rel, folded bm_waitKeys_def sw_waitKeys_def]
  have e: "entry_ok base l ?c (sw_waitKeys w') k info" if "(k, info) \<in> set (sw_outstanding w')" for k info
    by (rule entry_release [OF b l _ keys(1)]) (use that w'(2) keys in auto)
  have "seq_add base (int i) \<in> fst ` set (sw_outstanding w') \<or> i \<in> B \<or> 4 \<le> ?c i" if i: "i < length l" for i
  proof (cases "R (seq_add base (int i))")
    case True
    then show ?thesis using R [OF i] by auto
  next
    case False
    have "seq_add base (int i) \<in> fst ` set (sw_outstanding w) \<or> i \<in> B \<or> 4 \<le> c i" using b i by (simp add: book_def)
    then show ?thesis using False w'(2) by force
  qed
  then show ?thesis using w'(1) e by (auto simp: book_def)
qed

text \<open>Handing over the next packet of the log.\<close>

lemma book_hand:
  fixes now :: int and a :: utp_addr
  assumes b: "book base l B c w" and l: "stream_log base (l @ [p])" and c: "c (length l) = 0"
  defines "x \<equiv> sw_waitForAck now p a w"
  defines "rel \<equiv> snd (snd x)"
  shows "book base (l @ [p]) B (\<lambda>i. c i + among ((l @ [p]) ! i) rel + (if fst (snd x) \<and> i = length l then 1 else 0)) (fst x)"
    and "set rel \<subseteq> set (sw_outstanding w)" and "sw_latest (fst x) = sw_latest w"
proof -
  let ?w = "fst x" and ?k = "pk_seqNr p" and ?n = "length l"
  let ?v = "\<lparr>pi_packet = p, pi_resendTimes = 0, pi_ackCount = 0, pi_sentTime = now, pi_remoteAddr = a\<rparr>"
  let ?c = "\<lambda>i. c i + among ((l @ [p]) ! i) rel + (if fst (snd x) \<and> i = ?n then 1 else 0)"
  have ok: "sw_ok w" using b by (simp add: book_def)
  note l0 = log_snoc(1) [OF l] and k = log_snoc(2) [OF l]
  have len: "Suc ?n < 65536" using l by (simp add: stream_log_def)
  have fresh: "?k \<notin> fst ` set (sw_outstanding w)"
  proof
    assume "?k \<in> fst ` set (sw_outstanding w)"
    then obtain info where "(?k, info) \<in> set (sw_outstanding w)" by auto
    then obtain i where "i < ?n" "?k = seq_add base (int i)" by (rule book_entry [OF b])
    then show False using k same_place(1) [of i ?n base] len by simp
  qed
  have out: "sw_outstanding ?w = sw_outstanding w @ [(?k, ?v)]" and ok': "sw_ok ?w"
    unfolding x_def by (rule sw_waitForAck_outstanding [OF ok fresh])+
  have fifo: "bm_waiting (sw_packetMap w) @ (if fst (snd x) then [] else [(?k, ?v)]) = rel @ bm_waiting (sw_packetMap ?w)"
    and none: "\<not> fst (snd x) \<Longrightarrow> rel = []"
    using bm_set_fifo [of "sw_packetMap w" ?k ?v]
    by (simp_all add: x_def rel_def sw_waitForAck_def split_beta bm_set_split split: if_splits)
  show "sw_latest ?w = sw_latest w" by (simp add: x_def sw_waitForAck_def split_beta)
  have relw: "\<exists>ws. bm_waiting (sw_packetMap w) = rel @ ws" using fifo none by (cases "fst (snd x)") auto
  then show rel: "set rel \<subseteq> set (sw_outstanding w)" using released_keys(1) [OF ok] by blast
  have nk: "?k \<notin> fst ` set rel" "?k \<notin> sw_waitKeys w"
    using fresh rel by (auto simp: sw_waitKeys_def bm_waitKeys_def sw_outstanding_def bm_all_def)
  have wk: "sw_waitKeys w \<union> (if fst (snd x) then {} else {?k}) = fst ` set rel \<union> sw_waitKeys ?w"
  proof -
    have "fst ` set (bm_waiting (sw_packetMap w) @ (if fst (snd x) then [] else [(?k, ?v)]))
        = fst ` set (rel @ bm_waiting (sw_packetMap ?w))" unfolding fifo ..
    then show ?thesis by (auto simp: sw_waitKeys_def bm_waitKeys_def split: if_splits)
  qed
  have wk1: "sw_waitKeys w \<subseteq> fst ` set rel \<union> sw_waitKeys ?w" using wk by blast
  have wk2: "sw_waitKeys ?w \<subseteq> insert ?k (sw_waitKeys w)" using wk by (cases "fst (snd x)") auto
  have wk3: "?k \<in> sw_waitKeys ?w \<longleftrightarrow> \<not> fst (snd x)" using wk nk by (cases "fst (snd x)") auto
  have dis: "fst ` set rel \<inter> sw_waitKeys ?w = {}"
  proof (cases "fst (snd x)")
    case True
    then show ?thesis using released_keys(3) [OF ok] fifo by (simp add: sw_waitKeys_def bm_waitKeys_def)
  qed (use none in simp)
  have old: "entry_ok base (l @ [p]) ?c (sw_waitKeys ?w) k' info" if m: "(k', info) \<in> set (sw_outstanding w)" for k' info
  proof -
    have "k' \<noteq> ?k" using fresh m by force
    then have "entry_ok base l (\<lambda>i. c i + among (l ! i) rel) (sw_waitKeys ?w) k' info"
      by (intro entry_release [OF b l0 m rel wk1]) (use wk2 dis in auto)
    then obtain i where "i < ?n" "k' = seq_add base (int i)" "pi_packet info = l ! i"
      "if k' \<in> sw_waitKeys ?w then pi_resendTimes info = 0 \<and> c i + among (l ! i) rel = 0
       else pi_resendTimes info < c i + among (l ! i) rel"
      unfolding entry_ok_def by blast
    then show ?thesis unfolding entry_ok_def by (intro exI [of _ i]) (simp add: nth_append)
  qed
  have "pi_packet info \<noteq> p" if r: "(k', info) \<in> set rel" for k' info
  proof -
    obtain j where j: "j < ?n" "pi_packet info = l ! j" by (rule book_entry [OF b subsetD [OF rel r]])
    have "(l @ [p]) ! j \<noteq> (l @ [p]) ! ?n" using log_inj [OF l, of j ?n] j(1) by simp
    then show ?thesis using j by (simp add: nth_append)
  qed
  then have "among p rel = 0" by (auto simp: among_zero)
  then have new: "entry_ok base (l @ [p]) ?c (sw_waitKeys ?w) ?k ?v"
    unfolding entry_ok_def using c k wk3 by (intro exI [of _ ?n]) simp
  have "seq_add base (int i) \<in> fst ` set (sw_outstanding ?w) \<or> i \<in> B \<or> 4 \<le> ?c i" if "i < length (l @ [p])" for i
  proof (cases "i < ?n")
    case True
    then have "seq_add base (int i) \<in> fst ` set (sw_outstanding w) \<or> i \<in> B \<or> 4 \<le> c i" using b by (simp add: book_def)
    then show ?thesis by (auto simp: out)
  next
    case False
    then have "i = ?n" using that by simp
    then show ?thesis using k by (simp add: out)
  qed
  then show "book base (l @ [p]) B ?c ?w" using ok' old new by (auto simp: book_def out)
qed

text \<open>Sending an entry again.\<close>

lemma book_resend:
  assumes b: "book base l B c w" and l: "stream_log base l"
    and send: "bm_get (sw_packetMap w) k = Some info" "of_int (now - pi_sentTime info) > rt_rto (sw_rtt w)"
      "pi_resendTimes info < RESEND_TIMES_LIMIT"
  shows "book base l B (\<lambda>i. c i + (if l ! i = pi_packet info then 1 else 0)) (fst (sw_resendOne now k w))"
proof -
  let ?w = "fst (sw_resendOne now k w)" and ?info = "info\<lparr>pi_resendTimes := pi_resendTimes info + 1, pi_sentTime := now\<rparr>"
  let ?c = "\<lambda>i. c i + (if l ! i = pi_packet info then 1 else 0)"
  have ok: "sw_ok w" using b by (simp add: book_def)
  have out: "sw_outstanding ?w = jm_set k ?info (sw_outstanding w)" by (rule sw_resendOne_update(2) [OF send])
  have wait: "sw_waitKeys ?w = sw_waitKeys w"
    using send by (simp add: sw_resendOne_def Let_def sw_waitKeys_def bm_waitKeys_def)
  have kw: "k \<notin> sw_waitKeys w" using in_map_not_waiting [OF _ send(1)] ok by (simp add: sw_ok_def sw_waitKeys_def)
  have m: "(k, info) \<in> set (sw_outstanding w)" by (rule sw_get_outstanding [OF ok send(1)])
  obtain i0 where i0: "i0 < length l" "k = seq_add base (int i0)" "pi_packet info = l ! i0" "pi_resendTimes info < c i0"
    by (rule book_entry [OF b m]) (use kw in simp)
  have e: "entry_ok base l ?c (sw_waitKeys w) k' info'" if "(k', info') \<in> set (sw_outstanding ?w)" for k' info'
  proof (cases "(k', info') = (k, ?info)")
    case True
    then show ?thesis using i0 kw by (auto simp: entry_ok_def)
  next
    case False
    have "(k', info') \<in> insert (k, ?info) (set (sw_outstanding w))"
      using that set_update_subset_aux [of k ?info "sw_outstanding w"] unfolding out jm_set_def by blast
    then have m': "(k', info') \<in> set (sw_outstanding w)" using False by blast
    have "k' \<noteq> k"
    proof
      assume "k' = k"
      moreover have "distinct (map fst (jm_set k ?info (sw_outstanding w)))"
        using sw_ok_distinct [OF sw_resendOne_send_ok [OF ok send]] unfolding out .
      moreover have "(k, ?info) \<in> set (jm_set k ?info (sw_outstanding w))"
        by (rule map_of_SomeD) (simp add: jm_set_def update_conv')
      ultimately show False using that False eq_key_imp_eq_value unfolding out by fast
    qed
    then have kk: "k' \<noteq> seq_add base (int i0)" using i0(2) by simp
    show ?thesis
    proof (rule book_entry [OF b m'])
      fix i assume i: "i < length l" "k' = seq_add base (int i)" "pi_packet info' = l ! i"
        "if k' \<in> sw_waitKeys w then pi_resendTimes info' = 0 \<and> c i = 0 else pi_resendTimes info' < c i"
      have "l ! i \<noteq> l ! i0" using kk i(2) log_inj [OF l i(1) i0(1)] by auto
      then show ?thesis using i i0(3) unfolding entry_ok_def by (intro exI [of _ i]) simp
    qed
  qed
  have "fst ` set (sw_outstanding ?w) = insert k (fst ` set (sw_outstanding w))"
  proof -
    have "k \<in> set (jm_keys (sw_outstanding w))" using m by (force simp: jm_keys_def)
    then have "map fst (jm_set k ?info (sw_outstanding w)) = map fst (sw_outstanding w)"
      using jm_keys_set [of k ?info "sw_outstanding w"] by (simp add: jm_keys_def)
    then have "fst ` set (jm_set k ?info (sw_outstanding w)) = fst ` set (sw_outstanding w)"
      by (metis list.set_map)
    moreover have "k \<in> fst ` set (sw_outstanding w)" using m by force
    ultimately show ?thesis unfolding out by blast
  qed
  then have "seq_add base (int i) \<in> fst ` set (sw_outstanding ?w) \<or> i \<in> B \<or> 4 \<le> ?c i" if "i < length l" for i
    using b that by (auto simp: book_def)
  then show ?thesis using e sw_resendOne_send_ok [OF ok send] unfolding book_def wait by auto
qed

text \<open>An acknowledgement that claims only places of \<open>B\<close> covers nothing else.\<close>

definition latest_ok :: "int \<Rightarrow> nat set \<Rightarrow> int option \<Rightarrow> bool" where
  "latest_ok base B lt \<longleftrightarrow> (case lt of None \<Rightarrow> True | Some a \<Rightarrow> \<exists>m. a = seq_add base (int m - 1) \<and> {..<m} \<subseteq> B)"

lemma seq_ge_places: "seq_ge (seq_add base x) (seq_add base y) \<longleftrightarrow> (x - y) mod 65536 < 32768"
proof -
  have "seq_diff (seq_add base x) (seq_add base y) = (x - y) mod 65536"
    by (simp add: seq_simps mod_diff_eq)
  then show ?thesis by (simp add: seq_ge_diff)
qed

lemma covered_arrived:
  assumes "ack_honest base B q" "latest_ok base B (sw_latest w)" "B \<subseteq> {..<N}" "N < 32768" "i < N"
    and "sw_acked q w (seq_add base (int i))"
  shows "i \<in> B"
proof (cases "seq_add base (int i) \<in> set (sw_ackedBySack q)")
  case True
  then obtain j where "j \<in> B" "seq_add base (int i) = seq_add base (int j)" using assms(1) by (auto simp: ack_honest_def)
  then show ?thesis using same_place(1) [of i j base] assms(3-5) by auto
next
  case False
  then obtain a where a: "sw_latest (sw_noteAck q w) = Some a" "seq_ge a (seq_add base (int i))"
    using assms(6) by (auto simp: sw_acked_def sw_isPacketAcked_def split: option.splits)
  have "a = pk_ackNr q \<or> sw_latest w = Some a"
    using a(1) by (auto simp: sw_noteAck_def Let_def split: option.splits if_splits)
  then obtain m where m: "a = seq_add base (int m - 1)" "{..<m} \<subseteq> B"
    using assms(1,2) by (auto simp: ack_honest_def latest_ok_def)
  have "m \<le> N"
  proof (rule ccontr)
    assume "\<not> m \<le> N"
    then have "N \<in> B" using m(2) by auto
    then show False using assms(3) by auto
  qed
  have "i < m"
  proof (rule ccontr)
    assume "\<not> i < m"
    have "(int m - 1 - int i) mod 65536 = (int m - 1 - int i + 65536) mod 65536"
      by (rule mod_add_self2 [symmetric])
    also have "\<dots> = int m - 1 - int i + 65536"
      by (rule mod_pos_pos_trivial) (use \<open>\<not> i < m\<close> assms(4,5) in linarith)+
    finally have "(int m - 1 - int i) mod 65536 = int m - 1 - int i + 65536" .
    then show False using a(2) \<open>\<not> i < m\<close> assms(4,5) unfolding m(1) seq_ge_places by simp
  qed
  then show ?thesis using m(2) by auto
qed

end
