(* ===== verification/Writers.thy ===== *)
theory Writers imports EndToEnd begin

text \<open>
  Calls of \<open>write\<close> that overlap. A call gives up control at each of its chunks, when it awaits
  \<open>sendUtpPacket\<close>; meanwhile another call may number and send a chunk of its own. \<open>conn_writeChunk\<close> is
  one turn of the loop of \<open>write\<close> up to that point.
\<close>

definition conn_writeChunk :: "env \<Rightarrow> byte list \<Rightarrow> (packet \<times> nat option) conn_eff" where
  "conn_writeChunk env data =
     (let chunk = take (nat chunkSize) data in
      eff_read (createDataPacket env chunk) (\<lambda>(dataPacket, s1).
      eff_then (eff_modify (\<lambda>_. s1))
      (eff_bind (conn_sendUtpPacket env dataPacket) (\<lambda>n. eff_return (dataPacket, n)))))"

text \<open>\<open>write\<close> is its turns one after the other.\<close>

lemma write_turns:
  assumes "data \<noteq> []"
  shows "conn_write env data s =
    eff_bind (conn_writeChunk env data) (\<lambda>(p, n). case n of
        None \<Rightarrow> eff_return (Some (p, drop (length (take (nat chunkSize) data)) data))
      | Some n \<Rightarrow>
          if n \<noteq> packet_length p then eff_throw AssertionError
          else
            eff_then (eff_modify (\<lambda>s. s\<lparr>cn_statistic := stat_updateSentData (length (take (nat chunkSize) data)) (cn_statistic s)\<rparr>))
              (conn_write env (drop (length (take (nat chunkSize) data)) data))) s"
proof -
  obtain p s1 where c: "createDataPacket env (take (nat chunkSize) data) s = (p, s1)" by fastforce
  have turn: "conn_writeChunk env data s = eff_then (eff_modify (\<lambda>_. s1))
      (eff_bind (conn_sendUtpPacket env p) (\<lambda>n. eff_return (p, n))) s"
    by (simp add: conn_writeChunk_def Let_def c)
  have bind: "eff_bind (conn_writeChunk env data) g s = eff_bind (eff_then (eff_modify (\<lambda>_. s1))
      (eff_bind (conn_sendUtpPacket env p) (\<lambda>n. eff_return (p, n)))) g s" for g :: "packet \<times> nat option \<Rightarrow> 'b conn_eff"
    using turn by (simp add: eff_bind_def)
  have ret: "eff_bind (eff_return x) f = f x" for x and f :: "packet \<times> nat option \<Rightarrow> 'b conn_eff"
    by (rule ext) (rule bind_laws)
  have assoc: "eff_bind (eff_bind m f) g = eff_bind m (\<lambda>x. eff_bind (f x) g)"
    for m :: "'c conn_eff" and f :: "'c \<Rightarrow> (packet \<times> nat option) conn_eff" and g :: "packet \<times> nat option \<Rightarrow> 'b conn_eff"
    by (rule ext) (rule bind_laws)
  show ?thesis
    unfolding bind bind_laws(3) assoc ret prod.case
    using assms by (subst conn_write.simps) (simp add: Let_def c del: length_take)
qed

text \<open>
  \<open>writers_run s es l W D t\<close>: from \<open>s\<close> several calls of \<open>write\<close>, named by numbers, have taken turns in any
  order, between other calls; \<open>l\<close> lists the packets made with the call each is of, \<open>D w\<close> is what the
  call \<open>w\<close> was given and \<open>W w\<close> what it still has to send. (That a call goes on only when its packet
  was sent is not required here.)
\<close>

inductive writers_run ::
  "conn \<Rightarrow> conn_ev list \<Rightarrow> (nat \<times> packet) list \<Rightarrow> (nat \<Rightarrow> byte list option) \<Rightarrow> (nat \<Rightarrow> byte list) \<Rightarrow> conn \<Rightarrow> bool" for s where
  wr_none: "writers_run s [] [] Map.empty (\<lambda>_. []) s"
| wr_begin: "writers_run s es l W D t \<Longrightarrow> W w = None \<Longrightarrow> writers_run s es l (W(w \<mapsto> data)) (D(w := data)) t"
| wr_turn: "writers_run s es l W D t \<Longrightarrow> W w = Some data \<Longrightarrow> data \<noteq> [] \<Longrightarrow> x = conn_writeChunk env data t
    \<Longrightarrow> p = fst (createDataPacket env (take (nat chunkSize) data) t)
    \<Longrightarrow> writers_run s (es @ events x) (l @ [(w, p)]) (W(w \<mapsto> drop (nat chunkSize) data)) D (final x)"
| wr_call: "writers_run s es l W D t \<Longrightarrow> background c \<Longrightarrow> x = conn_do env c t
    \<Longrightarrow> writers_run s (es @ events x) l W D (final x)"

text \<open>What the call \<open>w\<close> has sent.\<close>

definition bytes_of :: "nat \<Rightarrow> (nat \<times> packet) list \<Rightarrow> byte list" where
  "bytes_of w l = log_bytes (map snd (filter (\<lambda>e. fst e = w) l))"

lemma bytes_of_simps: "bytes_of w [] = []" "bytes_of w (l @ [(v, p)]) = bytes_of w l @ (if v = w then payload p else [])"
  by (simp_all add: bytes_of_def log_bytes_def)

lemma turn_log:
  assumes "u16 (cn_seqNr t)" "data \<noteq> []" "x = conn_writeChunk env data t"
    and "p = fst (createDataPacket env (take (nat chunkSize) data) t)"
  shows "tx_log t (events x) [p] (final x)" "payload p = take (nat chunkSize) data" "cn_state (final x) = cn_state t"
proof -
  have d: "take (nat chunkSize) data \<noteq> []" "int (length (take (nat chunkSize) data)) \<le> chunkSize"
    using assms(2) by (auto simp: chunkSize_eq)
  obtain s1 where c: "createDataPacket env (take (nat chunkSize) data) t = (p, s1)"
    using assms(4) by (cases "createDataPacket env (take (nat chunkSize) data) t") simp
  have e: "events x = events (conn_sendUtpPacket env p s1)" "final x = final (conn_sendUtpPacket env p s1)"
    by (simp_all add: assms(3) conn_writeChunk_def Let_def c eff_parts split: sum.split)
  note parts = createData_parts [OF assms(1) d, of env, unfolded c fst_conv snd_conv]
  show "tx_log t (events x) [p] (final x)" unfolding e by (rule tx_log_one [OF assms(1) d c])
  show "payload p = take (nat chunkSize) data" by (rule parts(3))
  show "cn_state (final x) = cn_state t"
    using still_state [OF obeys_sendUtpPacket [of p env], of s1] parts(8) by (simp add: e(2))
qed

lemma writers_log:
  assumes "writers_run s es l W D t" "cn_state s = CS_CONNECTED" "u16 (cn_seqNr s)"
  shows "tx_log s es (map snd l) t \<and> cn_state t = CS_CONNECTED
    \<and> (\<forall>w. (W w = None \<longrightarrow> D w = []) \<and> bytes_of w l @ (case W w of None \<Rightarrow> [] | Some rest \<Rightarrow> rest) = D w)"
  using assms(1)
proof induction
  case wr_none
  then show ?case using assms by (simp add: tx_log_def bytes_of_simps)
next
  case (wr_begin es l W D t w data)
  then have "bytes_of w l = []" by (metis append_is_Nil_conv)
  then show ?case using wr_begin by (auto split: if_splits)
next
  case (wr_turn es l W D t w data x env p)
  then have u: "u16 (cn_seqNr t)" by (blast intro: tx_log_u16)
  note turn = turn_log [OF u wr_turn.hyps(3-5)]
  have "bytes_of v (l @ [(w, p)]) @ (case (W(w \<mapsto> drop (nat chunkSize) data)) v of None \<Rightarrow> [] | Some rest \<Rightarrow> rest) = D v" for v
    using spec [OF conjunct2 [OF conjunct2 [OF wr_turn.IH]], of v] wr_turn.hyps(2) turn(2)
    by (cases "v = w") (simp_all add: bytes_of_simps)
  then show ?case using tx_log_trans [OF conjunct1 [OF wr_turn.IH] turn(1)] turn(3) wr_turn.IH by simp
next
  case (wr_call es l W D t c x env)
  have "still {} t (events x) (final x)"
    using background_still [of t c env] wr_call by (simp add: obeys_at_def)
  then have "cn_state (final x) = CS_CONNECTED" "tx_log t (events x) [] (final x)"
    using wr_call.IH tx_log_still tx_log_u16 [of s es "map snd l" t] by (simp_all add: still_def tx_log_still)
  then show ?case using tx_log_trans [OF conjunct1 [OF wr_call.IH]] wr_call.IH by fastforce
qed

text \<open>
  C12. Overlapping writes. Whatever the order in which the calls of \<open>write\<close> on a connection take their
  turns, the packets they make form one list, numbered consecutively, in which the bytes of each call
  stand in their order; and what the peer reads, over any behaviour of the network, is a prefix of the
  bytes of that list. So nothing is lost or swapped within a call, but the bytes of different calls are
  mixed chunk by chunk: nothing keeps one call from sending between two chunks of another.
\<close>

theorem concurrent_writes:
  assumes "writers_run s es l W D t" "cn_state s = CS_CONNECTED" "u16 (cn_seqNr s)"
    and "sw_outstanding (cn_sendWindow s) = []" "length l < 49152"
    and "rx_fresh (cn_seqNr s) r" "net_run (datagrams es) r evs r'"
  shows "(\<forall>w. bytes_of w l @ (case W w of None \<Rightarrow> [] | Some rest \<Rightarrow> rest) = D w)
    \<and> (\<forall>i < length l. pk_seqNr (snd (l ! i)) = seq_add (cn_seqNr s) (int i))
    \<and> (\<exists>rest. read_bytes evs @ bb_buffer (cn_recvBuffer r') @ rest = log_bytes (map snd l))"
proof -
  have l: "tx_log s es (map snd l) t" "\<forall>w. bytes_of w l @ (case W w of None \<Rightarrow> [] | Some rest \<Rightarrow> rest) = D w"
    using writers_log [OF assms(1-3)] by blast+
  have nr: "pk_seqNr (map snd l ! i) = seq_add (cn_seqNr s) (int i)" if "i < length (map snd l)" for i
    using l(1) that unfolding tx_log_def by blast
  have ok: "pk_type p = ST_DATA \<and> packet_encodable p" if "p \<in> set (map snd l)" for p
    using l(1) that unfolding tx_log_def data_of_def packet_encodable_def first_ext_type_def by fastforce
  have "numbered_sends es \<subseteq> set (map snd l)" using l(1) assms(4) by (simp add: tx_log_def sw_packets_def)
  moreover have "datagrams es \<subseteq> packet_toBytes ` numbered_sends es"
    by (auto simp: datagrams_def numbered_sends_def numbered_def)
  ultimately have "datagrams es \<subseteq> packet_toBytes ` set (map snd l)" by blast
  then obtain n where "rx_stream evs r' = bb_buffer (cn_recvBuffer r) @ log_bytes (take n (map snd l))"
    using net_stream [OF assms(7) _ nr ok _ rx_fresh_at [OF assms(6)]] assms(5) by (auto simp: log_bytes_def)
  moreover have "log_bytes (take n (map snd l)) @ log_bytes (drop n (map snd l)) = log_bytes (map snd l)"
    by (simp add: log_bytes_def flip: concat_append map_append)
  ultimately have "read_bytes evs @ bb_buffer (cn_recvBuffer r') @ log_bytes (drop n (map snd l)) = log_bytes (map snd l)"
    using assms(6) by (simp add: rx_stream_def rx_fresh_def flip: append.assoc)
  then show ?thesis using l(2) nr by auto
qed

text \<open>Two calls: the second sends its byte between the two chunks of the first.\<close>

definition long_data :: "byte list" where
  "long_data = replicate 1381 1"

lemma sample_turns:
  "\<exists>es l W t. writers_run sample_conn es l W ((\<lambda>_. [])(1 := long_data, 2 := [2])) t
     \<and> map fst l = [1, 2, 1] \<and> log_bytes (map snd l) = replicate 1380 1 @ [2, 1]"
proof -
  define x where "x = conn_writeChunk sample_env long_data sample_conn"
  define y where "y = conn_writeChunk sample_env [2] (final x)"
  define z where "z = conn_writeChunk sample_env [1] (final y)"
  define p where "p = fst (createDataPacket sample_env (take (nat chunkSize) long_data) sample_conn)"
  define q where "q = fst (createDataPacket sample_env (take (nat chunkSize) [2]) (final x))"
  define r where "r = fst (createDataPacket sample_env (take (nat chunkSize) [1]) (final y))"
  have d: "long_data \<noteq> []" "take (nat chunkSize) long_data = replicate 1380 1" "drop (nat chunkSize) long_data = [1]"
    by (simp_all add: long_data_def chunkSize_eq)
  note 1 = turn_log [OF _ d(1) x_def p_def]
  have u1: "u16 (cn_seqNr (final x))" by (rule tx_log_u16 [OF 1(1)]) (simp add: u16_def)
  note 2 = turn_log [OF u1 _ y_def q_def]
  have u2: "u16 (cn_seqNr (final y))" by (rule tx_log_u16 [OF 2(1)]) simp
  note 3 = turn_log [OF u2 _ z_def r_def]
  let ?D = "(\<lambda>_. [])(1 := long_data, 2 := [2])"
  have w: "writers_run sample_conn [] [] [1 \<mapsto> long_data] ((\<lambda>_. [])(1 := long_data)) sample_conn"
    by (rule wr_begin [OF wr_none]) simp
  have w: "writers_run sample_conn [] [] [1 \<mapsto> long_data, 2 \<mapsto> [2]] ?D sample_conn"
    by (rule wr_begin [OF w]) simp
  have w: "writers_run sample_conn ([] @ events x) ([] @ [(1, p)]) ([1 \<mapsto> long_data, 2 \<mapsto> [2]](1 \<mapsto> drop (nat chunkSize) long_data)) ?D (final x)"
    by (rule wr_turn [OF w _ d(1) x_def p_def]) simp
  have w: "writers_run sample_conn ([] @ events x) [(1, p)] [2 \<mapsto> [2], 1 \<mapsto> [1]] ?D (final x)"
    using w by (simp add: d(3) fun_upd_twist)
  have w: "writers_run sample_conn (([] @ events x) @ events y) ([(1, p)] @ [(2, q)]) ([2 \<mapsto> [2], 1 \<mapsto> [1]](2 \<mapsto> drop (nat chunkSize) [2])) ?D (final y)"
    by (rule wr_turn [OF w _ _ y_def q_def]) simp_all
  have w: "writers_run sample_conn ((([] @ events x) @ events y) @ events z) (([(1, p)] @ [(2, q)]) @ [(1, r)])
      ([2 \<mapsto> [2], 1 \<mapsto> [1]](2 \<mapsto> drop (nat chunkSize) [2], 1 \<mapsto> drop (nat chunkSize) [1])) ?D (final z)"
    by (rule wr_turn [OF w _ _ z_def r_def]) simp_all
  have "log_bytes [p, q, r] = replicate 1380 1 @ [2, 1]"
    using 1(2) 2(2) 3(2) d(2) by (simp add: log_bytes_def u16_def chunkSize_eq)
  then show ?thesis by - (intro exI conjI, rule w, simp_all)
qed

theorem concurrent_writes_witness:
  "\<exists>es l W t. writers_run sample_conn es l W ((\<lambda>_. [])(1 := long_data, 2 := [2])) t
     \<and> log_bytes (map snd l) = replicate 1380 1 @ [2, 1] \<and> bytes_of 2 l @ (case W 2 of None \<Rightarrow> [] | Some rest \<Rightarrow> rest) = [2]"
proof -
  obtain es l W t where w: "writers_run sample_conn es l W ((\<lambda>_. [])(1 := long_data, 2 := [2])) t"
    "map fst l = [1, 2, 1]" "log_bytes (map snd l) = replicate 1380 1 @ [2, 1]"
    using sample_turns by (elim exE conjE) (rule that)
  have "length l = 3" using arg_cong [OF w(2), of length] by simp
  moreover have "rx_fresh (cn_seqNr sample_conn) sample_peer"
    by (simp add: rx_fresh_def sample_peer_def bb_new_def seq_simps)
  moreover have "sw_outstanding (cn_sendWindow sample_conn) = []" "u16 (cn_seqNr sample_conn)"
    by (simp_all add: sw_new_def sw_outstanding_def bm_all_def bm_new_def u16_def)
  ultimately show ?thesis
    using concurrent_writes [OF w(1) _ _ _ _ _ net_start [of _ sample_peer]] w(1,3) by fastforce
qed

end
