(* ===== verification/Ledger.thy ===== *)
theory Ledger imports WindowBooks Writers begin

text \<open>
  The books of a sender at work with its peer: every packet it numbered is in its send window, or has
  arrived at the peer, or was sent four times, over any run of the two and the network between them.
\<close>

subsection \<open>The books of a connection\<close>

definition copies :: "packet \<Rightarrow> conn_ev list \<Rightarrow> nat" where
  "copies p es = length (filter (\<lambda>e. case e of EvSend q a \<Rightarrow> q = p | _ \<Rightarrow> False) es)"

lemma copies_simps [simp]:
  "copies p [] = 0" "copies p (xs @ ys) = copies p xs + copies p ys"
  "copies p (EvSend q a # es) = (if q = p then 1 else 0) + copies p es"
  by (simp_all add: copies_def)

lemma copies_resumed [simp]: "copies p (resumed s rel) = among p rel"
  by (induction rel) (auto simp: resumed_def copies_def among_def)

lemma copies_pos: "0 < copies p es \<longleftrightarrow> (\<exists>a. EvSend p a \<in> set es)"
  by (induction es) (auto simp: copies_def split: conn_ev.splits)

definition ledger :: "int \<Rightarrow> packet list \<Rightarrow> nat set \<Rightarrow> conn_ev list \<Rightarrow> conn \<Rightarrow> bool" where
  "ledger base l B es s \<longleftrightarrow> cn_state s = CS_CONNECTED \<and> cn_seqNr s = seq_add base (int (length l))
     \<and> book base l B (\<lambda>i. copies (l ! i) es) (cn_sendWindow s)
     \<and> (\<forall>p a. EvSend p a \<in> set es \<and> pk_type p = ST_DATA \<longrightarrow> p \<in> set l)
     \<and> (\<forall>i \<in> B. i < length l \<and> 0 < copies (l ! i) es) \<and> latest_ok base B (sw_latest (cn_sendWindow s))"

text \<open>What sends no data and leaves the window and the numbers alone keeps the books.\<close>

lemma ledger_quiet:
  assumes b: "ledger base l B es s" and l: "stream_log base l"
    and t: "cn_state t = cn_state s" "cn_seqNr t = cn_seqNr s" "cn_sendWindow t = cn_sendWindow s"
    and fs: "\<And>p a. EvSend p a \<in> set fs \<Longrightarrow> pk_type p \<noteq> ST_DATA"
  shows "ledger base l B (es @ fs) t"
proof -
  have z: "copies (l ! i) fs = 0" if "i < length l" for i
  proof -
    have "pk_type (l ! i) = ST_DATA" using l that by (simp add: stream_log_def)
    then have "\<nexists>a. EvSend (l ! i) a \<in> set fs" using fs by blast
    then show ?thesis using copies_pos [of "l ! i" fs] by simp
  qed
  have "book base l B (\<lambda>i. copies (l ! i) (es @ fs)) (cn_sendWindow s)"
    using b z book_cong [of l "\<lambda>i. copies (l ! i) (es @ fs)" "\<lambda>i. copies (l ! i) es"] by (simp add: ledger_def)
  then show ?thesis using b t fs by (auto simp: ledger_def)
qed

text \<open>A change of the window together with the packets it makes the connection send.\<close>

lemma ledger_window:
  assumes b: "ledger base l B es s"
    and book: "book base l B (\<lambda>i. copies (l ! i) es + copies (l ! i) fs) w" and lt: "latest_ok base B (sw_latest w)"
    and t: "cn_state t = cn_state s" "cn_seqNr t = cn_seqNr s" "cn_sendWindow t = w"
    and fs: "\<And>p a. EvSend p a \<in> set fs \<Longrightarrow> p \<in> set l"
  shows "ledger base l B (es @ fs) t"
  using assms by (auto simp: ledger_def)

lemma released_logged:
  assumes "book base l B c w" "bm_waiting (sw_packetMap w) = rel @ ws" "EvSend p a \<in> set (resumed s rel)"
  shows "p \<in> set l"
proof -
  obtain k info where r: "(k, info) \<in> set rel" "p = pi_packet info"
    using assms(3) by (auto simp: resumed_def)
  have "(k, info) \<in> set (sw_outstanding w)" using r(1) by (simp add: sw_outstanding_def bm_all_def assms(2))
  then show ?thesis using book_entry [OF assms(1)] r(2) nth_mem by metis
qed

text \<open>An honest acknowledgement.\<close>

lemma ledger_ack:
  fixes env :: env and s :: conn
  assumes b: "ledger base l B es s" and l: "stream_log base l" and q: "ack_honest base B q"
  defines "x \<equiv> handleIncomingPacket env q s"
  shows "ledger base l B (es @ events x) (final x)"
proof -
  let ?w = "cn_sendWindow s"
  let ?r = "sw_handleAck (env_clk env) q ?w"
  have st: "cn_state s = CS_CONNECTED" and book: "book base l B (\<lambda>i. copies (l ! i) es) ?w"
    and lt: "latest_ok base B (sw_latest ?w)" and B: "B \<subseteq> {..<length l}"
    and arrived: "\<And>i. i \<in> B \<Longrightarrow> 0 < copies (l ! i) es"
    using b by (auto simp: ledger_def)
  have q': "pk_type q = ST_STATE" using q by (simp add: ack_honest_def)
  have x: "final x = s\<lparr>cn_sendWindow := fst ?r\<rparr>" "events x = resumed s (snd ?r)"
    using st q' by (simp_all add: x_def handleIncomingPacket_def conn_handleAck_def handleAtConnected_def conn_isClosed_def
        packet_types eff_parts split_beta)
  have len: "length l < 32768" using l by (simp add: stream_log_def)
  have acked: "i \<in> B" if "i < length l" "sw_acked q ?w (seq_add base (int i))" for i
    using covered_arrived [OF q lt B len that] .
  have ok: "sw_ok ?w" using book by (simp add: book_def)
  have "\<not> sw_acked q ?w k" if k: "k \<in> sw_waitKeys ?w" for k
  proof
    assume a: "sw_acked q ?w k"
    obtain info where "(k, info) \<in> set (bm_waiting (sw_packetMap ?w))" using k by (auto simp: sw_waitKeys_def bm_waitKeys_def)
    then have "(k, info) \<in> set (sw_outstanding ?w)" by (simp add: sw_outstanding_def bm_all_def)
    then obtain i where "i < length l" "k = seq_add base (int i)" "copies (l ! i) es = 0"
      using k by (auto elim: book_entry [OF book])
    then show False using acked [of i] arrived [of i] a by simp
  qed
  then have r: "sw_outstanding (fst ?r) = filter (\<lambda>e. \<not> sw_acked q ?w (fst e)) (sw_outstanding ?w)" "sw_ok (fst ?r)"
    using sw_afterLoops_outstanding [OF ok] by (simp_all add: sw_handleAck_eq Let_def)
  note rel = sw_handleAck_release [of ?w "env_clk env" q]
  have "book base l B (\<lambda>i. copies (l ! i) es + among (l ! i) (snd ?r)) (fst ?r)"
    by (rule book_release [OF book l r(2,1) rel]) (use acked in blast)
  moreover have "latest_ok base B (sw_latest (fst ?r))"
  proof -
    have "sw_latest (fst ?r) = sw_latest (sw_noteAck q ?w)"
      using sw_afterLoops_frame [of "env_clk env" q ?w] by (simp add: sw_handleAck_eq Let_def sw_apply_eq sw_frame_def)
    then show ?thesis using q lt by (auto simp: sw_noteAck_def Let_def latest_ok_def ack_honest_def split: option.splits if_splits)
  qed
  ultimately show ?thesis
    using released_logged [OF book rel] by (intro ledger_window [OF b]) (simp_all add: x)
qed

text \<open>The timer.\<close>

definition keeps_books :: "int \<Rightarrow> packet list \<Rightarrow> nat set \<Rightarrow> conn \<Rightarrow> conn_ev list \<Rightarrow> conn \<Rightarrow> bool" where
  "keeps_books base l B s fs t \<longleftrightarrow> (\<forall>es. ledger base l B es s \<longrightarrow> ledger base l B (es @ fs) t)"

interpretation books: history "keeps_books base l B" for base l B
  by unfold_locales (auto simp: keeps_books_def simp flip: append_assoc)

lemma quiet_books:
  assumes "stream_log base l" "\<And>p a. EvSend p a \<in> set fs \<Longrightarrow> pk_type p \<noteq> ST_DATA"
  shows "keeps_books base l B s fs (s\<lparr>cn_lastLiveTime := x\<rparr>)" "keeps_books base l B s fs s"
  using ledger_quiet [OF _ assms(1) _ _ _ assms(2)] unfolding keeps_books_def by simp_all

lemma send_books:
  assumes "stream_log base l" "pk_type p \<noteq> ST_DATA" shows "obeys (keeps_books base l B) (utp_send env p a)"
  unfolding utp_send_def
  using quiet_books [OF assms(1), of "[EvSend p a]"] assms(2)
  by (intro books.obeys_then books.obeys_steps) (auto intro: books.obeys_simple split: sum.split)

lemma keepAlive_books:
  assumes l: "stream_log base l" shows "obeys (keeps_books base l B) (conn_keepAlive env)"
proof -
  have a: "pk_type (createAckPacket env k t) = ST_STATE" for k t
    by (simp add: createAckPacket_def packet_blank_def split: option.split)
  have live: "keeps_books base l B s [] (s\<lparr>cn_lastLiveTime := x\<rparr>)" for s x by (rule quiet_books [OF l]) simp
  have "obeys (keeps_books base l B) (conn_sendUtpPacket env (createAckPacket env k t))" for k t
    unfolding conn_sendUtpPacket_def
    by (intro books.obeys_then books.obeys_read books.obeys_steps live)
      (auto simp: a packet_types intro!: books.obeys_intros send_books [OF l])
  then have "obeys (keeps_books base l B) (conn_sendAck env)"
    unfolding conn_sendAck_def by (intro obeysI books.at_control(2)) (rule obeys_at)
  then show ?thesis
    unfolding conn_keepAlive_def by (intro books.obeys_intros books.obeys_steps live)
qed

lemma resendOne_release:
  assumes ok: "sw_ok w" and drop: "bm_get (sw_packetMap w) k = Some info"
    "of_int (now - pi_sentTime info) > rt_rto (sw_rtt w)" "RESEND_TIMES_LIMIT \<le> pi_resendTimes info"
  shows "\<exists>rel. snd (sw_resendOne now k w) = admits rel
    \<and> bm_waiting (sw_packetMap w) = rel @ bm_waiting (sw_packetMap (fst (sw_resendOne now k w)))
    \<and> sw_latest (fst (sw_resendOne now k w)) = sw_latest w"
proof -
  let ?w0 = "w\<lparr>sw_cc := cc_onPacketLoss (sw_cc w)\<rparr>"
  let ?m = "sw_packetMap (fst (sw_applyWindowSize ?w0))"
  have r: "sw_resendOne now k w = ((fst (sw_applyWindowSize ?w0))\<lparr>sw_packetMap := fst (bm_delete k ?m)\<rparr>,
      admits (snd (sw_applyWindowSize ?w0) @ snd (bm_delete k ?m)))"
    using drop by (simp add: sw_resendOne_def split_beta)
  have "bm_waiting (sw_packetMap w) = snd (sw_applyWindowSize ?w0) @ bm_waiting ?m"
    using bm_updateCapacity_fifo [of "sw_packetMap w" "sw_windowSize ?w0"] by (simp add: sw_apply_eq)
  also have "bm_waiting ?m = snd (bm_delete k ?m) @ bm_waiting (fst (bm_delete k ?m))" by (rule bm_delete_fifo)
  finally show ?thesis by (auto simp: r sw_apply_eq)
qed

lemma admit_loop:
  assumes "\<And>k info. f (SwAdmit k info) = eff_update (\<lambda>s. (s, resumed s [(k, info)]))"
  shows "eff_forEach f (admits rel) s = (s, resumed s rel, Inr ())"
proof (induction rel)
  case (Cons e rel)
  obtain k info where "e = (k, info)" by fastforce
  then show ?case using Cons.IH by (simp add: admits_def assms eff_then_def eff_bind_def eff_update_def resumed_def)
qed (simp add: admits_def eff_return_def resumed_def)

lemma resendOne_books:
  assumes l: "stream_log base l" shows "obeys (keeps_books base l B) (conn_resendOne env k)"
proof (rule obeysI)
  fix s :: conn
  let ?w = "cn_sendWindow s" and ?r = "sw_resendOne (env_now env) k (cn_sendWindow s)"
  have "ledger base l B (es @ events (conn_resendOne env k s)) (final (conn_resendOne env k s))"
    if b: "ledger base l B es s" for es
  proof -
    have book: "book base l B (\<lambda>i. copies (l ! i) es) ?w" and lt: "latest_ok base B (sw_latest ?w)"
      using b by (auto simp: ledger_def)
    have ok: "sw_ok ?w" using book by (simp add: book_def)
    show ?thesis
    proof (cases rule: sw_resendOne_cases [of "env_now env" k ?w])
      case skip
      then show ?thesis using b by (simp add: conn_resendOne_def eff_parts)
    next
      case (send info)
      note out = sw_resendOne_update(1) [OF send]
      have x: "final (conn_resendOne env k s) = s\<lparr>cn_sendWindow := fst ?r\<rparr>"
        "events (conn_resendOne env k s) = [EvSend (pi_packet info) (pi_remoteAddr info)]"
        by (simp_all add: conn_resendOne_def split_beta out eff_parts utp_send_def split: sum.split)
      have "pi_packet info \<in> set l"
        by (rule book_entry [OF book sw_get_outstanding [OF ok send(1)]]) simp
      moreover have "book base l B (\<lambda>i. copies (l ! i) es + copies (l ! i) [EvSend (pi_packet info) (pi_remoteAddr info)]) (fst ?r)"
        using book_resend [OF book l send] by (simp add: eq_commute)
      moreover have "sw_latest (fst ?r) = sw_latest ?w" using send by (simp add: sw_resendOne_def Let_def)
      ultimately show ?thesis using lt by (intro ledger_window [OF b]) (simp_all add: x)
    next
      case (drop info)
      obtain rel where rel: "snd ?r = admits rel" "bm_waiting (sw_packetMap ?w) = rel @ bm_waiting (sw_packetMap (fst ?r))"
        "sw_latest (fst ?r) = sw_latest ?w"
        using resendOne_release [OF ok drop] by blast
      have x: "final (conn_resendOne env k s) = s\<lparr>cn_sendWindow := fst ?r\<rparr>"
        "events (conn_resendOne env k s) = resumed s rel"
        by (simp_all add: conn_resendOne_def split_beta rel(1) eff_parts admit_loop) (simp add: resumed_def)
      note d = sw_resendOne_drop [OF ok drop]
      have "4 \<le> copies (l ! i) es" if i: "i < length l" "seq_add base (int i) = k" for i
      proof (rule book_entry [OF book sw_get_outstanding [OF ok drop(1)]])
        fix j assume j: "j < length l" "k = seq_add base (int j)"
          "if k \<in> sw_waitKeys ?w then pi_resendTimes info = 0 \<and> copies (l ! j) es = 0 else pi_resendTimes info < copies (l ! j) es"
        have "i = j" using i j(1,2) same_place(1) [of i j base] l by (simp add: stream_log_def)
        moreover have "k \<notin> sw_waitKeys ?w"
          using in_map_not_waiting [OF _ drop(1)] ok by (simp add: sw_ok_def sw_waitKeys_def)
        ultimately show ?thesis using j(3) drop(3) by (simp add: RESEND_TIMES_LIMIT_def)
      qed
      then have "book base l B (\<lambda>i. copies (l ! i) es + among (l ! i) rel) (fst ?r)"
        using book_release [OF book l d(2,1) rel(2)] by blast
      then show ?thesis
        using released_logged [OF book rel(2)] rel(3) lt by (intro ledger_window [OF b]) (simp_all add: x)
    qed
  qed
  then show "obeys_at (keeps_books base l B) (conn_resendOne env k) s" by (simp add: obeys_at_def keeps_books_def)
qed

lemma ledger_tick:
  fixes env :: env and s :: conn
  assumes b: "ledger base l B es s" and l: "stream_log base l"
  defines "x \<equiv> conn_timeoutCheck env s"
  shows "ledger base l B (es @ events x) (final x)"
proof -
  have st: "cn_state s = CS_CONNECTED" using b by (simp add: ledger_def)
  have "obeys (keeps_books base l B) (eff_then (conn_keepAlive env) (conn_windowTimeoutCheck env))"
    unfolding conn_windowTimeoutCheck_def
    by (intro books.obeys_intros keepAlive_books resendOne_books l)
  from obeysD [OF this, of s] show ?thesis using b st by (simp add: x_def conn_timeoutCheck_def keeps_books_def)
qed

text \<open>A turn of a call of \<open>write\<close>.\<close>

lemma turn_parts:
  fixes env :: env and s :: conn and data :: "byte list"
  assumes "cn_state s = CS_CONNECTED"
  defines "p \<equiv> fst (createDataPacket env (take (nat chunkSize) data) s)"
  defines "r \<equiv> sw_waitForAck (env_now env) p (cn_remoteAddr s) (cn_sendWindow s)"
  defines "x \<equiv> conn_writeChunk env data s"
  shows "cn_state (final x) = CS_CONNECTED" "cn_seqNr (final x) = seq_add (cn_seqNr s) 1" "cn_sendWindow (final x) = fst r"
    "events x = resumed s (snd (snd r)) @ (if fst (snd r) then [EvSend p (cn_remoteAddr s)] else [])"
proof -
  obtain s1 where c: "createDataPacket env (take (nat chunkSize) data) s = (p, s1)" by (cases "createDataPacket env (take (nat chunkSize) data) s") (simp add: p_def)
  have s1: "s1 = s\<lparr>cn_seqNr := seq_add (cn_seqNr s) 1\<rparr>" and t: "pk_type p = ST_DATA"
    using c by (auto simp: createDataPacket_def set_localSeqNr_def packet_blank_def seq_add_def)
  have "x = eff_bind (conn_sendUtpPacket env p) (\<lambda>n. eff_return (p, n)) s1"
    by (simp add: x_def conn_writeChunk_def Let_def c eff_then_def eff_bind_def eff_modify_def split: sum.split)
  moreover have "resumed (s\<lparr>cn_seqNr := n, cn_lastLiveTime := v, cn_sendWindow := w\<rparr>) rel = resumed s rel"
    "resumed (s\<lparr>cn_seqNr := n, cn_lastLiveTime := v\<rparr>) rel = resumed s rel" for n v w rel
    by (simp_all add: resumed_def)
  ultimately show "cn_state (final x) = CS_CONNECTED" "cn_seqNr (final x) = seq_add (cn_seqNr s) 1" "cn_sendWindow (final x) = fst r"
    "events x = resumed s (snd (snd r)) @ (if fst (snd r) then [EvSend p (cn_remoteAddr s)] else [])"
    using assms(1) t
    by (auto simp: conn_sendUtpPacket_def conn_waitForAck_def conn_isClosed_def utp_send_def eff_parts split_beta s1 r_def
        split: sum.splits)
qed

lemma ledger_turn:
  fixes env :: env and s :: conn and data :: "byte list"
  assumes b: "ledger base l B es s"
  defines "p \<equiv> fst (createDataPacket env (take (nat chunkSize) data) s)" and "x \<equiv> conn_writeChunk env data s"
  assumes l: "stream_log base (l @ [p])"
  shows "ledger base (l @ [p]) B (es @ events x) (final x)"
proof -
  let ?w = "cn_sendWindow s"
  define r where "r = sw_waitForAck (env_now env) p (cn_remoteAddr s) ?w"
  define fs where "fs = resumed s (snd (snd r)) @ (if fst (snd r) then [EvSend p (cn_remoteAddr s)] else [])"
  have book: "book base l B (\<lambda>i. copies (l ! i) es) ?w" and lt: "latest_ok base B (sw_latest ?w)"
    and st: "cn_state s = CS_CONNECTED" and seq: "cn_seqNr s = seq_add base (int (length l))"
    and logged: "\<And>q a. EvSend q a \<in> set es \<Longrightarrow> pk_type q = ST_DATA \<Longrightarrow> q \<in> set l"
    and arrived: "\<And>i. i \<in> B \<Longrightarrow> i < length l \<and> 0 < copies (l ! i) es"
    using b by (auto simp: ledger_def)
  note x = turn_parts [OF st, of env data, folded p_def r_def x_def, folded fs_def]
  have new: "(l @ [p]) ! length l = p" "p \<notin> set l"
  proof -
    show "p \<notin> set l"
    proof
      assume "p \<in> set l"
      then obtain i where "i < length l" "l ! i = p" by (auto simp: in_set_conv_nth)
      then show False using log_inj [OF l, of i "length l"] by (simp add: nth_append)
    qed
  qed simp
  have "pk_type p = ST_DATA" using l by (auto simp: stream_log_def dest: spec [of _ "length l"])
  then have "copies p es = 0" using logged new(2) copies_pos [of p es] by auto
  then have "book base l B (\<lambda>i. copies ((l @ [p]) ! i) es) ?w" "copies ((l @ [p]) ! length l) es = 0"
    using book book_cong [of l "\<lambda>i. copies (l ! i) es" "\<lambda>i. copies ((l @ [p]) ! i) es"] by (simp_all add: nth_append)
  note hand = book_hand [OF this(1) l this(2), of "env_now env" "cn_remoteAddr s", folded r_def]
  have c: "copies ((l @ [p]) ! i) fs = among ((l @ [p]) ! i) (snd (snd r)) + (if fst (snd r) \<and> i = length l then 1 else 0)"
    if "i < length (l @ [p])" for i
    using log_inj [OF l that, of "length l"] by (auto simp: fs_def)
  have "book base (l @ [p]) B (\<lambda>i. copies ((l @ [p]) ! i) (es @ fs)) (fst r)"
    using hand(1) c book_cong [of "l @ [p]" "\<lambda>i. copies ((l @ [p]) ! i) es + among ((l @ [p]) ! i) (snd (snd r))
        + (if fst (snd r) \<and> i = length l then 1 else 0)" "\<lambda>i. copies ((l @ [p]) ! i) (es @ fs)"] by simp
  moreover have "q \<in> set (l @ [p])" if "EvSend q a \<in> set fs" for q a
  proof -
    have "EvSend q a \<in> set (resumed s (snd (snd r))) \<or> q = p" using that by (auto simp: fs_def split: if_splits)
    moreover have "q \<in> set l" if q: "EvSend q a \<in> set (resumed s (snd (snd r)))"
    proof -
      obtain k info where "(k, info) \<in> set (snd (snd r))" "q = pi_packet info" using q by (auto simp: resumed_def)
      then show ?thesis using book_entry [OF book, of k info] hand(2) nth_mem by (metis subsetD)
    qed
    ultimately show ?thesis by auto
  qed
  moreover have "i < length (l @ [p]) \<and> 0 < copies ((l @ [p]) ! i) (es @ fs)" if "i \<in> B" for i
    using arrived [OF that] by (simp add: nth_append)
  moreover have "cn_seqNr (final x) = seq_add base (int (length (l @ [p])))" using seq x(2) by (simp add: seq_add_add add.commute)
  ultimately show ?thesis using x lt hand(3) logged unfolding ledger_def fs_def [symmetric]
    by (auto simp: fs_def [symmetric])
qed

subsection \<open>Two connections and the network in both directions\<close>

text \<open>
  \<open>link_run s0 r0 l B es s evs r\<close>: calls of \<open>write\<close> took turns on the sender, its timer fired, its
  datagrams reached the receiver and the acknowledgements of the receiver reached the sender, each any
  number of times, late or never, and the receiver's application read. \<open>l\<close> are the packets the sender
  made, \<open>B\<close> the places in \<open>l\<close> of those of which a datagram arrived. The data flow one way.
\<close>

inductive link_run ::
  "conn \<Rightarrow> conn \<Rightarrow> packet list \<Rightarrow> nat set \<Rightarrow> conn_ev list \<Rightarrow> conn \<Rightarrow> conn_ev list \<Rightarrow> conn \<Rightarrow> bool" for s0 r0 where
  link_start: "link_run s0 r0 [] {} [] s0 [] r0"
| link_turn: "link_run s0 r0 l B es s evs r \<Longrightarrow> data \<noteq> [] \<Longrightarrow> p = fst (createDataPacket env (take (nat chunkSize) data) s)
    \<Longrightarrow> x = conn_writeChunk env data s \<Longrightarrow> link_run s0 r0 (l @ [p]) B (es @ events x) (final x) evs r"
| link_tick: "link_run s0 r0 l B es s evs r \<Longrightarrow> x = conn_timeoutCheck env s
    \<Longrightarrow> link_run s0 r0 l B (es @ events x) (final x) evs r"
| link_packet: "link_run s0 r0 l B es s evs r \<Longrightarrow> i < length l \<Longrightarrow> EvSend (l ! i) a \<in> set es
    \<Longrightarrow> packet_fromBytes (packet_toBytes (l ! i)) = Inr q \<Longrightarrow> x = handleIncomingPacket env q r
    \<Longrightarrow> link_run s0 r0 l (insert i B) es s (evs @ events x) (final x)"
| link_ack: "link_run s0 r0 l B es s evs r \<Longrightarrow> EvSend p a \<in> set evs \<Longrightarrow> packet_fromBytes (packet_toBytes p) = Inr q
    \<Longrightarrow> x = handleIncomingPacket env q s \<Longrightarrow> link_run s0 r0 l B (es @ events x) (final x) evs r"
| link_read: "link_run s0 r0 l B es s evs r \<Longrightarrow> x = conn_read rd k r
    \<Longrightarrow> link_run s0 r0 l B es s (evs @ events x) (final x)"

lemma net_run_mono: "net_run D s evs t \<Longrightarrow> D \<subseteq> E \<Longrightarrow> net_run E s evs t"
proof (induction rule: net_run.induct)
  case (net_packet evs t b q x env)
  from net_run.net_packet [OF net_packet.IH [OF net_packet.prems] _ net_packet.hyps(3,4)] show ?case
    using net_packet.hyps(2) net_packet.prems by blast
qed (auto intro: net_run.intros)

lemma ledger_arrive:
  assumes "ledger base l B es s" "i < length l" "EvSend (l ! i) a \<in> set es"
  shows "ledger base l (insert i B) es s"
proof -
  have "0 < copies (l ! i) es" using assms(3) copies_pos by blast
  moreover have "latest_ok base (insert i B) (sw_latest (cn_sendWindow s))"
    using assms(1) by (auto simp: ledger_def latest_ok_def split: option.splits)
  ultimately show ?thesis using assms(1,2) by (auto simp: ledger_def book_def)
qed

lemma link_books:
  assumes run: "link_run s0 r0 l B es s evs r" and at: "rx_at base 0 r0"
    and s0: "cn_state s0 = CS_CONNECTED" "cn_seqNr s0 = base" "u16 base" "sw_ok (cn_sendWindow s0)"
      "sw_outstanding (cn_sendWindow s0) = []" "sw_latest (cn_sendWindow s0) \<in> {None, Some (seq_add base (- 1))}"
  shows "length l < 32768 \<Longrightarrow> stream_log base l \<and> ledger base l B es s \<and> net_run (sent_at l B) r0 evs r"
  using run
proof induction
  case link_start
  have "latest_ok base {} (sw_latest (cn_sendWindow s0))"
    using s0(6) by (auto simp: latest_ok_def intro!: exI [of _ 0])
  then show ?case using s0 by (simp add: stream_log_def ledger_def book_def net_start)
next
  case (link_turn l B es s evs r data p env x)
  then have IH: "stream_log base l" "ledger base l B es s" "net_run (sent_at l B) r0 evs r" by simp_all
  then have seq: "cn_seqNr s = seq_add base (int (length l))" and B: "B \<subseteq> {..<length l}" by (auto simp: ledger_def)
  have d: "take (nat chunkSize) data \<noteq> []" "int (length (take (nat chunkSize) data)) \<le> chunkSize"
    using link_turn.hyps(2) by (simp_all add: chunkSize_eq)
  have u: "u16 (cn_seqNr s)" by (simp add: seq)
  note parts = createData_parts [OF u d, of env, folded link_turn.hyps(3)]
  have "pk_type p = ST_DATA" "packet_encodable p" "payload p \<noteq> []" "pk_seqNr p = seq_add base (int (length l))"
    using parts(1,2,3) d(1) seq by (simp_all add: data_of_def packet_encodable_def first_ext_type_def)
  then have l: "stream_log base (l @ [p])"
    using IH(1) link_turn.prems by (auto simp: stream_log_def nth_append less_Suc_eq)
  have "sent_at (l @ [p]) B = sent_at l B"
    unfolding sent_at_def using B by (intro image_cong refl) (auto simp: nth_append)
  then show ?case
    using l ledger_turn [OF IH(2), where env = env and data = data] IH(3) link_turn.hyps(3,4) by simp
next
  case (link_tick l B es s evs r x env)
  then show ?case using ledger_tick by simp
next
  case (link_packet l B es s evs r i a q x env)
  then have IH: "stream_log base l" "ledger base l B es s" "net_run (sent_at l B) r0 evs r" by simp_all
  have "net_run (sent_at l (insert i B)) r0 (evs @ events x) (final x)"
    by (rule net_packet [OF net_run_mono [OF IH(3)] _ link_packet.hyps(4,5)]) (auto simp: sent_at_def)
  then show ?case using IH(1) ledger_arrive [OF IH(2) link_packet.hyps(2,3)] by simp
next
  case (link_ack l B es s evs r p a q x env)
  then have IH: "stream_log base l" "ledger base l B es s" "net_run (sent_at l B) r0 evs r" by simp_all
  then have B: "B \<subseteq> {..<length l}" by (auto simp: ledger_def)
  have "ack_honest base B q" by (rule receiver_acks [OF IH(3,1) B at link_ack.hyps(2,3)])
  then show ?case using IH ledger_ack [OF IH(2,1)] link_ack.hyps(4) by simp
next
  case (link_read l B es s evs r x rd k)
  then show ?case using net_read by simp
qed

text \<open>
  C2. Nothing is lost silently. A sender and a receiver whose datagrams and acknowledgements the
  network loses, repeats and reorders at will, while calls of \<open>write\<close> take turns and timers fire: after
  any such run, each of the packets the sender numbered (fewer than 32768) is still in its send window,
  or a datagram of it arrived at the receiver, or it was sent four times, the first time and three
  more; in particular no acknowledgement, however late or damaged by the size of its mask, removes a
  packet that did not arrive. And what the receiver delivered are the payloads of a prefix, all of whose
  packets arrived.
\<close>

theorem no_silent_loss:
  assumes "link_run s r l B es t evs r'" "length l < 32768"
    and "cn_state s = CS_CONNECTED" "u16 (cn_seqNr s)" "sw_ok (cn_sendWindow s)" "sw_outstanding (cn_sendWindow s) = []"
    and "sw_latest (cn_sendWindow s) \<in> {None, Some (seq_add (cn_seqNr s) (- 1))}" and "rx_fresh (cn_seqNr s) r"
  shows "(\<forall>i < length l. pk_seqNr (l ! i) = seq_add (cn_seqNr s) (int i)
      \<and> (pk_seqNr (l ! i) \<in> fst ` set (sw_outstanding (cn_sendWindow t)) \<or> i \<in> B \<or> 4 \<le> copies (l ! i) es))
    \<and> (\<forall>i \<in> B. i < length l \<and> 0 < copies (l ! i) es)
    \<and> (\<exists>n \<le> length l. cn_ackNr r' = seq_add (cn_seqNr s) (int n - 1) \<and> {..<n} \<subseteq> B
         \<and> read_bytes evs @ bb_buffer (cn_recvBuffer r') = log_bytes (take n l))"
proof -
  let ?base = "cn_seqNr s"
  have at: "rx_at ?base 0 r" by (rule rx_fresh_at [OF assms(8)])
  have inv: "stream_log ?base l" "ledger ?base l B es t" "net_run (sent_at l B) r evs r'"
    using link_books [OF assms(1) at assms(3) refl assms(4-7,2)] by blast+
  then have B: "B \<subseteq> {..<length l}" by (auto simp: ledger_def)
  have D: "sent_at l B \<subseteq> packet_toBytes ` set l" using B by (auto simp: sent_at_def)
  have data: "pk_type p = ST_DATA \<and> packet_encodable p" if "p \<in> set l" for p
    using that inv(1) by (auto simp: stream_log_def in_set_conv_nth)
  have seq: "pk_seqNr (l ! i) = seq_add ?base (int i)" if "i < length l" for i using inv(1) that by (simp add: stream_log_def)
  have len: "length l < 49152" using assms(2) by simp
  obtain n where n: "n \<le> length l" "rx_inv ?base (stream_of ?base l 0) (length l + 16384) n r'"
    "rx_stream evs r' = bb_buffer (cn_recvBuffer r) @ concat (map payload (take n l))"
    using net_stream [OF inv(3) D seq data len at] by auto
  have ack: "cn_ackNr r' = seq_add ?base (int n - 1)" using n(2) by (simp add: rx_inv_def)
  have "{..<n} \<subseteq> B" by (rule delivered_arrived [OF inv(1) B inv(3) at ack n(1)])
  moreover have "read_bytes evs @ bb_buffer (cn_recvBuffer r') = log_bytes (take n l)"
    using n(3) assms(8) by (simp add: rx_stream_def rx_fresh_def log_bytes_def)
  ultimately show ?thesis using n(1) ack inv(2) seq by (auto simp: ledger_def book_def)
qed

theorem no_silent_loss_witness:
  "\<exists>l B es t evs r'. link_run sample_conn sample_peer l B es t evs r' \<and> B = {0} \<and> length l = 1 \<and> 0 < copies (l ! 0) es
     \<and> (\<exists>n \<le> 1. {..<n} \<subseteq> B \<and> read_bytes evs @ bb_buffer (cn_recvBuffer r') = log_bytes (take n l))"
proof -
  define p where "p = fst (createDataPacket sample_env (take (nat chunkSize) two_bytes) sample_conn)"
  define x where "x = conn_writeChunk sample_env two_bytes sample_conn"
  define y where "y = handleIncomingPacket sample_env (packet_wire p) sample_peer"
  have "fst (snd (sw_waitForAck (env_now sample_env) p (cn_remoteAddr sample_conn) (cn_sendWindow sample_conn)))"
    by (simp add: sw_waitForAck_def split_beta bm_set_split sw_new_def bm_new_def MIN_WINDOW_SIZE_def)
  then have send: "EvSend p sample_addr \<in> set (events x)"
    using turn_parts(4) [of sample_conn sample_env two_bytes, folded p_def x_def] by simp
  have "take (nat chunkSize) two_bytes = two_bytes" by (simp add: two_bytes_def chunkSize_eq)
  then have "data_of sample_conn p"
    using createData_parts(1) [of sample_conn two_bytes sample_env] by (simp add: p_def two_bytes_def chunkSize_eq u16_def)
  then have wire: "packet_fromBytes (packet_toBytes p) = Inr (packet_wire p)"
    by (intro packet_fromBytes_toBytes) (auto simp: data_of_def packet_encodable_def first_ext_type_def)
  have "link_run sample_conn sample_peer ([] @ [p]) {} ([] @ events x) (final x) [] sample_peer"
    by (rule link_turn [OF link_start _ p_def x_def]) (simp add: two_bytes_def)
  from link_packet [OF this, of 0 sample_addr] send wire
  have run: "link_run sample_conn sample_peer [p] {0} (events x) (final x) (events y) (final y)"
    by (simp add: y_def)
  have "sw_outstanding (cn_sendWindow sample_conn) = []" "u16 (cn_seqNr sample_conn)" "sw_ok (cn_sendWindow sample_conn)"
    "sw_latest (cn_sendWindow sample_conn) = None" "rx_fresh (cn_seqNr sample_conn) sample_peer"
    using sw_new_inv by (simp_all add: sw_inv_def sw_entries_ok_def sw_outstanding_def bm_all_def bm_new_def u16_def rx_fresh_def
        sample_peer_def bb_new_def seq_simps) (simp_all add: sw_new_def bm_new_def)
  then show ?thesis using no_silent_loss [OF run] run by fastforce
qed

end
