(* ===== verification/Repair.thy ===== *)
theory Repair imports EndToEnd begin

text \<open>
  Retransmission repairs a loss: a round of the retransmission timer sends the packet the receiver
  waits for once more, and when that copy arrives the receiver's stream grows by it.
\<close>

subsection \<open>A round of the window\<close>

text \<open>Visiting one packet leaves every other one in flight as it is.\<close>

lemma bm_get_all:
  "jm_wf (bm_map m) \<Longrightarrow> bm_get m k = Some v \<longleftrightarrow> (k, v) \<in> set (bm_map m)"
  by (simp add: bm_get_def jm_get_def jm_wf_def jm_keys_def map_of_eq_Some_iff)

lemma resendOne_keeps:
  fixes now :: int
  assumes ok: "sw_ok w" and k: "bm_get (sw_packetMap w) k = Some info" and "j \<noteq> k"
  defines "w' \<equiv> fst (sw_resendOne now j w)"
  shows "sw_ok w'" "bm_get (sw_packetMap w') k = Some info" "sw_rtt w' = sw_rtt w"
proof -
  have "sw_ok w' \<and> bm_get (sw_packetMap w') k = Some info \<and> sw_rtt w' = sw_rtt w"
  proof (cases rule: sw_resendOne_cases [of now j w])
    case skip
    then show ?thesis using ok k by (simp add: w'_def)
  next
    case (send i)
    then show ?thesis
      using sw_resendOne_send_ok [OF ok send] k assms(3)
      by (simp add: w'_def sw_resendOne_def Let_def bm_get_def jm_get_set)
  next
    case (drop i)
    note d = sw_resendOne_drop [OF ok drop, folded w'_def]
    have "(k, info) \<in> set (bm_map (sw_packetMap w))"
      using k ok by (simp add: bm_get_all sw_ok_def bm_inv_def)
    then have all: "(k, info) \<in> set (bm_all (sw_packetMap w'))"
      using d(1) assms(3) by (simp add: sw_outstanding_def bm_all_def)
    have r: "w' = (fst (sw_applyWindowSize (w\<lparr>sw_cc := cc_onPacketLoss (sw_cc w)\<rparr>)))
        \<lparr>sw_packetMap := fst (bm_delete j (sw_packetMap (fst (sw_applyWindowSize (w\<lparr>sw_cc := cc_onPacketLoss (sw_cc w)\<rparr>)))))\<rparr>"
      using drop by (simp add: w'_def sw_resendOne_def split_beta)
    have "set (bm_waiting (sw_packetMap w')) \<subseteq> set (bm_waiting (sw_packetMap w))"
      unfolding r sw_apply_eq by (simp add: subset_trans [OF bm_waiting_mono(2) bm_waiting_mono(3)])
    moreover have "k \<notin> bm_waitKeys (sw_packetMap w)"
      using in_map_not_waiting [OF _ k] ok by (simp add: sw_ok_def)
    ultimately have "(k, info) \<in> set (bm_map (sw_packetMap w'))"
      using all by (force simp: bm_all_def bm_waitKeys_def)
    then have "bm_get (sw_packetMap w') k = Some info"
      using d(2) by (simp add: bm_get_all sw_ok_def bm_inv_def)
    moreover have "sw_rtt w' = sw_rtt w" by (simp add: r sw_apply_eq)
    ultimately show ?thesis using d(2) by blast
  qed
  then show "sw_ok w'" "bm_get (sw_packetMap w') k = Some info" "sw_rtt w' = sw_rtt w" by blast+
qed

definition sends_out :: "env \<Rightarrow> bool" where
  "sends_out env \<longleftrightarrow> (\<forall>p e. env_send env p \<noteq> Inl e)"

lemma resendOne_run:
  fixes env :: env and s :: conn and j :: int
  assumes "sends_out env"
  defines "x \<equiv> conn_resendOne env j s"
  shows "result x = Inr ()" "cn_sendWindow (final x) = fst (sw_resendOne (env_now env) j (cn_sendWindow s))"
    and "SwSend p a \<in> set (snd (sw_resendOne (env_now env) j (cn_sendWindow s))) \<Longrightarrow> EvSend p a \<in> set (events x)"
proof -
  let ?f = "\<lambda>out. case out of
      SwSend p addr \<Rightarrow> eff_bind (utp_send env p addr) (\<lambda>_. eff_return ())
    | SwAdmit k info \<Rightarrow> eff_update (\<lambda>s :: conn. (s, resumed s [(k, info)]))"
  have one: "result (?f out t) = Inr () \<and> final (?f out t) = t
      \<and> (out = SwSend p a \<longrightarrow> EvSend p a \<in> set (events (?f out t)))" for out t p a
    using assms(1) by (cases out) (auto simp: sends_out_def utp_send_def eff_parts split: sum.split)
  have all: "result (eff_forEach ?f outs t) = Inr () \<and> final (eff_forEach ?f outs t) = t
      \<and> (SwSend p a \<in> set outs \<longrightarrow> EvSend p a \<in> set (events (eff_forEach ?f outs t)))" for outs t p a
  proof (induction outs)
    case (Cons out outs)
    then show ?case using one [of out t p a] by (auto simp: eff_parts)
  qed simp
  show "result x = Inr ()" "cn_sendWindow (final x) = fst (sw_resendOne (env_now env) j (cn_sendWindow s))"
    "SwSend p a \<in> set (snd (sw_resendOne (env_now env) j (cn_sendWindow s))) \<Longrightarrow> EvSend p a \<in> set (events x)"
    using all by (simp_all add: x_def conn_resendOne_def split_beta eff_parts)
qed

text \<open>The packet of a due entry of the window that has retransmissions left.\<close>

definition due :: "env \<Rightarrow> send_window \<Rightarrow> int \<Rightarrow> pkt_info \<Rightarrow> bool" where
  "due env w k info \<longleftrightarrow> bm_get (sw_packetMap w) k = Some info
     \<and> of_int (env_now env - pi_sentTime info) > rt_rto (sw_rtt w) \<and> pi_resendTimes info < RESEND_TIMES_LIMIT"

lemma round_sends:
  assumes "sends_out env"
  shows "sw_ok (cn_sendWindow s) \<Longrightarrow> due env (cn_sendWindow s) k info \<Longrightarrow> k \<in> set ks
    \<Longrightarrow> EvSend (pi_packet info) (pi_remoteAddr info) \<in> set (events (eff_forEach (conn_resendOne env) ks s))"
proof (induction ks arbitrary: s)
  case (Cons j ks)
  note run = resendOne_run [OF assms, where j = j and s = s]
  show ?case
  proof (cases "j = k")
    case True
    then show ?thesis
      using run(1) run(3) [where p = "pi_packet info" and a = "pi_remoteAddr info"] Cons.prems(2)
        sw_resendOne_update(1) [of "cn_sendWindow s" k info "env_now env"]
      by (simp add: due_def eff_parts)
  next
    case False
    have "bm_get (sw_packetMap (cn_sendWindow s)) k = Some info" using Cons.prems(2) by (simp add: due_def)
    note keep = resendOne_keeps [OF Cons.prems(1) this False, of "env_now env"]
    have "due env (cn_sendWindow (final (conn_resendOne env j s))) k info"
      using keep Cons.prems(2) by (simp add: due_def run(2))
    then show ?thesis using Cons.IH [of "final (conn_resendOne env j s)"] keep(1) Cons.prems(3) False run
      by (simp add: eff_parts)
  qed
qed simp

lemma keepAlive_run:
  fixes env :: env and s :: conn
  assumes "sends_out env" "cn_state s = CS_CONNECTED"
  shows "result (conn_keepAlive env s) = Inr ()" "cn_sendWindow (final (conn_keepAlive env s)) = cn_sendWindow s"
proof -
  have a: "pk_type (createAckPacket env k t) = ST_STATE" for k t
    by (simp add: createAckPacket_def packet_blank_def split: option.split)
  have "result (conn_keepAlive env s) = Inr () \<and> cn_sendWindow (final (conn_keepAlive env s)) = cn_sendWindow s"
    using assms by (auto simp: conn_keepAlive_def conn_sendAck_def conn_sendUtpPacket_def eff_parts a packet_types
        conn_isClosed_def utp_send_def sends_out_def split: sum.split)
  then show "result (conn_keepAlive env s) = Inr ()" "cn_sendWindow (final (conn_keepAlive env s)) = cn_sendWindow s"
    by blast+
qed

lemma timeoutCheck_sends:
  fixes env :: env and s :: conn
  assumes "sends_out env" "cn_state s = CS_CONNECTED" "sw_ok (cn_sendWindow s)" "due env (cn_sendWindow s) k info"
  shows "EvSend (pi_packet info) (pi_remoteAddr info) \<in> set (events (conn_timeoutCheck env s))"
proof -
  let ?t = "final (conn_keepAlive env s)"
  note ka = keepAlive_run [OF assms(1,2)]
  have "k \<in> set (sw_getAllSeqNrs (cn_sendWindow ?t))"
    using assms(4) by (simp add: ka(2) due_def sw_getAllSeqNrs_def bm_keys_def jm_keys_dom bm_get_def)
  from round_sends [OF assms(1) _ _ this, of ?t] show ?thesis
    using assms(2-4) by (simp add: conn_timeoutCheck_def conn_windowTimeoutCheck_def eff_parts ka)
qed

subsection \<open>The repair\<close>

text \<open>A packet that carries the next bytes a receiver waits for extends its stream by them.\<close>

lemma next_packet:
  fixes env :: env
  assumes inv: "rx_inv base (stream_of base l 0) (length l + 16384) n r"
    and n: "n < length l" and len: "length l < 49152"
    and p: "pk_type (l ! n) = ST_DATA" "pk_seqNr (l ! n) = seq_add base (int n)"
  defines "x \<equiv> handleIncomingPacket env (packet_wire (l ! n)) r"
  shows "\<exists>more. rx_stream (events x) (final x) = bb_buffer (cn_recvBuffer r) @ payload (l ! n) @ more"
proof -
  let ?f = "stream_of base l 0"
  have w: "?f n = packet_wire (l ! n)" using n by (simp add: stream_of_def)
  note wire = wire_data [OF p(1), unfolded p(2), OF seq_add_u16]
  have f: "pk_type (?f n) = ST_DATA" "pk_seqNr (?f n) = seq_add base (int n)" "payload (?f n) = payload (l ! n)"
    using wire by (simp_all add: w)
  show ?thesis
  proof (rule rx_data [OF inv _ f(1,2), of env], unfold w, fold x_def)
    fix m assume "n = n \<longrightarrow> n < m"
      "rx_stream (events x) (final x) = bb_buffer (cn_recvBuffer r) @ concat (map (\<lambda>i. payload (?f i)) [n..<m])"
    then show ?thesis using f(3) by (simp add: upt_conv_Cons)
  qed (use n len in simp_all)
qed

text \<open>
  C3. Retransmission repairs a loss. Take a sender and a receiver as in C1 after any run in which the
  network lost, repeated or reordered what it liked, and a packet of the window that is due, has
  retransmissions left, and carries the number the receiver waits for. The next tick of the timer sends
  it again, whatever else is in the window, and when this datagram arrives the stream of the receiver
  goes on with its bytes: those given to the reader and those it can still read grow by its payload.
\<close>

theorem loss_repaired:
  fixes env env' :: env and r' t :: conn
  assumes "tx_run s es ws t" "cn_state s = CS_CONNECTED" "u16 (cn_seqNr s)"
    and "sw_outstanding (cn_sendWindow s) = []"
    and "sum_list (map (\<lambda>w. chunks (length w)) ws) < 49152"
    and "rx_fresh (cn_seqNr s) r" and "net_run (datagrams es) r evs r'"
    and "sends_out env" "sw_ok (cn_sendWindow t)" "due env (cn_sendWindow t) k info"
    and "pk_seqNr (pi_packet info) = seq_add (cn_ackNr r') 1"
  shows "EvSend (pi_packet info) (pi_remoteAddr info) \<in> set (events (conn_timeoutCheck env t))
    \<and> (\<exists>q x more. packet_fromBytes (packet_toBytes (pi_packet info)) = Inr q \<and> x = handleIncomingPacket env' q r'
       \<and> read_bytes (evs @ events x) @ bb_buffer (cn_recvBuffer (final x))
         = read_bytes evs @ bb_buffer (cn_recvBuffer r') @ payload (pi_packet info) @ more)"
proof -
  let ?p = "pi_packet info"
  obtain l where l: "length l = sum_list (map (\<lambda>w. chunks (length w)) ws)"
    "\<And>i. i < length l \<Longrightarrow> pk_seqNr (l ! i) = seq_add (cn_seqNr s) (int i)"
    "\<And>p. p \<in> set l \<Longrightarrow> pk_type p = ST_DATA \<and> packet_encodable p" "datagrams es \<subseteq> packet_toBytes ` set l"
    "sw_packets (cn_sendWindow t) \<subseteq> set l"
    using tx_datagrams [OF assms(1-4)] by blast
  have len: "length l < 49152" using l(1) assms(5) by simp
  obtain n where n: "n \<le> length l" "rx_inv (cn_seqNr s) (stream_of (cn_seqNr s) l 0) (length l + 16384) n r'"
    using net_stream [OF assms(7) l(4,2,3) len rx_fresh_at [OF assms(6)]] by auto
  have conn: "cn_state t = CS_CONNECTED" using tx_run_log [OF assms(1-3)] by blast
  have "(k, info) \<in> set (bm_map (sw_packetMap (cn_sendWindow t)))"
    using assms(9,10) by (simp add: due_def bm_get_all sw_ok_def bm_inv_def)
  then have "?p \<in> set l" using l(5) by (force simp: sw_packets_def sw_outstanding_def bm_all_def)
  then obtain i where i: "i < length l" "l ! i = ?p" by (auto simp: in_set_conv_nth)
  have "seq_add (cn_seqNr s) (int i) = seq_add (cn_seqNr s) (int n)"
    using l(2) [OF i(1)] assms(11) n(2) i(2) by (simp add: rx_inv_def seq_add_add)
  then have "int i mod 65536 = int n mod 65536" by (simp only: seq_add_inj)
  then have "i = n" using i(1) n(1) len same_mod_close [of "int i" "int n"] by simp
  then have nl: "n < length l" "l ! n = ?p" using i by auto
  have ok: "pk_type ?p = ST_DATA" "packet_encodable ?p" using l(3) [OF \<open>?p \<in> set l\<close>] by simp_all
  obtain more where "rx_stream (events (handleIncomingPacket env' (packet_wire ?p) r'))
      (final (handleIncomingPacket env' (packet_wire ?p) r')) = bb_buffer (cn_recvBuffer r') @ payload ?p @ more"
    using next_packet [OF n(2) nl(1) len, unfolded nl(2), OF ok(1)] l(2) [OF nl(1)] nl(2) by auto
  then show ?thesis
    using timeoutCheck_sends [OF assms(8) conn assms(9,10)] packet_fromBytes_toBytes [OF ok(2)]
    by (simp add: rx_stream_def)
qed

text \<open>The written bytes again, two seconds after their datagram was lost.\<close>

definition later_env :: env where
  "later_env = sample_env\<lparr>env_now := env_now sample_env + 2000\<rparr>"

theorem loss_repaired_witness:
  "\<exists>p x more. EvSend p sample_addr \<in> set (events (conn_timeoutCheck later_env (final (conn_write sample_env two_bytes sample_conn))))
     \<and> x = handleIncomingPacket later_env (packet_wire p) sample_peer \<and> payload p = [1, 2]
     \<and> read_bytes (events x) @ bb_buffer (cn_recvBuffer (final x)) = [1, 2] @ more"
proof -
  let ?x = "conn_write sample_env two_bytes sample_conn"
  define p where "p = fst (createDataPacket sample_env two_bytes sample_conn)"
  have p: "pk_type p = ST_DATA" "pk_seqNr p = 100" "payload p = [1, 2]" "packet_encodable p"
    using createData_parts [of sample_conn two_bytes sample_env]
    by (simp_all add: p_def two_bytes_def chunkSize_eq u16_def data_of_def packet_encodable_def first_ext_type_def)
  define info where "info = \<lparr>pi_packet = p, pi_resendTimes = 0, pi_ackCount = 0, pi_sentTime = env_now sample_env,
      pi_remoteAddr = sample_addr\<rparr>"
  have "cn_sendWindow (final ?x) = fst (sw_waitForAck (env_now sample_env) p sample_addr sw_new)"
    using write_one_chunk(7) [of sample_conn 3 two_bytes sample_env] sample_room
    by (simp add: two_bytes_def chunkSize_eq sample_env_def eval_nat_numeral p_def)
  then have "cn_sendWindow (final ?x) = sw_new\<lparr>sw_packetMap := (bm_new MIN_WINDOW_SIZE)\<lparr>bm_map := [(100, info)]\<rparr>\<rparr>"
    by (simp add: sw_waitForAck_def sw_new_def bm_set_def bm_new_def bm_resolveNextSetter_def MIN_WINDOW_SIZE_def
        jm_set_def info_def p(2))
  then have w: "sw_ok (cn_sendWindow (final ?x))" "due later_env (cn_sendWindow (final ?x)) 100 info"
    by (simp_all add: sw_ok_def bm_inv_def bm_new_def bm_distinct_def bm_all_def due_def bm_get_def jm_get_def
        jm_wf_def jm_keys_def later_env_def info_def sw_new_def rtt_new_def MIN_RTO_def RESEND_TIMES_LIMIT_def)
  have f: "sw_outstanding (cn_sendWindow sample_conn) = []" "u16 (cn_seqNr sample_conn)"
    "rx_fresh (cn_seqNr sample_conn) sample_peer"
    by (simp_all add: sw_new_def sw_outstanding_def bm_all_def bm_new_def u16_def rx_fresh_def sample_peer_def seq_simps bb_new_def)
  have later: "sends_out later_env" by (simp add: sends_out_def later_env_def sample_env_def)
  have "packet_fromBytes (packet_toBytes p) = Inr (packet_wire p)" by (rule packet_fromBytes_toBytes [OF p(4)])
  then show ?thesis
    using loss_repaired [OF sample_tx_run(1) _ f(2,1) _ f(3) net_start later w, of later_env] p
    by (auto simp: two_bytes_def chunks_simps info_def sample_peer_def seq_simps bb_new_def)
qed

end
