(* ===== verification/SocketSteps.thy ===== *)
theory SocketSteps imports Socket begin

text \<open>
  The operations of a socket and the steps they are made of: a method of a connection whose events reach
  the socket, a new connection, changes of the socket's own fields. A history that each step satisfies is
  satisfied by every operation.
\<close>

subsection \<open>What an absorbed run of a connection changes\<close>

lemma absorb_frame:
  "ut_conns (fst (absorb c es u)) = ut_conns u" "ut_state (fst (absorb c es u)) = ut_state u"
  "ut_listener (fst (absorb c es u)) = ut_listener u" "ut_udpSocket (fst (absorb c es u)) = ut_udpSocket u"
  unfolding absorb_def
  by (rule thread_frame; simp add: absorbOne_def utp_sendUtpPacket_def Let_def utp_addConn_def utp_removeCon_def
      split: conn_ev.split)+

lemma absorb_Cons:
  "absorb c (e # es) u = (fst (absorb c es (fst (absorbOne c e u))), snd (absorbOne c e u) @ snd (absorb c es (fst (absorbOne c e u))))"
  by (simp add: absorb_def thread_Cons)

lemma absorb_Nil: "absorb c [] u = (u, [])"
  by (simp add: absorb_def)

lemma jm_del_del: "jm_del k (jm_del k m) = jm_del k m"
  by (simp add: jm_del_filter)

lemma absorb_table:
  "\<forall>e \<in> set es. off_table e \<or> e = EvRemoveConn uid \<Longrightarrow>
    ut_connTable (fst (absorb c es u)) = (if EvRemoveConn uid \<in> set es then jm_del uid (ut_connTable u) else ut_connTable u)"
proof (induction es arbitrary: u)
  case Nil
  then show ?case by (simp add: absorb_Nil)
next
  case (Cons e es)
  have "ut_connTable (fst (absorbOne c e u)) = (if e = EvRemoveConn uid then jm_del uid (ut_connTable u) else ut_connTable u)"
    using Cons.prems
    by (cases e) (auto simp: absorbOne_def utp_sendUtpPacket_def Let_def utp_removeCon_def)
  then show ?case using Cons by (auto simp: absorb_Cons jm_del_del)
qed

fun is_udpSend :: "utp_ev \<Rightarrow> bool" where
  "is_udpSend (UdpSend b a) = True"
| "is_udpSend _ = False"

lemma absorb_closed: "utp_isClosed u \<Longrightarrow> list_all (\<lambda>e. \<not> is_udpSend e) (snd (absorb c es u))"
proof (induction es arbitrary: u)
  case Nil
  then show ?case by (simp add: absorb_Nil)
next
  case (Cons e es)
  have "utp_isClosed (fst (absorbOne c e u)) \<and> list_all (\<lambda>e. \<not> is_udpSend e) (snd (absorbOne c e u))"
    using Cons.prems
    by (cases e) (auto simp: absorbOne_def utp_sendUtpPacket_def Let_def utp_removeCon_def utp_addConn_def utp_isClosed_def)
  then show ?case using Cons.IH by (simp add: absorb_Cons)
qed

subsection \<open>Sequences of operations\<close>

text \<open>
  What the program and the runtime do with a socket: the calls of its methods, datagrams that arrive,
  its timers, \<open>accept\<close> on its listener, and any call on one of its connections.
\<close>

datatype utp_op =
    OpListen "js_error + deno_addr" int string
  | OpConnect env "js_error + deno_addr" int int string
  | OpDatagrams "datagram list"
  | OpTimeoutCheck env
  | OpClose env
  | OpTryClose env
  | OpAccept nat
  | OpConn env nat conn_call

definition utp_accept :: "nat \<Rightarrow> unit utp_eff" where
  "utp_accept w =
     eff_read (\<lambda>u. li_accept w (ut_listener u)) (\<lambda>r. case r of
       Inl e \<Rightarrow> eff_throw e
     | Inr (l, outs) \<Rightarrow> eff_update (\<lambda>u. (u\<lparr>ut_listener := l\<rparr>, map OfListener outs)))"

fun utp_do :: "utp_op \<Rightarrow> unit utp_eff" where
  "utp_do (OpListen local port hostname) = utp_listen local port hostname"
| "utp_do (OpConnect env local random port hostname) = eff_bind (utp_connect env local random port hostname) (\<lambda>_. eff_return ())"
| "utp_do (OpDatagrams ds) = utp_startListen ds"
| "utp_do (OpTimeoutCheck env) = utp_timeoutCheck env"
| "utp_do (OpClose env) = eff_bind (utp_close env) (\<lambda>_. eff_return ())"
| "utp_do (OpTryClose env) = eff_bind (utp_tryCloseSocket env) (\<lambda>_. eff_return ())"
| "utp_do (OpAccept w) = utp_accept w"
| "utp_do (OpConn env c call) = runConn env c (\<lambda>e. conn_do e call)"

inductive utp_run :: "utp \<Rightarrow> utp_ev list \<Rightarrow> utp \<Rightarrow> bool" where
  utp_start: "utp_run u [] u"
| utp_step: "utp_run u es v \<Longrightarrow> utp_run u (es @ events (utp_do op v)) (final (utp_do op v))"

lemma utp_run_once: "utp_run u (events (utp_do op u)) (final (utp_do op u))"
  using utp_step [OF utp_start] by simp

lemma valid_addr: "addr_fromDenoAddr d = Inr a \<Longrightarrow> isValidHostname (ua_hostname a)"
  "addr_create port host = Inr a \<Longrightarrow> isValidHostname (ua_hostname a)"
  by (auto simp: addr_fromDenoAddr_def addr_create_def split: deno_addr.splits if_splits)

subsection \<open>Histories of a socket\<close>

text \<open>\<open>P\<close> is what the methods of a connection satisfy, \<open>H\<close> what follows for the socket.\<close>

locale socket_steps = history H
  for H :: "utp \<Rightarrow> utp_ev list \<Rightarrow> utp \<Rightarrow> bool" +
  fixes P :: "conn \<Rightarrow> conn_ev list \<Rightarrow> conn \<Rightarrow> bool"
  assumes conn_methods: "obeys P (conn_do env call)" "obeys P (handleIncomingPacket env p)" "obeys P (conn_close env)"
      "obeys P (conn_reset env)" "obeys P (conn_timeoutCheck env)" "obeys P (waitForConnecting env pid)"
    and step_conn: "\<And>(u :: utp) c es t y. P (ut_conns u ! c) es t
      \<Longrightarrow> y = absorb c es (u\<lparr>ut_conns := (ut_conns u)[c := t]\<rparr>) \<Longrightarrow> H u (snd y) (fst y)"
    and step_new: "\<And>(u :: utp) st addr s env sendId recvId seqNr ackNr.
      st = CS_SYN_SENT \<or> st = CS_SYN_RECV \<Longrightarrow> isValidHostname (ua_hostname addr)
      \<Longrightarrow> s = fst (conn_new env st addr sendId recvId seqNr ackNr)
      \<Longrightarrow> H u [] (u\<lparr>ut_conns := ut_conns u @ [s], ut_connTable := jm_set (conn_uniqueId s) (length (ut_conns u)) (ut_connTable u)\<rparr>)"
    and step_frame: "\<And>(u :: utp) (v :: utp) es. ut_connTable v = ut_connTable u \<Longrightarrow> ut_conns v = ut_conns u
      \<Longrightarrow> ut_state v = ut_state u \<Longrightarrow> ut_udpSocket u \<longrightarrow> ut_udpSocket v
      \<Longrightarrow> list_all (\<lambda>e. \<not> is_udpSend e) es \<Longrightarrow> H u es v"
    and step_closing: "\<And>u :: utp. ut_state u = US_ACTIVE \<Longrightarrow> H u [] (u\<lparr>ut_state := US_CLOSE_WAIT\<rparr>)"
    and step_closed: "\<And>u :: utp. H u [] (u\<lparr>ut_state := US_CLOSED\<rparr>)"
begin

lemma all_onConn: "(\<And>e. obeys P (m e)) \<Longrightarrow> obeys H (onConn env c m)"
proof (rule obeysI)
  fix u :: utp
  assume "\<And>e. obeys P (m e)"
  then have "P (ut_conns u ! c) (events (m (conn_env env u) (ut_conns u ! c))) (final (m (conn_env env u) (ut_conns u ! c)))"
    by (rule obeysD)
  from step_conn [OF this refl] show "obeys_at H (onConn env c m) u"
    by (simp add: obeys_at_def onConn_def Let_def split_beta)
qed

lemma all_modify:
  assumes "\<And>u. ut_connTable (f u) = ut_connTable u" "\<And>u. ut_conns (f u) = ut_conns u" "\<And>u. ut_state (f u) = ut_state u"
    "\<And>u. ut_udpSocket u \<longrightarrow> ut_udpSocket (f u)"
  shows "obeys H (eff_modify f)"
  by (rule obeys_steps) (simp add: step_frame assms)

lemma all_emit: "\<not> is_udpSend e \<Longrightarrow> obeys H (eff_emit [e])"
  by (rule obeys_steps) (simp add: step_frame)

lemma all_closeConn: "obeys H (closeConn env c)"
  unfolding closeConn_def by (intro obeys_intros all_emit all_onConn conn_methods) simp

lemma all_ofListener: "obeys H (ofListener env e)"
  by (cases "(env, e)" rule: ofListener.cases) (simp_all add: all_closeConn all_emit)

lemma all_listener: "obeys H (eff_then (eff_modify (\<lambda>u. u\<lparr>ut_listener := l\<rparr>)) (eff_forEach (ofListener env) outs))"
  by (intro obeys_intros all_modify all_ofListener) simp_all

lemma all_addConnection: "obeys H (utp_addConnection env c)"
  unfolding utp_addConnection_def by (intro obeys_read) (auto intro!: all_listener split: prod.split)

lemma all_runConn: "(\<And>e. obeys P (m e)) \<Longrightarrow> obeys H (runConn env c m)"
  unfolding runConn_def
  by (intro obeys_intros all_onConn all_addConnection) (auto intro: obeys_intros split: sum.split)

lemma all_connectTo:
  assumes "st = CS_SYN_SENT \<or> st = CS_SYN_RECV" "isValidHostname (ua_hostname addr)"
  shows "obeys H (utp_connectTo env st addr sendId recvId seqNr ackNr)"
proof (rule obeysI)
  fix u :: utp
  let ?c = "length (ut_conns u)" and ?n = "conn_new env st addr sendId recvId seqNr ackNr"
  let ?s = "fst ?n"
  have n: "?n = (?s, [EvAddConn (conn_uniqueId ?s)])" by (simp add: conn_new_def Let_def)
  have a: "absorb ?c [EvAddConn (conn_uniqueId ?s)] (u\<lparr>ut_conns := ut_conns u @ [?s]\<rparr>)
      = (u\<lparr>ut_conns := ut_conns u @ [?s], ut_connTable := jm_set (conn_uniqueId ?s) ?c (ut_connTable u)\<rparr>, [])"
    by (simp add: absorb_Cons absorb_Nil absorbOne_def utp_addConn_def)
  have "obeys_at H (eff_update (\<lambda>u. let (s, es) = conn_new env st addr sendId recvId seqNr ackNr
       in absorb ?c es (u\<lparr>ut_conns := ut_conns u @ [s]\<rparr>))) u"
    by (subst n) (simp add: obeys_at_def a step_new [OF assms refl])
  moreover have "obeys H (eff_then (runConn env ?c (\<lambda>e. waitForConnecting e ?c)) (eff_return ?c))"
    by (intro obeys_then obeys_simple all_runConn conn_methods)
  ultimately show "obeys_at H (utp_connectTo env st addr sendId recvId seqNr ackNr) u"
    unfolding utp_connectTo_def by (rule at_control(2) [OF at_then [OF _ obeys_at]])
qed

lemma all_createUdp: "obeys H (utp_createUdpSocketIfNone local)"
  unfolding utp_createUdpSocketIfNone_def
  by (intro obeys_read) (auto split: sum.split intro!: obeys_intros obeys_steps step_frame)

lemma all_connect: "obeys H (utp_connect env local random port hostname)"
  unfolding utp_connect_def
  by (auto split: sum.split intro!: obeys_intros all_createUdp all_connectTo dest: valid_addr)

lemma all_listen: "obeys H (utp_listen local port hostname)"
  unfolding utp_listen_def by (auto split: sum.split intro!: obeys_intros all_createUdp)

lemma all_deliver: "obeys H (utp_deliver env p cs)"
  by (induction cs) (auto intro!: obeys_intros all_runConn conn_methods)

lemma all_acceptSyn: "isValidHostname (ua_hostname addr) \<Longrightarrow> obeys H (utp_acceptSyn env random p addr)"
  unfolding utp_acceptSyn_def Let_def by (intro obeys_read) (auto intro!: obeys_intros all_connectTo)

lemma all_dispatch: "obeys H (utp_dispatch env random b addr)"
  unfolding utp_dispatch_def
  by (auto split: sum.split bool.split intro!: obeys_intros all_modify all_acceptSyn all_deliver dest: valid_addr)

lemma all_receive: "obeys H (utp_receive d)"
  unfolding utp_receive_def by (intro obeys_read) (auto intro!: obeys_intros all_modify all_dispatch)

lemma all_startListen: "obeys H (utp_startListen ds)"
proof (induction ds)
  case Nil
  then show ?case by (simp add: obeys_simple)
next
  case (Cons d ds)
  have "obeys H (eff_read utp_isClosed (\<lambda>closed. if closed then eff_return () else eff_throw e))" for e
    by (intro obeys_read) (simp add: obeys_simple)
  then show ?case
    by (simp only: utp_startListen.simps, intro obeys_read)
      (auto intro!: obeys_then obeys_try all_receive Cons.IH obeys_simple)
qed

lemma all_timeoutOne: "obeys H (utp_timeoutOne env e)"
  unfolding utp_timeoutOne_def by (intro obeys_intros all_runConn conn_methods)

lemma all_timeoutCheck: "obeys H (utp_timeoutCheck env)"
  unfolding utp_timeoutCheck_def by (intro obeys_intros all_timeoutOne)

lemma all_tryClose: "obeys H (utp_tryCloseSocket env)"
proof -
  have 1: "obeys H utp_stopTimeoutCheck"
    unfolding utp_stopTimeoutCheck_def by (rule obeys_steps) (simp add: step_frame)
  have 2: "obeys H (eff_modify (\<lambda>u. u\<lparr>ut_state := US_CLOSED\<rparr>))"
    by (rule obeys_steps) (rule step_closed)
  show ?thesis
    unfolding utp_tryCloseSocket_def by (intro obeys_read) (auto intro!: obeys_intros 1 2 all_emit all_closeConn)
qed

lemma all_liClose: "obeys H (eff_read (\<lambda>u. li_close (ut_listener u)) (\<lambda>(l, outs).
    eff_then (eff_modify (\<lambda>u. u\<lparr>ut_listener := l\<rparr>)) (eff_forEach (ofListener env) outs)))"
  by (intro obeys_read) (auto intro!: all_listener split: prod.split)

lemma all_close: "obeys H (utp_close env)"
proof (rule obeysI)
  fix u
  show "obeys_at H (utp_close env) u"
  proof (cases "ut_state u = US_ACTIVE")
    case True
    then have "obeys_at H (eff_modify (\<lambda>u. u\<lparr>ut_state := US_CLOSE_WAIT\<rparr>)) u"
      by (intro at_steps) (rule step_closing)
    then show ?thesis
      unfolding utp_close_def using True
      by (intro at_control(2)) (auto intro!: at_then at_simple obeys_at [OF all_liClose] obeys_at [OF all_tryClose])
  next
    case False
    then show ?thesis
      unfolding utp_close_def by (intro at_control(2)) (cases "ut_state u"; simp add: at_simple)
  qed
qed

lemma all_accept: "obeys H (utp_accept w)"
proof -
  have q: "list_all (\<lambda>e. \<not> is_udpSend e) (map OfListener outs)" for outs by (simp add: list_all_iff)
  show ?thesis
    unfolding utp_accept_def
    by (intro obeys_read) (auto intro!: obeys_simple obeys_steps step_frame q split: sum.split prod.split)
qed

lemma all_do: "obeys H (utp_do op)"
  by (cases op)
    (auto intro!: obeys_intros all_listen all_connect all_startListen all_timeoutCheck all_close all_tryClose
      all_accept all_runConn conn_methods)

lemma all_run: "utp_run u es v \<Longrightarrow> H u es v"
  by (induction rule: utp_run.induct) (auto intro: hist_refl hist_trans obeysD [OF all_do])

end

end
