(* ===== verification/SocketTable.thy ===== *)
theory SocketTable imports SocketSteps begin

text \<open>
  The socket over any sequence of operations: the table holds live connections under their own
  identifiers, connections keep their identity and only move forward, and a closed socket is silent.
\<close>

subsection \<open>The history of a socket\<close>

definition live_entry :: "utp \<Rightarrow> string \<times> nat \<Rightarrow> bool" where
  "live_entry u e \<longleftrightarrow> snd e < length (ut_conns u)
     \<and> conn_uniqueId (ut_conns u ! snd e) = fst e \<and> \<not> conn_over (ut_conns u ! snd e)
     \<and> isValidHostname (ua_hostname (cn_remoteAddr (ut_conns u ! snd e)))"

definition table_ok :: "utp \<Rightarrow> bool" where
  "table_ok u \<longleftrightarrow> jm_wf (ut_connTable u) \<and> (\<forall>e \<in> set (ut_connTable u). live_entry u e)"

definition same_conn :: "conn \<Rightarrow> conn \<Rightarrow> bool" where
  "same_conn s t \<longleftrightarrow> cn_recvId t = cn_recvId s \<and> cn_sendId t = cn_sendId s \<and> cn_remoteAddr t = cn_remoteAddr s
     \<and> stage (cn_state s) \<le> stage (cn_state t)"

definition utp_hist :: "utp \<Rightarrow> utp_ev list \<Rightarrow> utp \<Rightarrow> bool" where
  "utp_hist u es v \<longleftrightarrow>
     (table_ok u \<longrightarrow> table_ok v)
     \<and> length (ut_conns u) \<le> length (ut_conns v)
     \<and> (\<forall>c < length (ut_conns u). same_conn (ut_conns u ! c) (ut_conns v ! c))
     \<and> (list_all conn_parts_ok (ut_conns u) \<longrightarrow> list_all conn_parts_ok (ut_conns v))
     \<and> (utp_isClosed u \<longrightarrow> utp_isClosed v \<and> list_all (\<lambda>e. \<not> is_udpSend e) es)"

lemma utp_hist_refl: "utp_hist u [] u"
  by (simp add: utp_hist_def same_conn_def)

lemma utp_hist_trans:
  assumes h: "utp_hist u es v" "utp_hist v fs w"
  shows "utp_hist u (es @ fs) w"
proof -
  have "same_conn (ut_conns u ! c) (ut_conns w ! c)" if c: "c < length (ut_conns u)" for c
  proof -
    have "c < length (ut_conns v)" using h(1) c by (simp add: utp_hist_def)
    then have "same_conn (ut_conns v ! c) (ut_conns w ! c)" "same_conn (ut_conns u ! c) (ut_conns v ! c)"
      using h c by (simp_all add: utp_hist_def)
    then show ?thesis by (simp add: same_conn_def)
  qed
  then show ?thesis using h by (simp add: utp_hist_def)
qed

lemma hist_same_conn: "conn_hist s es t \<Longrightarrow> same_conn s t"
  by (simp add: conn_hist_def same_conn_def)

lemma jm_del_subset: "set (jm_del k m) \<subseteq> set m"
  by (auto simp: jm_del_filter)

lemma utp_hist_conn:
  fixes u :: utp
  assumes h: "conn_hist (ut_conns u ! c) es t" and k: "keeps (ut_conns u ! c) t"
  defines "w \<equiv> u\<lparr>ut_conns := (ut_conns u)[c := t]\<rparr>"
  defines "y \<equiv> absorb c es w"
  shows "utp_hist u (snd y) (fst y)"
proof -
  let ?s = "ut_conns u ! c"
  have tab: "ut_connTable (fst y)
      = (if EvRemoveConn (conn_uniqueId ?s) \<in> set es then jm_del (conn_uniqueId ?s) (ut_connTable u) else ut_connTable u)"
    unfolding y_def using h by (subst absorb_table [of _ "conn_uniqueId ?s"]) (simp_all add: conn_hist_def w_def)
  have conns: "ut_conns (fst y) = (ut_conns u)[c := t]" by (simp add: y_def absorb_frame w_def)
  have "table_ok (fst y)" if ok: "table_ok u"
    unfolding table_ok_def
  proof (intro conjI ballI)
    show "jm_wf (ut_connTable (fst y))" using ok by (simp add: tab table_ok_def)
    fix e assume e: "e \<in> set (ut_connTable (fst y))"
    then have e': "e \<in> set (ut_connTable u)" by (auto simp: tab split: if_splits dest: set_mp [OF jm_del_subset])
    then have l: "live_entry u e" using ok by (simp add: table_ok_def)
    show "live_entry (fst y) e"
    proof (cases "snd e = c")
      case False
      then show ?thesis using l by (simp add: live_entry_def conns)
    next
      case True
      then have k: "fst e = conn_uniqueId ?s" "\<not> conn_over ?s" "c < length (ut_conns u)"
        using l by (simp_all add: live_entry_def)
      have "conn_uniqueId t = conn_uniqueId ?s"
        using h by (intro conn_uniqueId_cong) (simp_all add: conn_hist_def)
      moreover have "\<not> conn_over t"
      proof
        assume "conn_over t"
        then have "EvRemoveConn (conn_uniqueId ?s) \<in> set es" using h k(2) by (simp add: conn_hist_def)
        then show False using e k(1) by (simp add: tab jm_del_filter)
      qed
      moreover have "cn_remoteAddr t = cn_remoteAddr ?s" using h by (simp add: conn_hist_def)
      ultimately show ?thesis using l True k by (simp add: live_entry_def conns)
    qed
  qed
  moreover have "same_conn (ut_conns u ! d) (ut_conns (fst y) ! d)" if "d < length (ut_conns u)" for d
    using that hist_same_conn [OF h] by (cases "d = c") (simp_all add: conns same_conn_def)
  moreover have "list_all conn_parts_ok (ut_conns (fst y))" if "list_all conn_parts_ok (ut_conns u)"
    using that k unfolding conns keeps_def
    by (cases "c < length (ut_conns u)")
      (auto simp: list_all_iff set_conv_nth nth_list_update)
  moreover have "utp_isClosed (fst y) \<and> list_all (\<lambda>e. \<not> is_udpSend e) (snd y)" if "utp_isClosed u"
    using that absorb_closed [of w c es] by (simp add: y_def utp_isClosed_def absorb_frame w_def)
  ultimately show ?thesis by (simp add: utp_hist_def conns)
qed

lemma utp_hist_new:
  fixes u :: utp
  assumes "st = CS_SYN_SENT \<or> st = CS_SYN_RECV" "isValidHostname (ua_hostname addr)"
    "s = fst (conn_new env st addr sendId recvId seqNr ackNr)"
  defines "v \<equiv> u\<lparr>ut_conns := ut_conns u @ [s], ut_connTable := jm_set (conn_uniqueId s) (length (ut_conns u)) (ut_connTable u)\<rparr>"
  shows "utp_hist u [] v"
proof -
  have s: "\<not> conn_over s" "cn_remoteAddr s = addr" "conn_parts_ok s"
    using assms(1) conn_new_ok(1) [of env st addr sendId recvId seqNr ackNr]
    by (auto simp: assms(3) conn_over_def) (auto simp: conn_new_def Let_def)
  have "table_ok v" if ok: "table_ok u"
    unfolding table_ok_def
  proof (intro conjI ballI)
    show "jm_wf (ut_connTable v)" using ok by (simp add: v_def table_ok_def)
    fix e assume "e \<in> set (ut_connTable v)"
    then have "e = (conn_uniqueId s, length (ut_conns u)) \<or> e \<in> set (ut_connTable u)"
      using jm_set_subset [of "conn_uniqueId s" "length (ut_conns u)" "ut_connTable u"] by (auto simp: v_def)
    then show "live_entry v e"
      using ok s assms(2) by (auto simp: table_ok_def live_entry_def v_def nth_append)
  qed
  then show ?thesis using s by (simp add: utp_hist_def v_def same_conn_def nth_append utp_isClosed_def)
qed

lemma hist_methods:
  "obeys (\<lambda>s es t. conn_hist s es t \<and> keeps s t) m \<longleftrightarrow> obeys conn_hist m \<and> kept m"
  by (auto simp: obeys_def obeys_at_def)

interpretation sock: socket_steps utp_hist "\<lambda>s es t. conn_hist s es t \<and> keeps s t"
proof (unfold_locales, goal_cases)
  case 1 show ?case by (rule utp_hist_refl)
next
  case 2 then show ?case by (rule utp_hist_trans)
next
  case 9 then show ?case using utp_hist_conn by blast
next
  case 10 then show ?case by (rule utp_hist_new)
qed (simp_all add: hist_methods obeys_do kept.every_do obeys_close kept.all_close obeys_reset kept.all_reset obeys_timeoutCheck
    kept.all_timeoutCheck obeys_handleIncomingPacket kept.all_handleIncomingPacket kept.all_waitForConnecting
    calm_obeys_all [OF calm_waitForConnecting] utp_hist_def table_ok_def live_entry_def same_conn_def utp_isClosed_def)

lemmas utp_run_hist = sock.all_run

lemma new_table_ok: "table_ok utp_new"
  by (simp add: table_ok_def utp_new_def)

lemma run_table_ok: "utp_run utp_new es u \<Longrightarrow> table_ok u"
  using utp_run_hist new_table_ok by (auto simp: utp_hist_def)

text \<open>
  C26. A closed socket is closed for good and silent: whatever is called on it or on its connections,
  and whatever arrives, it sends no datagram.
\<close>

theorem closed_socket_silent:
  assumes "utp_run u es v" "ut_state u = US_CLOSED"
  shows "ut_state v = US_CLOSED \<and> (\<forall>b a. UdpSend b a \<notin> set es)"
proof -
  have h: "utp_isClosed v \<and> list_all (\<lambda>e. \<not> is_udpSend e) es"
    using utp_run_hist [OF assms(1)] assms(2) by (simp add: utp_hist_def utp_isClosed_def)
  have "UdpSend b a \<notin> set es" for b a
    using h by (auto simp: list_all_iff dest!: bspec [of "set es" _ "UdpSend b a"])
  then show ?thesis using h by (simp add: utp_isClosed_def)
qed

definition closed_utp :: utp where
  "closed_utp = utp_new\<lparr>ut_state := US_CLOSED, ut_conns := [sample_conn]\<rparr>"

theorem closed_socket_silent_witness:
  "ut_state (final (utp_do (OpConn sample_env 0 (CallWrite [1])) closed_utp)) = US_CLOSED
   \<and> UdpSend [1] sample_addr \<notin> set (events (utp_do (OpConn sample_env 0 (CallWrite [1])) closed_utp))"
  using closed_socket_silent [OF utp_run_once, of closed_utp "OpConn sample_env 0 (CallWrite [1])"]
  by (simp add: closed_utp_def)

end
