(* ===== verification/SocketAccept.thy ===== *)
theory SocketAccept imports SocketTable begin

text \<open>New connections: what \<open>connectTo\<close> leaves in the store and the table, and what a SYN does.\<close>

text \<open>A connection that was opened, and the packet that opens it.\<close>

definition opened :: "conn_state \<Rightarrow> utp_addr \<Rightarrow> int \<Rightarrow> int \<Rightarrow> int \<Rightarrow> int \<Rightarrow> conn \<Rightarrow> bool" where
  "opened st a sendId recvId seqNr ackNr s \<longleftrightarrow>
     cn_state s = st \<and> cn_remoteAddr s = a \<and> cn_sendId s = sendId \<and> cn_recvId s = recvId
     \<and> cn_seqNr s = (if st = CS_SYN_SENT then seq_add seqNr 1 else seqNr) \<and> cn_ackNr s = ackNr
     \<and> cn_isInitiator s = (st = CS_SYN_SENT) \<and> cn_remoteFin s = None \<and> cn_localFin s = None
     \<and> cn_recvQueue s = cq_new (if st = CS_SYN_SENT then 8192 else 4096)
     \<and> cn_recvBuffer s = bb_new bb_defaultMaxBytes \<and> cn_sendWindow s = sw_new"

definition open_pkt :: "conn_state \<Rightarrow> int \<Rightarrow> int \<Rightarrow> int \<Rightarrow> int \<Rightarrow> packet \<Rightarrow> bool" where
  "open_pkt st sendId recvId seqNr ackNr p \<longleftrightarrow>
     pk_type p = (if st = CS_SYN_SENT then ST_SYN else ST_STATE) \<and> pk_version p = 1
     \<and> pk_connId p = (if st = CS_SYN_SENT then recvId else sendId) \<and> pk_seqNr p = seqNr
     \<and> pk_ackNr p = (if st = CS_SYN_SENT then 0 else ackNr)
     \<and> pk_extension p = (if st = CS_SYN_SENT then 2 else 0)
     \<and> pk_extensions p = (if st = CS_SYN_SENT then [extBits_create] else []) \<and> pk_data p = None"

lemma connectTo_parts:
  fixes env :: env and a :: utp_addr and sendId recvId seqNr ackNr :: int and u :: utp
  assumes "st = CS_SYN_SENT \<or> st = CS_SYN_RECV"
  defines "x \<equiv> utp_connectTo env st a sendId recvId seqNr ackNr u"
  shows "\<exists>s p. ut_conns (final x) = ut_conns u @ [s] \<and> opened st a sendId recvId seqNr ackNr s
      \<and> ut_connTable (final x) = jm_set (generateUniqueId a sendId recvId) (length (ut_conns u)) (ut_connTable u)
      \<and> ut_state (final x) = ut_state u \<and> ut_udpSocket (final x) = ut_udpSocket u \<and> open_pkt st sendId recvId seqNr ackNr p
      \<and> events x = (if utp_isClosed u then [] else [UdpSend (packet_toBytes p) a])
      \<and> result x \<in> {Inr (length (ut_conns u))} \<union> range Inl
      \<and> (result x = Inr (length (ut_conns u)) \<longrightarrow> cn_listeners s = [length (ut_conns u)])"
proof -
  let ?c = "length (ut_conns u)"
  obtain s0 es where n: "conn_new env st a sendId recvId seqNr ackNr = (s0, es)" by fastforce
  then have s0: "cn_state s0 = st" "cn_remoteAddr s0 = a" "cn_sendId s0 = sendId" "cn_recvId s0 = recvId"
    "cn_isInitiator s0 = (st = CS_SYN_SENT)" "es = [EvAddConn (conn_uniqueId s0)]"
    by (auto simp: conn_new_def Let_def)
  have s0': "cn_seqNr s0 = seqNr" "cn_ackNr s0 = ackNr" "cn_remoteFin s0 = None" "cn_localFin s0 = None"
    "cn_recvQueue s0 = cq_new (if st = CS_SYN_SENT then 8192 else 4096)"
    "cn_recvBuffer s0 = bb_new bb_defaultMaxBytes" "cn_sendWindow s0 = sw_new"
    using n by (auto simp: conn_new_def Let_def MAX_RECV_QUEUE_SIZE_def MIN_RECV_QUEUE_SIZE_def)
  define v where "v = u\<lparr>ut_conns := ut_conns u @ [s0], ut_connTable := jm_set (conn_uniqueId s0) ?c (ut_connTable u)\<rparr>"
  have abs1: "absorb ?c es (u\<lparr>ut_conns := ut_conns u @ [s0]\<rparr>) = (v, [])"
    by (simp add: s0(6) absorb_Cons absorb_Nil absorbOne_def utp_addConn_def v_def)
  define e where "e = conn_env env v"
  define y where "y = waitForConnecting e ?c s0"
  define p where "p = (if cn_isInitiator s0 then createSynPacket e s0 else createAckPacket e None s0)"
  have ok: "cn_state s0 = CS_SYN_RECV \<and> \<not> cn_isInitiator s0 \<or> cn_state s0 = CS_SYN_SENT \<and> cn_isInitiator s0"
    using assms(1) s0 by auto
  note y = waitForConnecting_final [OF ok, of e ?c, folded p_def, folded y_def]
  define w where "w = v\<lparr>ut_conns := ut_conns u @ [final y]\<rparr>"
  have on: "onConn env ?c (\<lambda>e. waitForConnecting e ?c) v
      = (fst (utp_sendUtpPacket p a w), snd (utp_sendUtpPacket p a w), result y)"
  proof -
    have "ut_conns v ! ?c = s0" "(ut_conns v)[?c := final y] = ut_conns u @ [final y]" by (simp_all add: v_def)
    then show ?thesis
      using y(1) s0(2) by (simp add: onConn_def Let_def e_def [symmetric] y_def [symmetric] absorb_Cons absorb_Nil
          absorbOne_def w_def split_beta)
  qed
  have acc: "\<not> accepted_by ?c (events (waitForConnecting (conn_env env v) ?c (ut_conns v ! ?c))) (ut_conns v ! ?c)"
    using y(1) by (simp add: accepted_by_def v_def y_def e_def)
  have run: "final (runConn env ?c (\<lambda>e. waitForConnecting e ?c) v) = fst (utp_sendUtpPacket p a w)"
    "events (runConn env ?c (\<lambda>e. waitForConnecting e ?c) v) = snd (utp_sendUtpPacket p a w)"
    "result (runConn env ?c (\<lambda>e. waitForConnecting e ?c) v) = result y"
    using acc by (simp_all add: runConn_def eff_parts on split: sum.splits)
  have x: "final x = fst (utp_sendUtpPacket p a w)" "events x = snd (utp_sendUtpPacket p a w)"
    "result x \<in> {Inr ?c} \<union> range Inl" "result x = Inr ?c \<longrightarrow> result y = Inr ()"
    by (auto simp: x_def utp_connectTo_def eff_parts n abs1 run split: sum.splits)
  have "open_pkt st sendId recvId seqNr ackNr p"
    using assms(1) s0 s0' by (auto simp: open_pkt_def p_def createSynPacket_def createAckPacket_def packet_blank_def)
  moreover have "opened st a sendId recvId seqNr ackNr (final y)"
    using assms(1) s0 s0' by (auto simp: opened_def y(3) set_localSeqNr_def seq_add_def)
  moreover have "ut_conns (final x) = ut_conns u @ [final y]" "ut_state (final x) = ut_state u"
    "ut_udpSocket (final x) = ut_udpSocket u"
    "ut_connTable (final x) = jm_set (conn_uniqueId s0) ?c (ut_connTable u)"
    "events x = (if utp_isClosed u then [] else [UdpSend (packet_toBytes p) a])"
    by (simp_all add: x utp_sendUtpPacket_def Let_def w_def v_def utp_isClosed_def)
  moreover have "conn_uniqueId s0 = generateUniqueId a sendId recvId" using s0 by (simp add: conn_uniqueId_def)
  moreover have "result x = Inr ?c \<longrightarrow> cn_listeners (final y) = [?c]"
    using x(4) n y(2) by (auto simp: y(3) conn_new_def Let_def split: sum.splits)
  ultimately show ?thesis
    using x(3) by (intro exI [of _ "final y"] exI [of _ p]) simp
qed

lemma dispatch_syn:
  fixes env :: env and random :: int and u :: utp
  assumes "packet_isPacket b = Inr True" "packet_fromBytes b = Inr p" "pk_type p = ST_SYN" "addr_fromDenoAddr d = Inr a"
    and "ut_state u \<noteq> US_CLOSED"
  defines "k \<equiv> generateUniqueId a (pk_connId p) (pk_connId p + 1)"
  defines "x \<equiv> utp_dispatch env random b d u"
  shows "result x = Inr ()
    \<and> (if utp_hasConn k u then ut_conns (final x) = ut_conns u \<and> ut_connTable (final x) = ut_connTable u \<and> events x = []
       else (\<exists>s q. ut_conns (final x) = ut_conns u @ [s]
              \<and> opened CS_SYN_RECV a (pk_connId p) (pk_connId p + 1) random (pk_seqNr p) s
              \<and> utp_findConn k (final x) = Some (length (ut_conns u))
              \<and> open_pkt CS_SYN_RECV (pk_connId p) (pk_connId p + 1) random (pk_seqNr p) q
              \<and> events x = [UdpSend (packet_toBytes q) a]))"
proof -
  define u1 where "u1 = u\<lparr>ut_utpPacketReceived := ut_utpPacketReceived u + 1\<rparr>"
  have x: "final x = final (utp_acceptSyn env random p a u1)" "events x = events (utp_acceptSyn env random p a u1)"
    "result x = result (utp_acceptSyn env random p a u1)"
    using assms(1-4) by (simp_all add: x_def utp_dispatch_def eff_parts u1_def)
  show ?thesis
  proof (cases "utp_hasConn k u")
    case True
    then have "utp_hasConn k u1" by (simp add: utp_hasConn_def u1_def)
    then show ?thesis using True by (simp add: x utp_acceptSyn_def Let_def k_def u1_def)
  next
    case False
    then have n: "\<not> utp_hasConn k u1" by (simp add: utp_hasConn_def u1_def)
    let ?y = "utp_connectTo env CS_SYN_RECV a (pk_connId p) (pk_connId p + 1) random (pk_seqNr p) u1"
    have y: "final x = final ?y" "events x = events ?y" "result x = Inr ()"
      using n by (auto simp: x utp_acceptSyn_def Let_def k_def eff_parts split: sum.splits)
    obtain s q where s: "ut_conns (final ?y) = ut_conns u1 @ [s]"
      "opened CS_SYN_RECV a (pk_connId p) (pk_connId p + 1) random (pk_seqNr p) s"
      "ut_connTable (final ?y) = jm_set k (length (ut_conns u1)) (ut_connTable u1)"
      "open_pkt CS_SYN_RECV (pk_connId p) (pk_connId p + 1) random (pk_seqNr p) q"
      "events ?y = (if utp_isClosed u1 then [] else [UdpSend (packet_toBytes q) a])"
      using connectTo_parts [of CS_SYN_RECV env a "pk_connId p" "pk_connId p + 1" random "pk_seqNr p" u1]
      unfolding k_def by auto
    have "utp_findConn k (final x) = Some (length (ut_conns u))"
      by (simp add: utp_findConn_def y s(3) jm_get_set) (simp add: u1_def)
    then show ?thesis
      using False s assms(5) y by (simp add: u1_def utp_isClosed_def) blast
  qed
qed

text \<open>
  C24. A SYN makes one connection. Dispatching a SYN from an address to an open socket adds exactly one
  connection, in the state SYN-RECV, with the id of the packet to send, one more to receive, and the
  number of the packet as acknowledged, enters it in the table under its identifier, and answers with
  one datagram, an acknowledgement; a repeated SYN, whose identifier is in the table, adds nothing and
  sends nothing.
\<close>

theorem syn_makes_one_connection:
  fixes env :: env and random :: int and u :: utp
  assumes "packet_isPacket b = Inr True" "packet_fromBytes b = Inr p" "pk_type p = ST_SYN" "addr_fromDenoAddr d = Inr a"
    and "ut_state u \<noteq> US_CLOSED"
  defines "k \<equiv> generateUniqueId a (pk_connId p) (pk_connId p + 1)"
  defines "x \<equiv> utp_dispatch env random b d u"
  shows "result x = Inr ()
    \<and> (if utp_hasConn k u then ut_conns (final x) = ut_conns u \<and> ut_connTable (final x) = ut_connTable u \<and> events x = []
       else (\<exists>s q. ut_conns (final x) = ut_conns u @ [s] \<and> cn_state s = CS_SYN_RECV \<and> cn_remoteAddr s = a
              \<and> cn_sendId s = pk_connId p \<and> cn_recvId s = pk_connId p + 1 \<and> cn_ackNr s = pk_seqNr p
              \<and> utp_findConn k (final x) = Some (length (ut_conns u))
              \<and> pk_type q = ST_STATE \<and> events x = [UdpSend (packet_toBytes q) a]))"
proof (cases "utp_hasConn k u")
  case True
  then show ?thesis using dispatch_syn [OF assms(1-5), of env random] by (simp add: k_def x_def)
next
  case False
  then obtain s q where "ut_conns (final x) = ut_conns u @ [s]" "utp_findConn k (final x) = Some (length (ut_conns u))"
    "opened CS_SYN_RECV a (pk_connId p) (pk_connId p + 1) random (pk_seqNr p) s"
    "open_pkt CS_SYN_RECV (pk_connId p) (pk_connId p + 1) random (pk_seqNr p) q"
    "events x = [UdpSend (packet_toBytes q) a]" "result x = Inr ()"
    using dispatch_syn [OF assms(1-5), of env random] by (auto simp: k_def x_def)
  then show ?thesis using False by (auto simp: opened_def open_pkt_def)
qed

text \<open>The sample packet as a SYN.\<close>

definition sample_syn :: packet where
  "sample_syn = sample_packet\<lparr>pk_type := ST_SYN\<rparr>"

lemma sample_syn_wire:
  "packet_isPacket (packet_toBytes sample_syn) = Inr True"
  "packet_fromBytes (packet_toBytes sample_syn) = Inr (packet_wire sample_syn)"
  "pk_type (packet_wire sample_syn) = ST_SYN" "pk_connId (packet_wire sample_syn) = 65535"
proof -
  have e: "packet_encodable sample_syn"
    by (simp add: packet_encodable_def sample_syn_def sample_packet_def ext_ok_def)
  show p: "packet_fromBytes (packet_toBytes sample_syn) = Inr (packet_wire sample_syn)"
    by (rule packet_fromBytes_toBytes [OF e])
  have w: "pk_type (packet_wire sample_syn) = ST_SYN" "pk_version (packet_wire sample_syn) = 1"
    "pk_connId (packet_wire sample_syn) = 65535"
    by (simp_all add: packet_wire_def sample_syn_def sample_packet_def ST_SYN_def)
  then show "pk_type (packet_wire sample_syn) = ST_SYN" "pk_connId (packet_wire sample_syn) = 65535" by simp_all
  have "length (packet_toBytes sample_syn) = 38"
    by (simp add: length_packet_toBytes packet_length_def packet_sizes sample_syn_def sample_packet_def)
  then show "packet_isPacket (packet_toBytes sample_syn) = Inr True"
    using w by (simp add: packet_isPacket_decoded [OF p])
qed

theorem syn_makes_one_connection_witness:
  "\<exists>s. ut_conns (final (utp_dispatch sample_env 5 (packet_toBytes sample_syn) (NetAddr 80 ''localhost'') utp_new)) = [s]
     \<and> cn_state s = CS_SYN_RECV \<and> cn_recvId s = 65536"
proof -
  have a: "addr_fromDenoAddr (NetAddr 80 ''localhost'') = Inr \<lparr>ua_port = 80, ua_hostname = ''localhost''\<rparr>"
    by (simp add: addr_fromDenoAddr_def addr_create_def isValidHostname_def)
  have n: "\<not> utp_hasConn k utp_new" for k by (simp add: utp_hasConn_def utp_new_def jm_has_def)
  show ?thesis
    using syn_makes_one_connection [where env = sample_env and random = 5, OF sample_syn_wire(1-3) a, of utp_new] sample_syn_wire(4) n
    by (auto simp: utp_new_def)
qed

end
