(* ===== verification/SocketRoute.thy ===== *)
theory SocketRoute imports SocketAccept begin

text \<open>Whom a packet reaches: the table over any run of the socket, the routing of packets, and their isolation.\<close>

subsection \<open>A socket with one connection\<close>

definition sample_local :: deno_addr where
  "sample_local = NetAddr 9 ''localhost''"

definition sample_op :: utp_op where
  "sample_op = OpConnect sample_env (Inr sample_local) 6 80 ''localhost''"

definition sample_utp :: utp where
  "sample_utp = final (utp_do sample_op utp_new)"

lemma sample_utp_run: "utp_run utp_new (events (utp_do sample_op utp_new)) sample_utp"
  unfolding sample_utp_def by (rule utp_run_once)

lemma sample_hosts:
  "addr_create 80 ''localhost'' = Inr \<lparr>ua_port = 80, ua_hostname = ''localhost''\<rparr>"
  "addr_create 9 ''localhost'' = Inr \<lparr>ua_port = 9, ua_hostname = ''localhost''\<rparr>"
  by (simp_all add: addr_create_def isValidHostname_def)

lemma sample_utp_parts:
  "\<exists>s. ut_conns sample_utp = [s] \<and> cn_sendId s = 7 \<and> cn_recvId s = 6
     \<and> cn_remoteAddr s = \<lparr>ua_port = 80, ua_hostname = ''localhost''\<rparr>
     \<and> cn_state s = CS_SYN_SENT \<and> cn_localFin s = None \<and> cn_sendWindow s = sw_new
     \<and> ut_state sample_utp = US_ACTIVE \<and> ut_udpSocket sample_utp
     \<and> ut_connTable sample_utp = [(generateUniqueId \<lparr>ua_port = 80, ua_hostname = ''localhost''\<rparr> 7 6, 0)]"
proof -
  let ?a = "\<lparr>ua_port = 80, ua_hostname = ''localhost''\<rparr>"
  let ?u = "utp_new\<lparr>ut_udpSocket := True, ut_timer := True\<rparr>"
  let ?x = "utp_connectTo sample_env CS_SYN_SENT ?a (6 + 1) 6 1 0 ?u"
  have "sample_utp = final ?x"
    by (auto simp: sample_utp_def sample_op_def sample_local_def utp_connect_def utp_createUdpSocketIfNone_def
        eff_parts addr_fromDenoAddr_def sample_hosts utp_new_def split: sum.splits)
  then show ?thesis
    using connectTo_parts [of CS_SYN_SENT sample_env ?a "6 + 1" 6 1 0 ?u] by (auto simp: opened_def utp_new_def jm_set_def)
qed

text \<open>
  C17. The table of connections. After any sequence of operations on a socket, each entry of the table
  names a connection of the store that has exactly the identifier of the entry, is neither CLOSED nor
  RESET, and has a valid remote address, and no identifier occurs twice. The parts of every connection
  ever made (queue, buffer, send window, counters) are well formed.
\<close>

theorem socket_table_sound:
  assumes "utp_run utp_new es u"
  shows "distinct (map fst (ut_connTable u))
    \<and> (\<forall>(k, c) \<in> set (ut_connTable u). c < length (ut_conns u) \<and> conn_uniqueId (ut_conns u ! c) = k
         \<and> cn_state (ut_conns u ! c) \<notin> {CS_CLOSED, CS_RESET}
         \<and> isValidHostname (ua_hostname (cn_remoteAddr (ut_conns u ! c))))
    \<and> (\<forall>s \<in> set (ut_conns u). conn_parts_ok s)"
proof -
  have "list_all conn_parts_ok (ut_conns utp_new)" by (simp add: utp_new_def)
  then have "list_all conn_parts_ok (ut_conns u)" using utp_run_hist [OF assms] by (simp add: utp_hist_def)
  moreover have "table_ok u" using utp_run_hist [OF assms] new_table_ok by (simp add: utp_hist_def)
  ultimately show ?thesis
    by (auto simp: table_ok_def live_entry_def jm_wf_def jm_keys_def conn_over_def list_all_iff)
qed

theorem socket_table_sound_witness:
  "distinct (map fst (ut_connTable sample_utp)) \<and> length (ut_connTable sample_utp) = 1
   \<and> cn_state (ut_conns sample_utp ! 0) \<notin> {CS_CLOSED, CS_RESET}"
  using socket_table_sound [OF sample_utp_run] sample_utp_parts by auto

subsection \<open>Whom a packet reaches\<close>

lemma wf_entry: "jm_wf m \<Longrightarrow> jm_get m k = Some v \<longleftrightarrow> (k, v) \<in> set m"
  by (simp add: jm_get_def jm_wf_def jm_keys_def map_of_eq_Some_iff)

lemma targets_iff:
  assumes ok: "table_ok u" and valid: "isValidHostname (ua_hostname a)"
  shows "c \<in> set (targetConns a p u) \<longleftrightarrow>
    c \<in> set (map snd (ut_connTable u)) \<and> cn_remoteAddr (ut_conns u ! c) = a
    \<and> cn_recvId (ut_conns u ! c) = pk_connId p
    \<and> cn_sendId (ut_conns u ! c) \<in> {pk_connId p + 1, pk_connId p - 1}"
proof -
  have found: "utp_findConn (generateUniqueId a s r) u = Some c \<longleftrightarrow>
      c \<in> set (map snd (ut_connTable u)) \<and> cn_remoteAddr (ut_conns u ! c) = a
      \<and> cn_recvId (ut_conns u ! c) = r \<and> cn_sendId (ut_conns u ! c) = s" for s r
  proof -
    have "(generateUniqueId a s r, c) \<in> set (ut_connTable u) \<longleftrightarrow>
      (\<exists>k. (k, c) \<in> set (ut_connTable u) \<and> k = generateUniqueId a s r)" by blast
    also have "\<dots> \<longleftrightarrow> (\<exists>k. (k, c) \<in> set (ut_connTable u) \<and> cn_remoteAddr (ut_conns u ! c) = a
      \<and> cn_recvId (ut_conns u ! c) = r \<and> cn_sendId (ut_conns u ! c) = s)"
    proof (intro ex_cong1 conj_cong refl)
      fix k assume "(k, c) \<in> set (ut_connTable u)"
      then have "live_entry u (k, c)" using ok by (simp add: table_ok_def)
      then have k: "k = generateUniqueId (cn_remoteAddr (ut_conns u ! c)) (cn_sendId (ut_conns u ! c)) (cn_recvId (ut_conns u ! c))"
        "isValidHostname (ua_hostname (cn_remoteAddr (ut_conns u ! c)))"
        by (simp_all add: live_entry_def conn_uniqueId_def)
      show "k = generateUniqueId a s r \<longleftrightarrow> cn_remoteAddr (ut_conns u ! c) = a
        \<and> cn_recvId (ut_conns u ! c) = r \<and> cn_sendId (ut_conns u ! c) = s"
        unfolding k(1) generateUniqueId_inj [OF k(2) valid] by blast
    qed
    finally have "(generateUniqueId a s r, c) \<in> set (ut_connTable u) \<longleftrightarrow>
      (\<exists>k. (k, c) \<in> set (ut_connTable u)) \<and> cn_remoteAddr (ut_conns u ! c) = a
      \<and> cn_recvId (ut_conns u ! c) = r \<and> cn_sendId (ut_conns u ! c) = s" by blast
    moreover have "c \<in> set (map snd (ut_connTable u)) \<longleftrightarrow> (\<exists>k. (k, c) \<in> set (ut_connTable u))" by force
    ultimately show ?thesis
      using wf_entry [of "ut_connTable u" "generateUniqueId a s r" c] ok
      unfolding utp_findConn_def table_ok_def by blast
  qed
  have "c \<in> set (targetConns a p u) \<longleftrightarrow>
      utp_findConn (generateUniqueId a (pk_connId p + 1) (pk_connId p)) u = Some c
      \<or> utp_findConn (generateUniqueId a (pk_connId p - 1) (pk_connId p)) u = Some c"
    by (auto simp: targetConns_def Let_def List.map_filter_simps split: option.splits)
  then show ?thesis unfolding found by blast
qed

text \<open>
  C16. Routing. For a packet that is not a SYN from a valid address, the connections \<open>dispatch\<close> finds
  by looking up two identifiers in its table are exactly the live connections with this remote
  address whose receive id is the id of the packet and whose send id is one more or one less.
\<close>

theorem dispatch_routes:
  assumes "utp_run utp_new es u" "addr_fromDenoAddr d = Inr a"
  shows "c \<in> set (targetConns a p u) \<longleftrightarrow>
    c \<in> set (map snd (ut_connTable u)) \<and> cn_remoteAddr (ut_conns u ! c) = a
    \<and> cn_recvId (ut_conns u ! c) = pk_connId p
    \<and> cn_sendId (ut_conns u ! c) \<in> {pk_connId p + 1, pk_connId p - 1}"
  by (rule targets_iff [OF run_table_ok [OF assms(1)] valid_addr(1) [OF assms(2)]])

theorem dispatch_routes_witness:
  "0 \<in> set (targetConns \<lparr>ua_port = 80, ua_hostname = ''localhost''\<rparr> (packet_blank\<lparr>pk_connId := 6\<rparr>) sample_utp)
   \<and> 0 \<notin> set (targetConns \<lparr>ua_port = 80, ua_hostname = ''localhost''\<rparr> (packet_blank\<lparr>pk_connId := 5\<rparr>) sample_utp)"
  using dispatch_routes [OF sample_utp_run, of "NetAddr 80 ''localhost''"] sample_utp_parts
  by (auto simp: addr_fromDenoAddr_def sample_hosts)

text \<open>The connections outside a set stay as they are.\<close>

definition untouched :: "nat set \<Rightarrow> utp \<Rightarrow> utp \<Rightarrow> bool" where
  "untouched D u v \<longleftrightarrow> length (ut_conns v) = length (ut_conns u) \<and> (\<forall>c. c \<notin> D \<longrightarrow> ut_conns v ! c = ut_conns u ! c)"

interpretation untouched: preorder_rel "untouched D" for D
  by unfold_locales (simp_all add: untouched_def)

lemma onConn_untouched: "c \<in> D \<Longrightarrow> obeys (\<lambda>u es v. untouched D u v) (onConn env c m)"
  by (rule obeysI)
    (auto simp: obeys_at_def onConn_def Let_def split_beta untouched_def absorb_frame intro!: nth_list_update_neq)

lemma modify_untouched: "(\<And>u. ut_conns (f u) = ut_conns u) \<Longrightarrow> obeys (\<lambda>u es v. untouched D u v) (eff_modify f)"
  by (rule untouched.obeys_steps) (simp add: untouched_def)

lemma emit_untouched: "obeys (\<lambda>u es v. untouched D u v) (eff_emit es)"
  by (rule untouched.obeys_steps) (simp add: untouched_def)

lemma closeConn_untouched: "c \<in> D \<Longrightarrow> obeys (\<lambda>u es v. untouched D u v) (closeConn env c)"
  unfolding closeConn_def by (intro untouched.obeys_intros emit_untouched onConn_untouched)

lemma addConnection_untouched:
  assumes "c \<in> D" shows "obeys (\<lambda>u es v. untouched D u v) (utp_addConnection env c)"
proof -
  have o: "obeys (\<lambda>u es v. untouched D u v) (ofListener env e)" if "e \<in> set (snd (li_addConnection c l))" for e l
    using that assms
    by (auto simp: li_addConnection_def Let_def closeConn_untouched emit_untouched split: if_splits option.splits)
  have "obeys (\<lambda>u es v. untouched D u v) (eff_forEach (ofListener env) (snd (li_addConnection c l)))" for l
    by (intro untouched.forEach_elem obeys_at o)
  then have "obeys (\<lambda>u es v. untouched D u v) (eff_then (eff_modify (\<lambda>u. u\<lparr>ut_listener := l'\<rparr>))
      (eff_forEach (ofListener env) (snd (li_addConnection c l))))" for l l'
    by (intro untouched.obeys_then modify_untouched) simp_all
  then show ?thesis
    unfolding utp_addConnection_def by (intro obeysI untouched.at_control(2)) (simp add: split_beta obeys_at)
qed

lemma runConn_untouched: "c \<in> D \<Longrightarrow> obeys (\<lambda>u es v. untouched D u v) (runConn env c m)"
  unfolding runConn_def
  by (intro untouched.obeys_intros onConn_untouched addConnection_untouched)
    (auto intro: untouched.obeys_intros split: sum.split)

lemma deliver_untouched: "set cs \<subseteq> D \<Longrightarrow> obeys (\<lambda>u es v. untouched D u v) (utp_deliver env p cs)"
  by (induction cs) (auto intro!: untouched.obeys_intros runConn_untouched)

text \<open>
  C25. Isolation. Handling a datagram that is not a SYN changes no connection other than those it is
  addressed to: those in the table with its sender as remote address, its id as receive id, and a send
  id one more or one less.
\<close>

theorem dispatch_isolated:
  assumes "utp_run utp_new es u" "addr_fromDenoAddr d = Inr a" "packet_fromBytes b = Inr p" "pk_type p \<noteq> ST_SYN"
    and "\<not> (c \<in> set (map snd (ut_connTable u)) \<and> cn_remoteAddr (ut_conns u ! c) = a
      \<and> cn_recvId (ut_conns u ! c) = pk_connId p
      \<and> cn_sendId (ut_conns u ! c) \<in> {pk_connId p + 1, pk_connId p - 1})"
  shows "ut_conns (final (utp_dispatch env random b d u)) ! c = ut_conns u ! c"
proof -
  let ?D = "set (targetConns a p u)"
  have c: "c \<notin> ?D" using assms(5) targets_iff [OF run_table_ok [OF assms(1)] valid_addr(1) [OF assms(2)]] by blast
  have t: "targetConns a p (u\<lparr>ut_utpPacketReceived := n\<rparr>) = targetConns a p u" for n
    by (simp add: targetConns_def utp_findConn_def)
  have "obeys_at (\<lambda>u es v. untouched ?D u v) (utp_dispatch env random b d) u"
    unfolding utp_dispatch_def
    by (auto simp: assms(2-4) t split: sum.split bool.split
        intro!: untouched.at_simple untouched.at_then untouched.at_control(2) obeys_at [OF modify_untouched]
          obeys_at [OF deliver_untouched])
  then show ?thesis using c by (simp add: obeys_at_def untouched_def)
qed

text \<open>A reset with the id of no connection of the sample.\<close>

definition stray_packet :: packet where
  "stray_packet = sample_packet\<lparr>pk_type := ST_RESET\<rparr>"

theorem dispatch_isolated_witness:
  "ut_conns (final (utp_dispatch sample_env 1 (packet_toBytes stray_packet) (NetAddr 80 ''localhost'') sample_utp)) ! 0
    = ut_conns sample_utp ! 0"
proof (rule dispatch_isolated [OF sample_utp_run])
  show "addr_fromDenoAddr (NetAddr 80 ''localhost'') = Inr \<lparr>ua_port = 80, ua_hostname = ''localhost''\<rparr>"
    by (simp add: addr_fromDenoAddr_def sample_hosts)
  have "packet_encodable stray_packet"
    by (simp add: packet_encodable_def stray_packet_def sample_packet_def ext_ok_def)
  then show "packet_fromBytes (packet_toBytes stray_packet) = Inr (packet_wire stray_packet)"
    using packet_fromBytes_toBytes by blast
  show "pk_type (packet_wire stray_packet) \<noteq> ST_SYN"
    by (simp add: packet_wire_def stray_packet_def ST_RESET_def ST_SYN_def)
  have "pk_connId (packet_wire stray_packet) = 65535"
    by (simp add: packet_wire_def stray_packet_def sample_packet_def)
  then show "\<not> (0 \<in> set (map snd (ut_connTable sample_utp)) \<and> cn_remoteAddr (ut_conns sample_utp ! 0) = \<lparr>ua_port = 80, ua_hostname = ''localhost''\<rparr>
      \<and> cn_recvId (ut_conns sample_utp ! 0) = pk_connId (packet_wire stray_packet)
      \<and> cn_sendId (ut_conns sample_utp ! 0) \<in> {pk_connId (packet_wire stray_packet) + 1, pk_connId (packet_wire stray_packet) - 1})"
    using sample_utp_parts by auto
qed

subsection \<open>Packets that reach nobody, or end the loop\<close>

text \<open>
  C34. The last connection id. A SYN with the id 65535 makes a connection that receives under 65536,
  which is the id of no packet that decodes: afterwards no datagram that decodes, from any address,
  is routed to it.
\<close>

theorem syn_65535_unreachable:
  fixes env :: env and random :: int
  assumes "utp_run utp_new es u" "ut_state u \<noteq> US_CLOSED"
    and "packet_isPacket b = Inr True" "packet_fromBytes b = Inr p" "pk_type p = ST_SYN" "pk_connId p = 65535"
    and "addr_fromDenoAddr d = Inr a" "\<not> utp_hasConn (generateUniqueId a 65535 65536) u"
    and "packet_fromBytes b' = Inr q" "addr_fromDenoAddr d' = Inr a'"
  defines "v \<equiv> final (utp_dispatch env random b d u)"
  shows "length (ut_conns v) = length (ut_conns u) + 1 \<and> cn_recvId (ut_conns v ! length (ut_conns u)) = 65536
    \<and> length (ut_conns u) \<notin> set (targetConns a' q v)"
proof -
  obtain s where s: "ut_conns v = ut_conns u @ [s]" "cn_recvId s = 65536"
    using dispatch_syn [where env = env and random = random, OF assms(3-5) assms(7,2)] assms(6,8) unfolding v_def by (auto simp: opened_def)
  have "table_ok v"
    using obeysD [OF sock.all_dispatch [of env random b d], of u] run_table_ok [OF assms(1)] by (simp add: utp_hist_def v_def)
  moreover have "pk_connId q \<noteq> 65536"
    using packet_fromBytes_wf [OF assms(9)] by (simp add: packet_wf_def u16_def)
  ultimately have "length (ut_conns u) \<notin> set (targetConns a' q v)"
    using s targets_iff [OF _ valid_addr(1) [OF assms(10)], of v "length (ut_conns u)" q] by simp
  then show ?thesis using s by simp
qed

theorem syn_65535_unreachable_witness:
  "0 \<notin> set (targetConns \<lparr>ua_port = 80, ua_hostname = ''localhost''\<rparr> (packet_wire sample_syn)
     (final (utp_dispatch sample_env 5 (packet_toBytes sample_syn) (NetAddr 80 ''localhost'') utp_new)))"
proof -
  have a: "addr_fromDenoAddr (NetAddr 80 ''localhost'') = Inr \<lparr>ua_port = 80, ua_hostname = ''localhost''\<rparr>"
    by (simp add: addr_fromDenoAddr_def sample_hosts)
  show ?thesis
    using syn_65535_unreachable [where env = sample_env and random = 5, OF utp_start [of utp_new] _ sample_syn_wire(1-4) a _ sample_syn_wire(2) a]
    by (simp add: utp_new_def utp_hasConn_def jm_has_def)
qed

text \<open>
  C33. A malformed datagram ends the receive loop. On a socket that is not closed and does not mock
  losses, a datagram whose decoding throws (a header whose extension chain runs past its end) makes
  \<open>startListen\<close> throw: the datagrams after it are never handled, and no connection changes.
\<close>

theorem malformed_ends_loop:
  fixes u :: utp and d :: datagram and ds :: "datagram list"
  assumes "ut_state u \<noteq> US_CLOSED" "\<not> ut_mockPacketLossEnabled u" "packet_isPacket (dg_bytes d) = Inl e"
  defines "x \<equiv> utp_startListen (d # ds) u"
  shows "result x = Inl e \<and> events x = [] \<and> ut_conns (final x) = ut_conns u \<and> ut_connTable (final x) = ut_connTable u
    \<and> ut_totalUdpPacketReceived (final x) = ut_totalUdpPacketReceived u + 1
    \<and> ut_utpPacketReceived (final x) = ut_utpPacketReceived u"
  using assms(1-3)
  by (simp add: x_def utp_receive_def utp_dispatch_def eff_parts utp_isClosed_def)

theorem malformed_ends_loop_witness:
  "result (utp_startListen [\<lparr>dg_env = sample_env, dg_loss = 0, dg_random = 1, dg_bytes = 33 # 1 # replicate 18 0,
      dg_addr = sample_local\<rparr>] utp_new) = Inl RangeError"
proof -
  have "packet_isPacket (33 # 1 # replicate 18 0) = Inl RangeError" by (rule bare_header_throws) simp_all
  then show ?thesis
    using malformed_ends_loop [of utp_new "\<lparr>dg_env = sample_env, dg_loss = 0, dg_random = 1, dg_bytes = 33 # 1 # replicate 18 0,
      dg_addr = sample_local\<rparr>" RangeError "[]"]
    by (simp add: utp_new_def)
qed

end
