(* ===== verification/Handshake.thy ===== *)
theory Handshake imports EndToEnd SocketRoute begin

text \<open>
  The handshake between two sockets, and what it establishes: the connection that connects expects
  exactly the packets the accepting one will number, and the accepting one takes its place in the
  stream from the first data packet that reaches it.
\<close>

subsection \<open>The packets that open a connection\<close>

lemma open_pkt_wire:
  assumes "open_pkt st sendId recvId seqNr ackNr p" and "u16 (if st = CS_SYN_SENT then recvId else sendId)"
    and "u16 seqNr" "u16 ackNr"
  shows "packet_fromBytes (packet_toBytes p) = Inr (packet_wire p)" "packet_isPacket (packet_toBytes p) = Inr True"
    and "pk_type (packet_wire p) = pk_type p" "pk_connId (packet_wire p) = pk_connId p"
    and "pk_seqNr (packet_wire p) = seqNr" "pk_ackNr (packet_wire p) = pk_ackNr p"
proof -
  have e: "packet_encodable p"
    using assms(1) by (auto simp: packet_encodable_def open_pkt_def ext_ok_def extBits_create_def)
  show d: "packet_fromBytes (packet_toBytes p) = Inr (packet_wire p)" by (rule packet_fromBytes_toBytes [OF e])
  show t: "pk_type (packet_wire p) = pk_type p" "pk_connId (packet_wire p) = pk_connId p"
    "pk_seqNr (packet_wire p) = seqNr" "pk_ackNr (packet_wire p) = pk_ackNr p"
    using assms by (auto simp: open_pkt_def packet_wire_def packet_types u16_def)
  have "length (packet_toBytes p) \<in> {20, 30}"
    using assms(1)
    by (auto simp: length_packet_toBytes packet_length_def packet_sizes open_pkt_def extBits_create_def)
  moreover have "pk_version (packet_wire p) = 1" using assms(1) by (simp add: packet_wire_def open_pkt_def)
  moreover have "pk_type p \<in> {ST_STATE, ST_SYN}" using assms(1) by (simp add: open_pkt_def)
  ultimately show "packet_isPacket (packet_toBytes p) = Inr True"
    unfolding packet_isPacket_decoded [OF d] t by auto
qed

subsection \<open>The connection that connects\<close>

lemma handleAck_new: "sw_outstanding (fst (sw_handleAck clk p sw_new)) = []" "snd (sw_handleAck clk p sw_new) = []"
proof -
  have n: "bm_waiting (sw_packetMap sw_new) = []" "sw_outstanding sw_new = []"
    by (simp_all add: sw_new_def bm_new_def sw_outstanding_def bm_all_def)
  have "sw_ok sw_new" "sw_waitKeys sw_new = {}"
    using sw_new_inv n by (simp_all add: sw_inv_def sw_entries_ok_def sw_waitKeys_def bm_waitKeys_def)
  then show "sw_outstanding (fst (sw_handleAck clk p sw_new)) = []"
    using sw_afterLoops_outstanding [of sw_new p clk] n by (simp add: sw_handleAck_eq Let_def)
  show "snd (sw_handleAck clk p sw_new) = []" using sw_handleAck_release [of sw_new clk p] n by simp
qed

text \<open>What a state packet makes of a connection that sent its SYN.\<close>

lemma synSent_state:
  fixes env :: env and s :: conn
  assumes s: "opened CS_SYN_SENT a sendId recvId seqNr ackNr s" and p: "pk_type p = ST_STATE"
  defines "x \<equiv> handleIncomingPacket env p s"
  shows "result x = Inr True"
    and "events x = snd (notifyLoop CS_CONNECTED 0 (length (cn_listeners s)) (cn_listeners s))"
    and "rx_fresh (pk_seqNr p) (final x)" "sw_outstanding (cn_sendWindow (final x)) = []"
    and "cn_seqNr (final x) = cn_seqNr s" "cn_sendId (final x) = sendId" "cn_recvId (final x) = recvId"
    and "cn_remoteAddr (final x) = a" "cn_localFin (final x) = None"
proof -
  define w where "w = fst (sw_handleAck (env_clk env) p sw_new)"
  define r where "r = notifyLoop CS_CONNECTED 0 (length (cn_listeners s)) (cn_listeners s)"
  have f: "cn_state s = CS_SYN_SENT" "cn_sendWindow s = sw_new" using s by (simp_all add: opened_def)
  have w: "sw_outstanding w = []" unfolding w_def by (rule handleAck_new)
  have x: "x = (s\<lparr>cn_sendWindow := w, cn_ackNr := seq_add (pk_seqNr p) (- 1), cn_state := CS_CONNECTED,
      cn_listeners := fst r, cn_lastPacketTs := Some (currentMicroseconds env)\<rparr>, snd r, Inr True)"
    using f p handleAck_new(2)
    by (simp add: x_def handleIncomingPacket_def handleAtSynSent_def conn_handleAck_def eff_defs split_beta
        set_localState_def set_localAckNr_eq notifyStateChange_def r_def w_def resumed_def)
  show "result x = Inr True" "events x = snd (notifyLoop CS_CONNECTED 0 (length (cn_listeners s)) (cn_listeners s))"
    by (simp_all add: x r_def)
  show "rx_fresh (pk_seqNr p) (final x)"
    using s by (simp add: x rx_fresh_def opened_def bb_new_def)
  show "sw_outstanding (cn_sendWindow (final x)) = []" by (simp add: x w)
  show "cn_seqNr (final x) = cn_seqNr s" "cn_sendId (final x) = sendId" "cn_recvId (final x) = recvId"
    "cn_remoteAddr (final x) = a" "cn_localFin (final x) = None"
    using s by (simp_all add: x opened_def)
qed

subsection \<open>The two sockets\<close>

lemma connect_parts:
  fixes env :: env and u :: utp and R :: int
  assumes "addr_create port hostname = Inr b" "ut_udpSocket u \<or> (\<exists>l. addr_fromDenoAddr local = Inr l)"
  defines "x \<equiv> utp_connect env (Inr local) R port hostname u"
  defines "c \<equiv> length (ut_conns u)"
  shows "\<exists>s p. ut_conns (final x) = ut_conns u @ [s] \<and> opened CS_SYN_SENT b (R + 1) R 1 0 s
      \<and> utp_findConn (generateUniqueId b (R + 1) R) (final x) = Some c
      \<and> open_pkt CS_SYN_SENT (R + 1) R 1 0 p
      \<and> (\<not> utp_isClosed u \<longrightarrow> UdpSend (packet_toBytes p) b \<in> set (events x))
      \<and> (result x = Inr c \<longrightarrow> cn_listeners s = [c])"
proof -
  define u1 where "u1 = (if ut_udpSocket u then u else u\<lparr>ut_udpSocket := True, ut_timer := True\<rparr>)"
  let ?y = "utp_connectTo env CS_SYN_SENT b (R + 1) R 1 0 u1"
  have x: "final x = final ?y" "set (events ?y) \<subseteq> set (events x)" "result x = result ?y"
    using assms(1,2)
    by (auto simp: x_def utp_connect_def utp_createUdpSocketIfNone_def u1_def eff_parts)
  have c: "ut_conns u1 = ut_conns u" "utp_isClosed u1 = utp_isClosed u" "length (ut_conns u) = c"
    by (simp_all add: u1_def c_def utp_isClosed_def)
  obtain s p where "ut_conns (final ?y) = ut_conns u1 @ [s]" "opened CS_SYN_SENT b (R + 1) R 1 0 s"
    "ut_connTable (final ?y) = jm_set (generateUniqueId b (R + 1) R) c (ut_connTable u1)"
    "open_pkt CS_SYN_SENT (R + 1) R 1 0 p" "result ?y = Inr c \<longrightarrow> cn_listeners s = [c]"
    "events ?y = (if utp_isClosed u1 then [] else [UdpSend (packet_toBytes p) b])"
    using connectTo_parts [OF disjI1 [OF refl], of env b "R + 1" R 1 0 u1] unfolding c by blast
  then show ?thesis
    using x c by (intro exI [of _ s] exI [of _ p] conjI impI) (auto simp: utp_findConn_def jm_get_set)
qed

lemma absorb_settles:
  "list_all (\<lambda>e. case e of EvSettle l st \<Rightarrow> True | _ \<Rightarrow> False) es \<Longrightarrow> absorb c es u = (u, map (OfConn c) es)"
  by (induction es arbitrary: u)
    (auto simp: absorb_Nil absorb_Cons absorbOne_def split: conn_ev.splits)

lemma notifyLoop_settles: "list_all (\<lambda>e. case e of EvSettle l st \<Rightarrow> True | _ \<Rightarrow> False) (snd (notifyLoop st i n ls))"
  by (induction st i n ls rule: notifyLoop.induct) (simp_all add: Let_def split_beta)

lemma dispatch_established:
  fixes env :: env and random :: int and u :: utp
  assumes "packet_isPacket b = Inr True" "packet_fromBytes b = Inr p" "pk_type p = ST_STATE" "addr_fromDenoAddr d = Inr a"
    and "utp_findConn (generateUniqueId a (pk_connId p + 1) (pk_connId p)) u = Some c"
    and "c < length (ut_conns u)" and s: "opened CS_SYN_SENT a (pk_connId p + 1) (pk_connId p) seqNr ackNr (ut_conns u ! c)"
  defines "x \<equiv> utp_dispatch env random b d u"
  shows "\<exists>e. ut_conns (final x) = (ut_conns u)[c := final (handleIncomingPacket e p (ut_conns u ! c))]
      \<and> events x = map (OfConn c) (events (handleIncomingPacket e p (ut_conns u ! c))) \<and> result x = Inr ()"
proof -
  define v where "v = u\<lparr>ut_utpPacketReceived := ut_utpPacketReceived u + 1\<rparr>"
  define e where "e = conn_env env v"
  define h where "h = handleIncomingPacket e p (ut_conns u ! c)"
  note h = synSent_state [OF s assms(3), of e, folded h_def]
  obtain cs where cs: "targetConns a p v = c # cs"
    using assms(5) by (auto simp: targetConns_def Let_def List.map_filter_simps v_def utp_findConn_def split: option.splits)
  have on: "onConn env c (\<lambda>e. handleIncomingPacket e p) v
      = (v\<lparr>ut_conns := (ut_conns u)[c := final h]\<rparr>, map (OfConn c) (events h), Inr True)"
  proof -
    have "absorb c (events h) w = (w, map (OfConn c) (events h))" for w
      unfolding h(2) by (rule absorb_settles [OF notifyLoop_settles])
    moreover have "ut_conns v = ut_conns u" by (simp add: v_def)
    ultimately show ?thesis
      using h(1) by (simp only: onConn_def Let_def e_def [symmetric] h_def [symmetric] prod.case)
  qed
  have "\<not> accepted_by c (events (handleIncomingPacket (conn_env env v) p (ut_conns v ! c))) (ut_conns v ! c)"
    using s by (simp add: accepted_by_def opened_def v_def)
  then have run: "runConn env c (\<lambda>e. handleIncomingPacket e p) v
      = (v\<lparr>ut_conns := (ut_conns u)[c := final h]\<rparr>, map (OfConn c) (events h), Inr True)"
    by (simp add: runConn_def eff_defs on)
  have "pk_type p \<noteq> ST_SYN" "pk_type p \<noteq> ST_RESET" using assms(3) by (simp_all add: packet_types)
  then have "x = (v\<lparr>ut_conns := (ut_conns u)[c := final h]\<rparr>, map (OfConn c) (events h), Inr ())"
    using assms(1-4) cs run unfolding v_def [symmetric]
    by (simp add: x_def utp_dispatch_def eff_defs v_def [symmetric] del: One_nat_def Suc_eq_plus1)
  then show ?thesis unfolding h_def by (intro exI [of _ e]) simp
qed

text \<open>
  C4. The handshake. When one socket connects to another and the SYN it sends reaches that one, and the
  answer to it comes back while the connection is as \<open>connect\<close> left it, then there is a new connection
  in the state SYN-RECV at one end and a CONNECTED one at the other: each receives under the id the other
  sends with, the connected one expects its peer's next packet number first and nothing it sent is
  outstanding, the acknowledgement number it sends is the one the peer waits for, and the promise of
  \<open>connect\<close> is settled.
\<close>

theorem handshake:
  fixes env envv envu :: env and u u2 v :: utp and R S T :: int
  assumes "addr_create port hostname = Inr b" "addr_fromDenoAddr local = Inr l" "ut_state u \<noteq> US_CLOSED" "u16 R"
    and "addr_fromDenoAddr da = Inr a" "ut_state v \<noteq> US_CLOSED" "u16 S" "\<not> utp_hasConn (generateUniqueId a R (R + 1)) v"
    and "addr_fromDenoAddr db = Inr b"
  defines "x \<equiv> utp_connect env (Inr local) R port hostname u"
    and "c \<equiv> length (ut_conns u)"
  assumes "utp_findConn (generateUniqueId b (R + 1) R) u2 = Some c" "c < length (ut_conns u2)"
    and "ut_conns u2 ! c = ut_conns (final x) ! c"
  shows "\<exists>syn st sv. UdpSend syn b \<in> set (events x)
    \<and> (let y = utp_dispatch envv S syn da v; z = utp_dispatch envu T st db u2; s = ut_conns (final z) ! c in
         ut_conns (final y) = ut_conns v @ [sv] \<and> events y = [UdpSend st a] \<and> opened CS_SYN_RECV a R (R + 1) S 1 sv
       \<and> cn_state s = CS_CONNECTED \<and> cn_remoteAddr s = b \<and> cn_sendId s = cn_recvId sv \<and> cn_recvId s = cn_sendId sv
       \<and> cn_seqNr s = 2 \<and> sw_outstanding (cn_sendWindow s) = [] \<and> rx_fresh (cn_seqNr sv) s
       \<and> cn_ackNr s = seq_add (cn_seqNr sv) (- 1)
       \<and> (result x = Inr c \<longrightarrow> OfConn c (EvSettle c CS_CONNECTED) \<in> set (events z)))"
proof -
  obtain s p where s: "ut_conns (final x) = ut_conns u @ [s]" "opened CS_SYN_SENT b (R + 1) R 1 0 s"
    "open_pkt CS_SYN_SENT (R + 1) R 1 0 p" "UdpSend (packet_toBytes p) b \<in> set (events x)"
    "result x = Inr c \<longrightarrow> cn_listeners s = [c]"
    using connect_parts [where env = env and u = u and R = R and local = local, OF assms(1)] assms(2,3)
    unfolding x_def c_def by (auto simp: utp_isClosed_def)
  have pw: "packet_fromBytes (packet_toBytes p) = Inr (packet_wire p)" "packet_isPacket (packet_toBytes p) = Inr True"
    "pk_type (packet_wire p) = ST_SYN" "pk_connId (packet_wire p) = R" "pk_seqNr (packet_wire p) = 1"
    using open_pkt_wire [OF s(3)] assms(4) s(3) by (simp_all add: u16_def open_pkt_def)
  define y where "y = utp_dispatch envv S (packet_toBytes p) da v"
  obtain sv q where y: "ut_conns (final y) = ut_conns v @ [sv]" "events y = [UdpSend (packet_toBytes q) a]"
    "opened CS_SYN_RECV a R (R + 1) S 1 sv" "open_pkt CS_SYN_RECV R (R + 1) S 1 q"
    using dispatch_syn [where env = envv and random = S, OF pw(2,1,3) assms(5,6)] assms(8) unfolding y_def pw
    by auto
  have qw: "packet_fromBytes (packet_toBytes q) = Inr (packet_wire q)" "packet_isPacket (packet_toBytes q) = Inr True"
    "pk_type (packet_wire q) = ST_STATE" "pk_connId (packet_wire q) = R" "pk_seqNr (packet_wire q) = S"
    using open_pkt_wire [OF y(4)] assms(4,7) y(4) by (simp_all add: u16_def open_pkt_def)
  have s2: "ut_conns u2 ! c = s" using assms(14) s(1) by (simp add: c_def)
  define z where "z = utp_dispatch envu T (packet_toBytes q) db u2"
  obtain e where z: "ut_conns (final z) = (ut_conns u2)[c := final (handleIncomingPacket e (packet_wire q) s)]"
    "events z = map (OfConn c) (events (handleIncomingPacket e (packet_wire q) s))"
    using dispatch_established [where env = envu and random = T, OF qw(2,1,3) assms(9), of u2 c] assms(12,13) s(2)
    unfolding z_def qw s2 by blast
  note f = synSent_state [OF s(2) qw(3), of e, unfolded qw]
  have fin: "ut_conns (final z) ! c = final (handleIncomingPacket e (packet_wire q) s)" using z(1) assms(13) by simp
  have "cn_seqNr s = 2" "cn_seqNr sv = S" "cn_sendId sv = R" "cn_recvId sv = R + 1"
    using s(2) y(3) by (simp_all add: opened_def seq_simps)
  moreover have "OfConn c (EvSettle c CS_CONNECTED) \<in> set (events z)" if "cn_listeners s = [c]"
    using z(2) f(2) that by (simp add: settles_def)
  ultimately show ?thesis
    using s(4,5) y f(3-9) unfolding y_def z_def
    by (intro exI [of _ "packet_toBytes p"] exI [of _ "packet_toBytes q"] exI [of _ sv])
      (simp add: Let_def fin [unfolded z_def] rx_fresh_def)
qed

theorem handshake_witness:
  "\<exists>st. let z = utp_dispatch sample_env 1 st (NetAddr 80 ''localhost'')
             (final (utp_connect sample_env (Inr sample_local) 6 80 ''localhost'' utp_new)) in
     cn_state (ut_conns (final z) ! 0) = CS_CONNECTED \<and> cn_recvId (ut_conns (final z) ! 0) = 6"
proof -
  let ?b = "\<lparr>ua_port = 80, ua_hostname = ''localhost''\<rparr>"
  let ?x = "utp_connect sample_env (Inr sample_local) 6 80 ''localhost'' utp_new"
  have l: "addr_fromDenoAddr sample_local = Inr \<lparr>ua_port = 9, ua_hostname = ''localhost''\<rparr>"
    "addr_fromDenoAddr (NetAddr 80 ''localhost'') = Inr ?b"
    by (simp_all add: addr_fromDenoAddr_def sample_local_def sample_hosts)
  have "length (ut_conns (final ?x)) = 1" "utp_findConn (generateUniqueId ?b (6 + 1) 6) (final ?x) = Some 0"
    using connect_parts [where env = sample_env and u = utp_new and R = 6 and local = sample_local, OF sample_hosts(1)] l
    by (auto simp: utp_new_def)
  then show ?thesis
    using handshake [where env = sample_env and envv = sample_env and envu = sample_env and R = 6 and S = 5 and T = 1
        and v = utp_new, OF sample_hosts(1) l(1) _ _ l(1) _ _ _ l(2), of utp_new "final ?x"]
    by (auto simp: utp_new_def u16_def utp_hasConn_def jm_has_def Let_def opened_def)
qed

subsection \<open>The connection that accepts\<close>

lemma read_bytes_settles:
  "list_all (\<lambda>e. case e of EvSettle l st \<Rightarrow> True | _ \<Rightarrow> False) es \<Longrightarrow> read_bytes es = []"
  by (induction es) (auto simp: read_bytes_def split: conn_ev.splits)

lemma synRecv_data:
  fixes env :: env and s :: conn
  assumes s: "opened CS_SYN_RECV a sendId recvId S ack s" and p: "pk_type p = ST_DATA" "pk_ackNr p = seq_add S (- 1)"
    and n: "pk_seqNr p = seq_add base (int k)"
  defines "x \<equiv> handleIncomingPacket env p s"
  shows "rx_at base (Suc k) (final x)" "rx_stream (events x) (final x) = payload p"
proof -
  define s1 where "s1 = fst (notifyStateChange (s\<lparr>cn_ackNr := pk_seqNr p, cn_state := CS_CONNECTED\<rparr>))"
  define es where "es = snd (notifyStateChange (s\<lparr>cn_ackNr := pk_seqNr p, cn_state := CS_CONNECTED\<rparr>))"
  have f: "cn_state s = CS_SYN_RECV" "cn_seqNr s = S" "cn_remoteFin s = None" "cn_recvQueue s = cq_new 4096"
    "cn_recvBuffer s = bb_new bb_defaultMaxBytes"
    using s by (simp_all add: opened_def)
  have s1: "cn_state s1 = CS_CONNECTED" "cn_ackNr s1 = pk_seqNr p" "cn_remoteFin s1 = None" "cn_recvQueue s1 = cq_new 4096"
    "bb_buffer (cn_recvBuffer s1) = []" "read_bytes es = []"
    using f read_bytes_settles [OF notifyLoop_settles]
    by (simp_all add: s1_def es_def notifyStateChange_def split_beta bb_new_def)
  define w where "w = (case pk_data p of None \<Rightarrow> eff_return () | Some d \<Rightarrow> conn_recvWrite d) s1"
  have w: "result w = Inr ()" "cn_state (final w) = CS_CONNECTED" "cn_ackNr (final w) = pk_seqNr p"
    "cn_remoteFin (final w) = None" "cn_recvQueue (final w) = cq_new 4096" "rx_stream (events w) (final w) = payload p"
    using s1 p(1) bb_write_bytes [of _ "cn_recvBuffer s1"]
    by (auto simp: w_def recvWrite_parts rx_stream_def payload_def split: option.splits)
  have u: "u16 (pk_seqNr p)" using n by simp
  define n where "n = conn_sendAck env (final w)"
  have st: "set_localState CS_CONNECTED (s\<lparr>cn_ackNr := pk_seqNr p\<rparr>) = (s1, es)"
    using f(1) by (simp add: set_localState_def s1_def es_def)
  have h: "final (handleAtSynReceived env p s) = final n" "events (handleAtSynReceived env p s) = es @ events w @ events n"
    "result (handleAtSynReceived env p s) = (case result n of Inl e \<Rightarrow> Inl e | Inr _ \<Rightarrow> Inr True)"
    using f(2) p u w(1)
    by (simp_all add: handleAtSynReceived_def eff_parts set_localAckNr_eq st w_def [symmetric] n_def split: sum.split)
  have x: "events x = es @ events w @ events n"
    "final x = (case result n of Inl e \<Rightarrow> final n | Inr _ \<Rightarrow> (final n)\<lparr>cn_lastPacketTs := Some (currentMicroseconds env)\<rparr>)"
    using f(1) p(1) by (simp_all add: x_def handleIncomingPacket_def packet_types eff_parts h split: sum.split)
  show "rx_at base (Suc k) (final x)" "rx_stream (events x) (final x) = payload p"
    using w s1 sendAck_parts [of "final w" env] assms(4)
    by (auto simp: n_def x rx_at_def rx_stream_def split: sum.splits)
qed

text \<open>
  C19. What an accepted connection receives. Let a connection that was opened by a SYN handle a data
  packet that acknowledges its number less one, the \<open>k\<close>-th of those its peer numbered, and then
  whatever the network brings, in any order, with losses and repetitions. Then the bytes its
  application was given and can still read are exactly those of the packets from the \<open>k\<close>-th on, up
  to some packet: a prefix of what was written when the first packet came first, and never a byte of
  the packets before the \<open>k\<close>-th otherwise.
\<close>

theorem accepted_stream:
  fixes env :: env and r :: conn
  assumes "tx_run s es ws t" "cn_state s = CS_CONNECTED" "u16 (cn_seqNr s)"
    and "sw_outstanding (cn_sendWindow s) = []"
    and "sum_list (map (\<lambda>w. chunks (length w)) ws) < 49152"
    and "opened CS_SYN_RECV a sendId recvId S ack r"
    and "b \<in> datagrams es" "packet_fromBytes b = Inr q" "pk_ackNr q = seq_add S (- 1)"
  defines "x \<equiv> handleIncomingPacket env q r"
  assumes "net_run (datagrams es) (final x) evs r'"
  shows "\<exists>l k n. log_bytes l = concat ws \<and> length l = sum_list (map (\<lambda>w. chunks (length w)) ws) \<and> k < n \<and> n \<le> length l \<and> pk_seqNr q = seq_add (cn_seqNr s) (int k)
    \<and> read_bytes (events x) @ read_bytes evs @ bb_buffer (cn_recvBuffer r') = log_bytes (drop k (take n l))"
proof -
  obtain l where l: "log_bytes l = concat ws" "length l = sum_list (map (\<lambda>w. chunks (length w)) ws)"
    "\<And>i. i < length l \<Longrightarrow> pk_seqNr (l ! i) = seq_add (cn_seqNr s) (int i)"
    "\<And>p. p \<in> set l \<Longrightarrow> pk_type p = ST_DATA \<and> packet_encodable p" "datagrams es \<subseteq> packet_toBytes ` set l"
    using tx_datagrams [OF assms(1-4)] by blast
  obtain k where k: "k < length l" "b = packet_toBytes (l ! k)"
    using subsetD [OF l(5) assms(7)] by (metis imageE in_set_conv_nth)
  then have q: "q = packet_wire (l ! k)"
    using packet_fromBytes_toBytes [of "l ! k"] l(4) assms(8) by simp
  have w: "pk_type q = ST_DATA" "pk_seqNr q = seq_add (cn_seqNr s) (int k)" "payload q = payload (l ! k)"
    using wire_data [of "l ! k"] l(3,4) k(1) by (simp_all add: q)
  note first = synRecv_data [OF assms(6) w(1) assms(9) w(2), of env, folded x_def]
  obtain n where n: "n \<le> length l" "Suc k \<le> n"
    "rx_stream evs r' = bb_buffer (cn_recvBuffer (final x)) @ concat (map payload (take (n - Suc k) (drop (Suc k) l)))"
    using net_stream [OF assms(11) l(5,3,4) _ first(1)] k(1) l(2) assms(5) by auto
  have "drop k (take n l) = l ! k # drop (Suc k) (take n l)"
    using Cons_nth_drop_Suc [of k "take n l"] n(1,2) by simp
  then have "log_bytes (drop k (take n l)) = payload q @ concat (map payload (take (n - Suc k) (drop (Suc k) l)))"
    by (simp add: log_bytes_def w(3) drop_take)
  also have "\<dots> = read_bytes (events x) @ rx_stream evs r'"
    using first(2) n(3) by (simp add: rx_stream_def)
  finally show ?thesis
    using l(1,2) k(1) n(1,2) w(2) by (intro exI [of _ l] exI [of _ k] exI [of _ n]) (simp add: rx_stream_def)
qed

text \<open>Two writes of which the second reaches the accepting connection first: the bytes of the first are lost.\<close>

definition sample_client :: conn where
  "sample_client = sample_conn\<lparr>cn_ackNr := 4\<rparr>"

definition sample_accepting :: conn where
  "sample_accepting = fst (conn_new sample_env CS_SYN_RECV sample_addr 7 8 5 99)"

lemma sample_writes:
  defines "x \<equiv> conn_write sample_env two_bytes sample_client"
  defines "y \<equiv> conn_write sample_env [3] (final x)"
  shows "tx_run sample_client (events x @ events y) [two_bytes, [3]] (final y)"
    and "EvSend (fst (createDataPacket sample_env [3] (final x))) sample_addr \<in> set (events y)"
    and "data_of (final x) (fst (createDataPacket sample_env [3] (final x)))"
    and "pk_seqNr (fst (createDataPacket sample_env [3] (final x))) = 101"
    and "pk_data (fst (createDataPacket sample_env [3] (final x))) = Some [3]"
    and "pk_ackNr (fst (createDataPacket sample_env [3] (final x))) = 4"
proof -
  have c: "window_room sample_client (Suc (Suc 0))" "env_send sample_env = (\<lambda>p. Inr (packet_length p))"
    "cn_seqNr sample_client = 100" "cn_remoteAddr sample_client = sample_addr" "cn_ackNr sample_client = 4"
    by (simp_all add: window_room_def sample_client_def sample_env_def sw_new_def bm_new_def MIN_WINDOW_SIZE_def)
  have x: "result x = Inr None" "window_room (final x) (Suc 0)" "cn_seqNr (final x) = 101" "cn_remoteAddr (final x) = sample_addr"
    "cn_ackNr (final x) = 4"
    unfolding x_def using write_one_chunk [OF c(1), of two_bytes sample_env] c
    by (simp_all add: two_bytes_def chunkSize_eq seq_simps)
  have y: "result y = Inr None" "events y = [EvSend (fst (createDataPacket sample_env [3] (final x))) sample_addr]"
    unfolding y_def using write_one_chunk [OF x(2), of "[3]" sample_env] c x(4) by (simp_all add: chunkSize_eq)
  show "tx_run sample_client (events x @ events y) [two_bytes, [3]] (final y)"
    using tx_write [OF tx_write [OF tx_start refl x(1) [unfolded x_def]] refl y(1) [unfolded y_def x_def]]
    unfolding x_def y_def by (simp add: took_def)
  show "EvSend (fst (createDataPacket sample_env [3] (final x))) sample_addr \<in> set (events y)" by (simp add: y(2))
  show "data_of (final x) (fst (createDataPacket sample_env [3] (final x)))"
    "pk_seqNr (fst (createDataPacket sample_env [3] (final x))) = 101"
    "pk_data (fst (createDataPacket sample_env [3] (final x))) = Some [3]"
    using createData_parts [of "final x" "[3]" sample_env] x(3) by (simp_all add: chunkSize_eq u16_def)
  show "pk_ackNr (fst (createDataPacket sample_env [3] (final x))) = 4"
    using x(5) by (simp add: createDataPacket_def packet_blank_def)
qed

theorem accepted_stream_witness:
  "\<exists>q l. pk_data q = Some [3] \<and> log_bytes l = [1, 2, 3] \<and> length l = 2
    \<and> read_bytes (events (handleIncomingPacket sample_env q sample_accepting))
        @ bb_buffer (cn_recvBuffer (final (handleIncomingPacket sample_env q sample_accepting)))
      = log_bytes (drop 1 l)"
proof -
  define x where "x = conn_write sample_env two_bytes sample_client"
  define y where "y = conn_write sample_env [3] (final x)"
  define p where "p = fst (createDataPacket sample_env [3] (final x))"
  note w = sample_writes [folded x_def, folded y_def, folded p_def]
  define r where "r = handleIncomingPacket sample_env (packet_wire p) sample_accepting"
  have "pk_type p = ST_DATA" using w(3) by (simp add: data_of_def)
  then have d: "packet_toBytes p \<in> datagrams (events x @ events y)" using w(2) by (auto simp: datagrams_def)
  have f: "packet_fromBytes (packet_toBytes p) = Inr (packet_wire p)"
    using w(3) by (intro packet_fromBytes_toBytes) (auto simp: data_of_def packet_encodable_def first_ext_type_def)
  have q: "pk_data (packet_wire p) = Some [3]" "pk_ackNr (packet_wire p) = seq_add 5 (- 1)" "pk_seqNr (packet_wire p) = 101"
    using w(4-6) by (simp_all add: packet_wire_def seq_simps)
  have o: "opened CS_SYN_RECV sample_addr 7 8 5 99 sample_accepting"
    by (simp add: opened_def sample_accepting_def conn_new_def Let_def MIN_RECV_QUEUE_SIZE_def)
  have c: "cn_state sample_client = CS_CONNECTED" "cn_seqNr sample_client = 100" "sw_outstanding (cn_sendWindow sample_client) = []"
    by (simp_all add: sample_client_def sw_new_def sw_outstanding_def bm_all_def bm_new_def)
  obtain l k n where l: "log_bytes l = [1, 2, 3]" "length l = 2" "k < n" "n \<le> length l" "101 = seq_add 100 (int k)"
    "read_bytes (events r) @ bb_buffer (cn_recvBuffer (final r)) = log_bytes (drop k (take n l))"
    using accepted_stream [OF w(1) c(1) _ c(3) _ o d f q(2) net_start [of _ "final (handleIncomingPacket sample_env (packet_wire p) sample_accepting)"], folded r_def] c(2) q(3)
    by (auto simp: two_bytes_def chunks_simps u16_def)
  then have "k = 1" by (simp add: seq_simps)
  then have "n = 2" using l(2-4) by simp
  then show ?thesis
    using l \<open>k = 1\<close> q(1) unfolding r_def by (intro exI [of _ "packet_wire p"] exI [of _ l]) simp
qed

end
