(* ===== verification/DrawnIds.thy ===== *)
theory DrawnIds imports Handshake begin

text \<open>
  The random numbers (\<open>randomUn16Int\<close> of \<open>src/utilt.ts\<close>): \<open>r\<close> is what \<open>Math.random()\<close> answers. The
  ids of a connection and the first sequence number of an accepting one are drawn from them.
\<close>

definition randomUn16Int :: "rat \<Rightarrow> int" where
  "randomUn16Int r = \<lfloor>fl (r * 65535)\<rfloor>"

text \<open>\<open>Math.random()\<close> answers a multiple of \<open>2\<^sup>-\<^sup>5\<^sup>3\<close> from 0 up to but not including 1.\<close>

definition js_random :: "rat \<Rightarrow> bool" where
  "js_random r \<longleftrightarrow> (\<exists>m :: int. 0 \<le> m \<and> m < 2 ^ 53 \<and> r = of_int m / 2 ^ 53)"

lemma fl_below_65535: "fl (65535 - 65535 / 2 ^ 53) = 65535 - 1 / 2 ^ 37"
proof -
  let ?x = "65535 - 65535 / 2 ^ 53 :: rat" and ?n = "65535 * 2 ^ 37 - 1 :: int"
  have "ilog2 ?x = 15" by (rule ilog2_eq) simp_all
  then have u: "ulp_exp ?x = - 37" by (simp add: ulp_exp_def)
  have q: "?x / 2 powi - 37 = of_int ?n + 1 / 65536" by (simp add: power_int_minus)
  have "\<lfloor>of_int ?n + 1 / 65536 :: rat\<rfloor> = ?n" by (rule floor_unique) simp_all
  then have "round_even (?x / 2 powi - 37) = ?n"
    unfolding q round_even_def Let_def by simp
  then have "fl_pos ?x = of_int ?n * 2 powi - 37" by (simp only: fl_pos_def u)
  also have "\<dots> = 65535 - 1 / 2 ^ 37" by (simp add: power_int_minus)
  finally show ?thesis by (simp add: fl_def)
qed

lemma randomUn16Int_range:
  assumes "js_random r" shows "0 \<le> randomUn16Int r \<and> randomUn16Int r \<le> 65534"
proof -
  obtain m :: int where m: "0 \<le> m" "m < 2 ^ 53" "r = of_int m / 2 ^ 53" using assms by (auto simp: js_random_def)
  have "of_int m \<le> (of_int (2 ^ 53 - 1) :: rat)" unfolding of_int_le_iff using m(2) by simp
  then have r: "r * 65535 \<le> 65535 - 65535 / 2 ^ 53" "0 \<le> r * 65535" using m by (simp_all add: field_simps)
  have "fl (r * 65535) \<le> 65535 - 1 / 2 ^ 37" using dbl.rnd_mono [OF r(1)] by (simp only: fl_below_65535)
  then have "fl (r * 65535) < 65535" by (rule order_le_less_trans) simp
  then have "\<lfloor>fl (r * 65535)\<rfloor> < 65535" by (simp add: floor_less_iff)
  then show ?thesis using dbl.rnd_nonneg [OF r(2)] by (simp add: randomUn16Int_def)
qed

text \<open>
  C35. The ids \<open>connect\<close> draws. Whatever \<open>Math.random()\<close> answers, the connection \<open>connect\<close> makes has a
  receive id and a send id, one more, of 16 bits, so both fit the field of the packet; the one that
  accepts its SYN has them the other way round, so it is never the unreachable one of a SYN with the id
  65535; and its first sequence number fits too.
\<close>

theorem drawn_ids_fit:
  fixes env envv :: env and u v :: utp
  assumes "js_random r" "js_random r'" "addr_create port hostname = Inr b" "addr_fromDenoAddr local = Inr l"
    and "ut_state u \<noteq> US_CLOSED" "addr_fromDenoAddr da = Inr a" "ut_state v \<noteq> US_CLOSED"
    and "\<not> utp_hasConn (generateUniqueId a (randomUn16Int r) (randomUn16Int r + 1)) v"
  defines "x \<equiv> utp_connect env (Inr local) (randomUn16Int r) port hostname u"
  shows "\<exists>s syn sv. ut_conns (final x) = ut_conns u @ [s] \<and> u16 (cn_recvId s) \<and> u16 (cn_sendId s)
    \<and> cn_sendId s = cn_recvId s + 1 \<and> UdpSend syn b \<in> set (events x)
    \<and> ut_conns (final (utp_dispatch envv (randomUn16Int r') syn da v)) = ut_conns v @ [sv]
    \<and> cn_recvId sv = cn_sendId s \<and> cn_sendId sv = cn_recvId s \<and> u16 (cn_seqNr sv)"
proof -
  note rng = randomUn16Int_range [OF assms(1)] randomUn16Int_range [OF assms(2)]
  then have u: "u16 (randomUn16Int r)" "u16 (randomUn16Int r + 1)" "u16 (randomUn16Int r')" by (auto simp: u16_def)
  obtain s p where s: "ut_conns (final x) = ut_conns u @ [s]" "opened CS_SYN_SENT b (randomUn16Int r + 1) (randomUn16Int r) 1 0 s"
    "open_pkt CS_SYN_SENT (randomUn16Int r + 1) (randomUn16Int r) 1 0 p" "UdpSend (packet_toBytes p) b \<in> set (events x)"
    using connect_parts [where env = env and u = u and R = "randomUn16Int r" and local = local, OF assms(3)] assms(4,5)
    unfolding x_def by (auto simp: utp_isClosed_def)
  have pw: "packet_fromBytes (packet_toBytes p) = Inr (packet_wire p)" "packet_isPacket (packet_toBytes p) = Inr True"
    "pk_type (packet_wire p) = ST_SYN" "pk_connId (packet_wire p) = randomUn16Int r"
    using open_pkt_wire [OF s(3)] u s(3) by (simp_all add: u16_def open_pkt_def)
  obtain sv q where y: "ut_conns (final (utp_dispatch envv (randomUn16Int r') (packet_toBytes p) da v)) = ut_conns v @ [sv]"
    "opened CS_SYN_RECV a (randomUn16Int r) (randomUn16Int r + 1) (randomUn16Int r') (pk_seqNr (packet_wire p)) sv"
    using dispatch_syn [where env = envv and random = "randomUn16Int r'", OF pw(2,1,3) assms(6,7)] assms(8) unfolding pw
    by auto
  have "u16 (cn_seqNr s) \<and> cn_recvId s = randomUn16Int r \<and> cn_sendId s = randomUn16Int r + 1"
    using s(2) by (simp add: opened_def)
  moreover have "u16 (cn_seqNr sv) \<and> cn_recvId sv = randomUn16Int r + 1 \<and> cn_sendId sv = randomUn16Int r"
    using y(2) u by (simp add: opened_def)
  ultimately show ?thesis
    using s(1,4) y(1) u by (intro exI [of _ s] exI [of _ "packet_toBytes p"] exI [of _ sv]) simp
qed

theorem drawn_ids_fit_witness:
  "\<exists>s. ut_conns (final (utp_connect sample_env (Inr sample_local) (randomUn16Int (65535 / 65536)) 80 ''localhost'' utp_new)) = [s]
     \<and> u16 (cn_recvId s) \<and> u16 (cn_sendId s)"
proof -
  have "js_random (65535 / 65536)"
    unfolding js_random_def by (intro exI [of _ "65535 * 2 ^ 37"]) simp
  moreover have "addr_fromDenoAddr sample_local = Inr \<lparr>ua_port = 9, ua_hostname = ''localhost''\<rparr>"
    by (simp add: addr_fromDenoAddr_def sample_local_def sample_hosts)
  ultimately show ?thesis
    using drawn_ids_fit [of "65535 / 65536" "65535 / 65536", OF _ _ sample_hosts(1), of sample_local _ utp_new sample_local _ utp_new]
    by (fastforce simp: utp_new_def utp_hasConn_def jm_has_def)
qed

end
