(* ===== verification/ConnClosing.thy ===== *)
theory ConnClosing imports ConnSteps begin

text \<open>
  What a closing connection still has to do: the retransmissions left for the packets of its send
  window, and its FIN. No call adds to it, the start of the close never moves, and a check of the timer
  or a poll that finds something to do takes from it or ends the connection.
\<close>

subsection \<open>What is left of a send window\<close>

definition weight :: "int \<times> pkt_info \<Rightarrow> nat" where
  "weight e = Suc (RESEND_TIMES_LIMIT - pi_resendTimes (snd e))"

abbreviation weights :: "(int \<times> pkt_info) list \<Rightarrow> nat" where
  "weights es \<equiv> sum_list (map weight es)"

definition sw_left :: "send_window \<Rightarrow> nat" where
  "sw_left w = weights (sw_outstanding w)"

lemma weights_set: "weights (jm_set k v m) \<le> weights m + weight (k, v)"
  unfolding jm_set_def by (induction m) auto

lemma weights_replace: "map_of m k = Some old \<Longrightarrow> weights (jm_set k v m) + weight (k, old) = weights m + weight (k, v)"
  unfolding jm_set_def by (induction m) (auto split: if_splits)

lemma weights_filter: "weights (filter P m) \<le> weights m"
  by (induction m) auto

lemma weights_del: "map_of m k = Some old \<Longrightarrow> weights (jm_del k m) + weight (k, old) \<le> weights m"
proof (induction m)
  case (Cons e m)
  show ?case
  proof (cases "fst e = k")
    case True
    then show ?thesis using Cons.prems weights_filter [of "\<lambda>e. fst e \<noteq> k" m] by (cases e) (simp add: jm_del_filter)
  next
    case False
    then show ?thesis using Cons by (cases e) (simp add: jm_del_filter)
  qed
qed simp

lemma weights_fold: "weights (fold (\<lambda>(k, v). jm_set k v) ws m) \<le> weights m + weights ws"
proof (induction ws arbitrary: m)
  case (Cons w ws)
  obtain k v where w: "w = (k, v)" by (cases w)
  show ?case using Cons.IH [of "jm_set k v m"] weights_set [of k v m] by (simp add: w)
qed simp

lemma left_resolve: "weights (bm_all (fst (bm_resolveNextSetter m))) \<le> weights (bm_all m)"
proof -
  let ?r = "bm_resolveNextSetter m"
  have "weights (bm_waiting m) = weights (snd ?r) + weights (bm_waiting (fst ?r))"
    using arg_cong [OF bm_resolve_fifo [of m], of weights] by simp
  then show ?thesis
    using weights_fold [of "snd ?r" "bm_map m"] by (simp add: bm_all_def bm_resolve_map)
qed

lemma left_delete: "weights (bm_all (fst (bm_delete k m))) \<le> weights (bm_all m)"
  using left_resolve [of "m\<lparr>bm_map := jm_del k (bm_map m)\<rparr>"] weights_filter [of "\<lambda>e. fst e \<noteq> k" "bm_map m"]
  by (simp add: bm_delete_def bm_all_def jm_del_filter)

lemma left_delete_less:
  assumes "bm_get m k = Some v" shows "weights (bm_all (fst (bm_delete k m))) < weights (bm_all m)"
proof -
  have "map_of (bm_map m) k = Some v" using assms by (simp add: bm_get_def jm_get_def)
  from weights_del [OF this] show ?thesis
    using left_resolve [of "m\<lparr>bm_map := jm_del k (bm_map m)\<rparr>"] assms
    by (simp add: bm_delete_def bm_all_def jm_has_def bm_get_def weight_def)
qed

lemma left_update: "weights (bm_all (fst (bm_updateCapacity c m))) \<le> weights (bm_all m)"
  using left_resolve [of "m\<lparr>bm_capacity := c\<rparr>"] by (simp add: bm_updateCapacity_def bm_all_def)

lemma left_apply: "sw_left (fst (sw_applyWindowSize w)) \<le> sw_left w"
  using left_update by (simp add: sw_apply_eq sw_left_def sw_outstanding_def)

lemma left_handleAck: "sw_left (fst (sw_handleAck clk p w)) \<le> sw_left w"
proof -
  let ?P = "\<lambda>t. sw_left t \<le> sw_left w"
  have d: "sw_left t' \<le> sw_left t" if "sw_packetMap t' = fst (bm_delete k (sw_packetMap t))" for t t' k
    using left_delete [of k "sw_packetMap t"] by (simp add: sw_left_def sw_outstanding_def that)
  have "?P (fst (sw_afterSack clk p w))"
    unfolding sw_afterSack_def
    by (rule thread_invariant [where P = ?P])
      (auto simp: sackStep_map sw_left_def intro: order_trans [OF d [unfolded sw_left_def]])
  then have "?P (fst (sw_afterLoops clk p w))"
    unfolding sw_afterLoops_def
    by (rule thread_invariant [where P = ?P, rotated])
      (auto simp: sw_cumulativeStep_def [of _ _ ] intro: order_trans [OF d] split: option.splits)
  then have "?P ((fst (sw_afterLoops clk p w))\<lparr>sw_cc := c\<rparr>)" for c by (simp add: sw_left_def)
  then show ?thesis
    unfolding sw_handleAck_eq Let_def fst_conv using order_trans [OF left_apply] by blast
qed

lemma left_reset: "sw_left (fst (sw_reset w)) \<le> sw_left w"
  using left_update [of "sw_minWindow w" "bm_clear (sw_packetMap w)"]
  by (simp add: sw_reset_def split_beta sw_left_def sw_outstanding_def bm_clear_def bm_all_def)

lemma apply_keeps:
  assumes "bm_get (sw_packetMap w) k \<noteq> None" shows "bm_get (sw_packetMap (fst (sw_applyWindowSize w))) k \<noteq> None"
proof -
  have "map_of m k \<noteq> None \<Longrightarrow> map_of (fold (\<lambda>(k, v). jm_set k v) ws m) k \<noteq> None" for ws and m :: "(int, pkt_info) js_map"
    by (induction ws arbitrary: m) (auto simp: jm_set_def update_conv')
  then show ?thesis
    using assms by (simp add: sw_apply_eq bm_updateCapacity_def bm_resolve_map bm_get_def jm_get_def)
qed

text \<open>A packet of the window that a check at the time \<open>now\<close> sends again or gives up.\<close>

definition overdue :: "int \<Rightarrow> send_window \<Rightarrow> int \<Rightarrow> bool" where
  "overdue now w k \<longleftrightarrow> (\<exists>info. bm_get (sw_packetMap w) k = Some info \<and> of_int (now - pi_sentTime info) > rt_rto (sw_rtt w))"

lemma left_resendOne:
  "if overdue now w k then sw_left (fst (sw_resendOne now k w)) < sw_left w else sw_resendOne now k w = (w, [])"
proof (cases "overdue now w k")
  case True
  then obtain info where d: "bm_get (sw_packetMap w) k = Some info" "of_int (now - pi_sentTime info) > rt_rto (sw_rtt w)"
    by (auto simp: overdue_def)
  show ?thesis
  proof (cases "pi_resendTimes info < RESEND_TIMES_LIMIT")
    case lt: True
    let ?info = "info\<lparr>pi_resendTimes := pi_resendTimes info + 1, pi_sentTime := now\<rparr>"
    have "map_of (sw_outstanding w) k = Some info"
      using d(1) by (simp add: sw_outstanding_def bm_all_def bm_get_def jm_get_def)
    from weights_replace [OF this, of ?info] show ?thesis
      using True lt sw_resendOne_update(2) [OF d lt] by (simp add: sw_left_def weight_def)
  next
    case False
    let ?w = "fst (sw_applyWindowSize (w\<lparr>sw_cc := cc_onPacketLoss (sw_cc w)\<rparr>))"
    have "bm_get (sw_packetMap ?w) k \<noteq> None" using d(1) by (intro apply_keeps) simp
    then have "weights (bm_all (fst (bm_delete k (sw_packetMap ?w)))) < sw_left ?w"
      by (auto simp: sw_left_def sw_outstanding_def intro: left_delete_less)
    also have "\<dots> \<le> sw_left w"
      using left_apply [of "w\<lparr>sw_cc := cc_onPacketLoss (sw_cc w)\<rparr>"] by (simp add: sw_left_def)
    finally show ?thesis
      using True d False by (simp add: sw_resendOne_def split_beta sw_left_def sw_outstanding_def)
  qed
next
  case False
  then show ?thesis by (auto simp: overdue_def sw_resendOne_def split: option.splits)
qed

lemma left_do: "\<not> hands_over a \<Longrightarrow> sw_left (fst (sw_do a w)) \<le> sw_left w"
proof (cases a)
  case (ActResend now k)
  then show ?thesis using left_resendOne [of now w k] by (cases "overdue now w k") simp_all
qed (auto simp: left_handleAck left_reset)

subsection \<open>What is left of a connection\<close>

definition conn_left :: "conn \<Rightarrow> nat" where
  "conn_left s = sw_left (cn_sendWindow s) + (if cn_localFin s = None then 1 else 0)"

definition tail :: "conn \<Rightarrow> conn \<Rightarrow> bool" where
  "tail s t \<longleftrightarrow> (conn_over s \<longrightarrow> conn_over t)
     \<and> (cn_state s = CS_CLOSE_WAIT \<longrightarrow> conn_over t
          \<or> cn_state t = CS_CLOSE_WAIT \<and> cn_closeStartTime t = cn_closeStartTime s \<and> conn_left t \<le> conn_left s)"

lemma tail_refl [simp]: "tail s s"
  by (simp add: tail_def)

lemma tail_trans: "tail s t \<Longrightarrow> tail t u \<Longrightarrow> tail s u"
  by (auto simp: tail_def)

lemma tail_state:
  assumes "stage (cn_state s) \<le> stage st" shows "tail s (fst (set_localState st s))"
  using assms
  by (cases st)
    (auto simp: tail_def set_localState_def notifyStateChange_def split_beta conn_over_def conn_left_def)

interpretation tail: connecting_steps "\<lambda>s es t. tail s t"
proof
  fix s :: conn and st assume "stage (cn_state s) \<le> stage st"
  then show "tail s (fst (set_localState st s))" by (rule tail_state)
next
  fix s :: conn and a assume "hands_over a \<longrightarrow> cn_state s = CS_CONNECTED"
  then show "tail s (s\<lparr>cn_sendWindow := fst (sw_do a (cn_sendWindow s))\<rparr>)"
    using left_do [of a "cn_sendWindow s"] by (auto simp: tail_def conn_over_def conn_left_def)
next
  fix s t u :: conn assume "tail s t" "tail t u"
  then show "tail s u" by (rule tail_trans)
qed (auto simp: tail_def conn_over_def conn_left_def set_localSeqNr_def set_localAckNr_def conn_addListener_def
    conn_removeListener_def)

subsection \<open>A check that takes something\<close>

text \<open>
  The checks of a closing connection that find something to do: the window is empty, the limit of the
  close has passed, or, for the timer, a packet is due.
\<close>

fun ripe :: "env \<Rightarrow> conn_call \<Rightarrow> conn \<Rightarrow> bool" where
  "ripe env CallTimeoutCheck s \<longleftrightarrow> sw_isEmpty (cn_sendWindow s) \<or> closeElapsed env s > CLOSE_TIMEOUT_DURATION
     \<or> (\<exists>k \<in> set (sw_getAllSeqNrs (cn_sendWindow s)). overdue (env_now env) (cn_sendWindow s) k)"
| "ripe env CallClosePoll s \<longleftrightarrow> sw_isEmpty (cn_sendWindow s)
     \<or> (case cn_closeStartTime s of None \<Rightarrow> False | Some t \<Rightarrow> fl (env_perf env - t) > CLOSE_TIMEOUT_DURATION)"
| "ripe env c s \<longleftrightarrow> False"

definition advanced :: "conn \<Rightarrow> conn \<Rightarrow> bool" where
  "advanced s t \<longleftrightarrow> conn_over t \<or> conn_left t < conn_left s"

lemma advanced_tail: "cn_state t = CS_CLOSE_WAIT \<Longrightarrow> conn_left t < conn_left s \<Longrightarrow> tail t u \<Longrightarrow> advanced s u"
  by (auto simp: tail_def advanced_def)

lemma conn_resendOne_step:
  "conn_left (final (conn_resendOne env k s)) < conn_left s
   \<or> conn_resendOne env k s = (s, [], Inr ()) \<and> \<not> overdue (env_now env) (cn_sendWindow s) k"
proof (cases "overdue (env_now env) (cn_sendWindow s) k")
  case True
  let ?r = "sw_resendOne (env_now env) k (cn_sendWindow s)"
  let ?f = "\<lambda>out. case out of SwSend p addr \<Rightarrow> eff_bind (utp_send env p addr) (\<lambda>_. eff_return ())
      | SwAdmit k info \<Rightarrow> eff_update (\<lambda>s. (s, resumed s [(k, info)]))"
  have o: "final (?f out t) = t" for out t
    by (cases out) (simp_all add: eff_parts utp_send_parts split: sum.split)
  have "final (eff_forEach ?f outs t) = t" for outs t
    by (induction outs) (simp_all add: eff_parts o split: sum.split)
  then have "final (conn_resendOne env k s) = s\<lparr>cn_sendWindow := fst ?r\<rparr>"
    by (simp add: conn_resendOne_def split_beta eff_parts)
  then show ?thesis using True left_resendOne [of "env_now env" "cn_sendWindow s" k] by (simp add: conn_left_def)
next
  case False
  then have "sw_resendOne (env_now env) k (cn_sendWindow s) = (cn_sendWindow s, [])"
    using left_resendOne [of "env_now env" "cn_sendWindow s" k] by simp
  then show ?thesis using False by (simp add: conn_resendOne_def eff_defs)
qed

lemma resend_round:
  assumes "cn_state s = CS_CLOSE_WAIT"
  shows "conn_left (final (eff_forEach (conn_resendOne env) ks s)) < conn_left s
   \<or> eff_forEach (conn_resendOne env) ks s = (s, [], Inr ()) \<and> (\<forall>k \<in> set ks. \<not> overdue (env_now env) (cn_sendWindow s) k)"
  using assms
proof (induction ks)
  case Nil
  then show ?case by (simp add: eff_return_def)
next
  case (Cons k ks)
  let ?t = "final (conn_resendOne env k s)"
  show ?case
  proof (cases "conn_left ?t < conn_left s")
    case True
    have "cn_state ?t = CS_CLOSE_WAIT" using still_state [OF obeys_resendOne, of env k s] Cons.prems by simp
    moreover have "tail ?t (final (eff_forEach (conn_resendOne env) ks ?t))"
      by (rule obeysD [OF tail.obeys_forEach [OF tail.all_resendOne]])
    moreover have "cn_state (final (eff_forEach (conn_resendOne env) ks ?t)) = cn_state ?t"
      by (rule still_state [OF still.obeys_forEach [OF obeys_resendOne]])
    ultimately have "conn_left (final (eff_forEach (conn_resendOne env) ks ?t)) < conn_left s"
      using True by (auto simp: tail_def conn_over_def)
    then show ?thesis using True by (simp add: then_parts split: sum.split)
  next
    case False
    then have "conn_resendOne env k s = (s, [], Inr ())" "\<not> overdue (env_now env) (cn_sendWindow s) k"
      using conn_resendOne_step [of env k s] by auto
    then show ?thesis using Cons by (simp add: eff_then_def eff_bind_def)
  qed
qed

lemma forceClose_over: "conn_over (final (conn_forceClose s))"
  by (simp add: conn_over_def forceClose_parts)

lemma sendFin_left:
  "cn_state s = CS_CLOSE_WAIT \<Longrightarrow> cn_localFin s = None \<Longrightarrow> conn_left (final (conn_sendFin env s)) < conn_left s"
  by (simp add: sendFin_parts conn_left_def createFinPacket_def set_localSeqNr_def)

lemma trySafeRelease_advances:
  assumes "cn_state s = CS_CLOSE_WAIT" "sw_isEmpty (cn_sendWindow s) \<or> closeElapsed env s > CLOSE_TIMEOUT_DURATION"
  shows "advanced s (final (conn_trySafeRelease env s))"
proof -
  have e: "sw_isNotEmpty w \<longleftrightarrow> \<not> sw_isEmpty w" for w by (simp add: sw_isNotEmpty_def sw_isEmpty_def)
  have r: "conn_over (final (eff_then conn_removeSelf (eff_then conn_statRelease (eff_update (set_localState CS_CLOSED))) s))"
    by (simp add: eff_parts conn_removeSelf_def conn_statRelease_def conn_over_def setState_parts)
  show ?thesis
    using assms sendFin_left [of s env]
    by (auto simp: conn_trySafeRelease_def e advanced_def forceClose_over bind_parts r split: sum.split)
qed

lemma trySafeRelease_throws:
  assumes "cn_state s = CS_CLOSE_WAIT" "result (conn_trySafeRelease env s) = Inl err"
  shows "advanced s (final (conn_trySafeRelease env s))"
  using assms trySafeRelease_advances [of s env]
  by (auto simp: conn_trySafeRelease_def forceClose_parts sw_isNotEmpty_def sw_isEmpty_def split: if_splits)

text \<open>A check of the timer advances when it is ripe, and whenever it throws.\<close>

lemma timer_advances:
  assumes "cn_state s = CS_CLOSE_WAIT" "ripe env CallTimeoutCheck s \<or> (\<exists>err. result (conn_timeoutCheck env s) = Inl err)"
  shows "advanced s (final (conn_timeoutCheck env s))"
proof -
  let ?x = "conn_windowTimeoutCheck env s"
  have t: "conn_timeoutCheck env s = eff_then (conn_windowTimeoutCheck env) (conn_trySafeRelease env) s"
    using assms(1) by (simp add: conn_timeoutCheck_def)
  have x: "?x = eff_forEach (conn_resendOne env) (sw_getAllSeqNrs (cn_sendWindow s)) s"
    by (simp add: conn_windowTimeoutCheck_def)
  show ?thesis
  proof (cases "conn_left (final ?x) < conn_left s")
    case True
    have "cn_state (final ?x) = CS_CLOSE_WAIT" using still_state [OF obeys_windowTimeoutCheck, of env s] assms(1) by simp
    from advanced_tail [OF this True] have "advanced s (final (conn_trySafeRelease env (final ?x)))"
      using obeysD [OF tail.all_trySafeRelease] .
    then show ?thesis using True by (simp add: t then_parts advanced_def split: sum.split)
  next
    case False
    then have q: "?x = (s, [], Inr ())" "\<forall>k \<in> set (sw_getAllSeqNrs (cn_sendWindow s)). \<not> overdue (env_now env) (cn_sendWindow s) k"
      using resend_round [OF assms(1), of env "sw_getAllSeqNrs (cn_sendWindow s)"] by (auto simp: x)
    then show ?thesis
      using assms trySafeRelease_advances [OF assms(1), of env] trySafeRelease_throws [OF assms(1), of env]
      by (auto simp: t then_parts)
  qed
qed

lemma poll_advances:
  assumes "cn_state s = CS_CLOSE_WAIT" "ripe env CallClosePoll s"
  shows "advanced s (final (conn_closePoll env s))"
proof -
  let ?late = "case cn_closeStartTime s of None \<Rightarrow> False | Some t \<Rightarrow> fl (env_perf env - t) > CLOSE_TIMEOUT_DURATION"
  show ?thesis
  proof (cases ?late)
    case True
    then show ?thesis
      using assms(1) by (simp add: conn_closePoll_def conn_isClosed_def eff_parts forceClose_parts advanced_def forceClose_over)
  next
    case False
    then have "advanced s (final (conn_trySafeRelease env s))"
      using assms trySafeRelease_advances by auto
    then show ?thesis
      using False assms(1)
      by (simp add: conn_closePoll_def conn_isClosed_def eff_parts advanced_def forceClose_over split: sum.split)
  qed
qed

text \<open>Time makes every check of the timer ripe.\<close>

lemma ripe_in_time: "\<exists>T. \<forall>env. T \<le> env_now env \<longrightarrow> ripe env CallTimeoutCheck s"
proof (cases "bm_map (sw_packetMap (cn_sendWindow s))")
  case Nil
  then show ?thesis by (simp add: sw_isEmpty_def bm_size_def)
next
  case (Cons e es)
  obtain k info where e: "e = (k, info)" by (cases e)
  let ?w = "cn_sendWindow s"
  have k: "k \<in> set (sw_getAllSeqNrs ?w)" "bm_get (sw_packetMap ?w) k = Some info"
    by (simp_all add: sw_getAllSeqNrs_def bm_keys_def jm_keys_def bm_get_def jm_get_def Cons e)
  have "overdue (env_now env) ?w k" if "pi_sentTime info + \<lfloor>rt_rto (sw_rtt ?w)\<rfloor> + 1 \<le> env_now env" for env
  proof -
    have "\<lfloor>rt_rto (sw_rtt ?w)\<rfloor> < env_now env - pi_sentTime info" using that by simp
    then show ?thesis using k(2) by (simp add: overdue_def floor_less_iff)
  qed
  then show ?thesis using k(1) by (intro exI [of _ "pi_sentTime info + \<lfloor>rt_rto (sw_rtt ?w)\<rfloor> + 1"]) auto
qed

declare ripe.simps [simp del]

end
