(* ===== verification/SocketClose.thy ===== *)
theory SocketClose imports SocketRoute ConnClosing begin

text \<open>
  Closing a socket comes to an end: a turn of \<open>close\<close> leaves every connection of the table closing, each
  check of the timer and each poll that finds something to do takes from what they still have to do,
  nothing adds to it, and then the interval of \<open>close\<close> finds the table empty.
\<close>

subsection \<open>Closing the connections\<close>

definition early :: "conn \<Rightarrow> bool" where
  "early s \<longleftrightarrow> cn_state s \<in> {CS_SYN_SENT, CS_SYN_RECV, CS_CONNECTED}"

definition closing :: "rat \<Rightarrow> conn \<Rightarrow> bool" where
  "closing T s \<longleftrightarrow> cn_state s = CS_CLOSE_WAIT \<and> cn_closeStartTime s = Some T"

lemma close_early: "early s \<Longrightarrow> closing (env_perf env) (final (conn_close env s))"
proof -
  assume e: "early s"
  define s1 where "s1 = fst (set_localState CS_CLOSE_WAIT (s\<lparr>cn_closeStartTime := Some (env_perf env)\<rparr>))"
  have s1: "cn_state s1 = CS_CLOSE_WAIT" "cn_closeStartTime s1 = Some (env_perf env)"
    by (simp_all add: s1_def setState_parts) (simp add: set_localState_def notifyStateChange_def split_beta)
  have "closing (env_perf env) (final (conn_sendFin env s1))"
    using s1 by (simp add: sendFin_parts closing_def createFinPacket_def set_localSeqNr_def)
  then show ?thesis
    using e s1 unfolding early_def conn_close_def
    by (auto simp: conn_isClosed_def eff_parts s1_def [symmetric] closing_def split: sum.split)
qed

lemma close_late: "\<not> early s \<Longrightarrow> conn_close env s = (s, [], Inr False)"
  by (cases "cn_state s") (simp_all add: early_def conn_close_def conn_isClosed_def eff_return_def)

definition closes :: "rat \<Rightarrow> utp \<Rightarrow> utp \<Rightarrow> bool" where
  "closes T u v \<longleftrightarrow> set (ut_connTable v) \<subseteq> set (ut_connTable u) \<and> ut_udpSocket v = ut_udpSocket u
     \<and> length (ut_conns v) = length (ut_conns u)
     \<and> (\<forall>c < length (ut_conns u). (early (ut_conns u ! c) \<longrightarrow> early (ut_conns v ! c) \<or> closing T (ut_conns v ! c))
          \<and> (closing T (ut_conns u ! c) \<longrightarrow> closing T (ut_conns v ! c)))"

interpretation closes: preorder_rel "closes T" for T
proof
  fix u v w :: utp assume "closes T u v" "closes T v w"
  then show "closes T u w" unfolding closes_def by (metis subset_trans)
qed (simp add: closes_def)

lemma closeConn_final:
  "ut_conns (final (closeConn env c u)) = (ut_conns u)[c := final (conn_close (conn_env env u) (ut_conns u ! c))]"
  "set (ut_connTable (final (closeConn env c u))) \<subseteq> set (ut_connTable u)"
  "ut_udpSocket (final (closeConn env c u)) = ut_udpSocket u"
  "result (closeConn env c u) = Inr ()"
proof -
  let ?s = "ut_conns u ! c" and ?e = "conn_env env u"
  let ?x = "conn_close ?e ?s"
  have "conn_hist ?s (events ?x) (final ?x)" by (rule obeysD [OF obeys_close])
  then have "ut_connTable (fst (absorb c (events ?x) (u\<lparr>ut_conns := (ut_conns u)[c := final ?x]\<rparr>)))
      = (if EvRemoveConn (conn_uniqueId ?s) \<in> set (events ?x) then jm_del (conn_uniqueId ?s) (ut_connTable u) else ut_connTable u)"
    by (subst absorb_table [of _ "conn_uniqueId ?s"]) (simp_all add: conn_hist_def)
  then show "ut_conns (final (closeConn env c u)) = (ut_conns u)[c := final ?x]"
    "set (ut_connTable (final (closeConn env c u))) \<subseteq> set (ut_connTable u)"
    "ut_udpSocket (final (closeConn env c u)) = ut_udpSocket u" "result (closeConn env c u) = Inr ()"
    using jm_del_subset [of "conn_uniqueId ?s" "ut_connTable u"]
    by (auto simp: closeConn_def eff_parts onConn_def Let_def split_beta absorb_frame split: sum.splits if_splits)
qed

lemma closeConn_closes: "obeys (\<lambda>u es v. closes (env_perf env) u v) (closeConn env c)"
proof (rule obeysI)
  fix u :: utp
  have p: "env_perf (conn_env env u) = env_perf env" by (simp add: conn_env_def)
  let ?s = "ut_conns u ! c" and ?t = "final (conn_close (conn_env env u) (ut_conns u ! c))"
  have 1: "(early ?s \<longrightarrow> early ?t \<or> closing (env_perf env) ?t) \<and> (closing (env_perf env) ?s \<longrightarrow> closing (env_perf env) ?t)"
    using close_early [of ?s "conn_env env u"] close_late [of ?s "conn_env env u"]
    unfolding p by (cases "early ?s") simp_all
  have "(early (ut_conns u ! d) \<longrightarrow> early ((ut_conns u)[c := ?t] ! d) \<or> closing (env_perf env) ((ut_conns u)[c := ?t] ! d))
      \<and> (closing (env_perf env) (ut_conns u ! d) \<longrightarrow> closing (env_perf env) ((ut_conns u)[c := ?t] ! d))"
    if "d < length (ut_conns u)" for d
    using that 1 by (cases "c = d") simp_all
  then show "obeys_at (\<lambda>u es v. closes (env_perf env) u v) (closeConn env c) u"
    using closeConn_final(2) [of env c u] by (simp add: obeys_at_def closes_def closeConn_final(1,3))
qed

lemma closeConn_early:
  assumes "c < length (ut_conns u)" "early (ut_conns u ! c)"
  shows "closing (env_perf env) (ut_conns (final (closeConn env c u)) ! c)"
  using close_early [OF assms(2), of "conn_env env u"] assms(1) by (simp add: closeConn_final conn_env_def)

lemma forEach_close:
  assumes "c \<in> set cs" "c < length (ut_conns u)" "early (ut_conns u ! c)"
  shows "closing (env_perf env) (ut_conns (final (eff_forEach (closeConn env) cs u)) ! c)"
  using assms
proof (induction cs arbitrary: u)
  case (Cons d cs)
  let ?v = "final (closeConn env d u)"
  have f: "final (eff_forEach (closeConn env) (d # cs) u) = final (eff_forEach (closeConn env) cs ?v)"
    by (simp add: eff_parts closeConn_final(4))
  have uv: "closes (env_perf env) u ?v" by (rule obeysD [OF closeConn_closes])
  have vw: "closes (env_perf env) ?v (final (eff_forEach (closeConn env) cs ?v))"
    by (rule obeysD [OF closes.obeys_forEach [OF closeConn_closes]])
  have len: "c < length (ut_conns ?v)" using uv Cons.prems(2) by (simp add: closes_def)
  show ?case
  proof (cases "early (ut_conns ?v ! c)")
    case True
    then have "c \<noteq> d" using closeConn_early [of d u env] Cons.prems by (auto simp: closing_def early_def)
    then show ?thesis using Cons.IH [OF _ len True] Cons.prems(1) unfolding f by simp
  next
    case False
    then have "closing (env_perf env) (ut_conns ?v ! c)" using uv Cons.prems(2,3) by (auto simp: closes_def)
    then show ?thesis using vw len unfolding f by (simp add: closes_def)
  qed
qed simp

subsection \<open>A turn of the close\<close>

lemma closes_modify:
  "(\<And>u. ut_connTable (f u) = ut_connTable u \<and> ut_conns (f u) = ut_conns u \<and> ut_udpSocket (f u) = ut_udpSocket u)
    \<Longrightarrow> obeys (\<lambda>u es v. closes T u v) (eff_modify f)"
  by (rule closes.obeys_steps) (simp add: closes_def)

lemma ofListener_closes: "obeys (\<lambda>u es v. closes (env_perf env) u v) (ofListener env e)"
  by (cases "(env, e)" rule: ofListener.cases)
    (auto intro: closeConn_closes closes.obeys_steps closes.rel_refl)

lemma ofListener_result: "result (ofListener env e u) = Inr ()"
  by (cases "(env, e)" rule: ofListener.cases) (simp_all add: closeConn_final(4))

lemma forEach_result: "(\<And>x u. result (f x u) = Inr ()) \<Longrightarrow> result (eff_forEach f xs u) = Inr ()"
  by (induction xs arbitrary: u) (simp_all add: eff_parts)

subsection \<open>What every operation leaves of the closing connections\<close>

text \<open>
  No operation adds an old connection to the table, nor to what a closing one has to do.
\<close>

definition moves :: "utp \<Rightarrow> utp \<Rightarrow> bool" where
  "moves u v \<longleftrightarrow> length (ut_conns u) \<le> length (ut_conns v) \<and> (ut_udpSocket u \<longrightarrow> ut_udpSocket v)
     \<and> (\<forall>e \<in> set (ut_connTable v). snd e < length (ut_conns u) \<longrightarrow> e \<in> set (ut_connTable u))
     \<and> (\<forall>c < length (ut_conns u). tail (ut_conns u ! c) (ut_conns v ! c))"

lemma moves_trans:
  assumes "moves u v" "moves v w" shows "moves u w"
proof -
  have l: "length (ut_conns u) \<le> length (ut_conns v)" "length (ut_conns v) \<le> length (ut_conns w)"
    using assms by (simp_all add: moves_def)
  have "tail (ut_conns u ! c) (ut_conns w ! c)" if "c < length (ut_conns u)" for c
    using that l assms tail_trans [of "ut_conns u ! c" "ut_conns v ! c" "ut_conns w ! c"] by (simp add: moves_def)
  then show ?thesis using assms l by (auto simp: moves_def dest: order_less_le_trans)
qed

lemma moves_conn:
  fixes u :: utp
  assumes "conn_hist (ut_conns u ! c) es t" "tail (ut_conns u ! c) t"
  shows "moves u (fst (absorb c es (u\<lparr>ut_conns := (ut_conns u)[c := t]\<rparr>)))"
proof -
  let ?v = "fst (absorb c es (u\<lparr>ut_conns := (ut_conns u)[c := t]\<rparr>))" and ?k = "conn_uniqueId (ut_conns u ! c)"
  have "ut_connTable ?v = (if EvRemoveConn ?k \<in> set es then jm_del ?k (ut_connTable u) else ut_connTable u)"
    using assms(1) by (subst absorb_table [of _ ?k]) (simp_all add: conn_hist_def)
  then have "set (ut_connTable ?v) \<subseteq> set (ut_connTable u)" using jm_del_subset [of ?k "ut_connTable u"] by auto
  moreover have "tail (ut_conns u ! d) ((ut_conns u)[c := t] ! d)" if "d < length (ut_conns u)" for d
    using that assms(2) by (cases "d = c") simp_all
  ultimately show ?thesis by (auto simp: moves_def absorb_frame)
qed

interpretation moves: socket_steps "\<lambda>u es v. moves u v" "\<lambda>s es t. conn_hist s es t \<and> tail s t"
proof -
  have m: "obeys (\<lambda>s es t. conn_hist s es t \<and> tail s t) m \<longleftrightarrow> obeys conn_hist m \<and> obeys (\<lambda>s es t. tail s t) m"
    for m :: "'a conn_eff"
    by (auto simp: obeys_def obeys_at_def)
  have new: "moves u (u\<lparr>ut_conns := ut_conns u @ [s], ut_connTable := jm_set k (length (ut_conns u)) (ut_connTable u)\<rparr>)"
    for u :: utp and s k
    using jm_set_subset [of k "length (ut_conns u)" "ut_connTable u"]
    by (auto simp: moves_def nth_append)
  have same: "moves u v" if "ut_connTable v = ut_connTable u" "ut_conns v = ut_conns u" "ut_udpSocket u \<longrightarrow> ut_udpSocket v"
    for u v :: utp
    using that by (simp add: moves_def)
  show "socket_steps (\<lambda>u es v. moves u v) (\<lambda>s es t. conn_hist s es t \<and> tail s t)"
    by unfold_locales
      (auto simp: m obeys_do tail.every_do obeys_close tail.all_close obeys_reset tail.all_reset obeys_timeoutCheck
        tail.all_timeoutCheck obeys_handleIncomingPacket tail.all_handleIncomingPacket tail.all_waitForConnecting
        calm_obeys_all [OF calm_waitForConnecting] moves_conn intro: same new moves_trans)
qed

text \<open>What the connections of the table still have to do, each to leave the table included.\<close>

definition socket_left :: "utp \<Rightarrow> nat" where
  "socket_left u = (\<Sum>e \<in> set (ut_connTable u). Suc (conn_left (ut_conns u ! snd e)))"

text \<open>The table of a socket that closes, as it is between operations.\<close>

definition all_closing :: "utp \<Rightarrow> bool" where
  "all_closing u \<longleftrightarrow> table_ok u \<and> (\<forall>(k, c) \<in> set (ut_connTable u). cn_state (ut_conns u ! c) = CS_CLOSE_WAIT)"

lemma closing_entry:
  assumes "all_closing u" "(k, c) \<in> set (ut_connTable u)"
  shows "c < length (ut_conns u)" "cn_state (ut_conns u ! c) = CS_CLOSE_WAIT" "conn_uniqueId (ut_conns u ! c) = k"
  using assms by (auto simp: all_closing_def table_ok_def live_entry_def)

lemma moves_entry:
  assumes "moves u v" "table_ok v" "(k, c) \<in> set (ut_connTable v)" "c < length (ut_conns u)"
  shows "(k, c) \<in> set (ut_connTable u)"
    and "cn_state (ut_conns u ! c) = CS_CLOSE_WAIT \<Longrightarrow> cn_state (ut_conns v ! c) = CS_CLOSE_WAIT
      \<and> cn_closeStartTime (ut_conns v ! c) = cn_closeStartTime (ut_conns u ! c)
      \<and> conn_left (ut_conns v ! c) \<le> conn_left (ut_conns u ! c)"
proof -
  have "\<not> conn_over (ut_conns v ! c)" using assms(2,3) by (auto simp: table_ok_def live_entry_def)
  then show "cn_state (ut_conns u ! c) = CS_CLOSE_WAIT \<Longrightarrow> cn_state (ut_conns v ! c) = CS_CLOSE_WAIT
      \<and> cn_closeStartTime (ut_conns v ! c) = cn_closeStartTime (ut_conns u ! c)
      \<and> conn_left (ut_conns v ! c) \<le> conn_left (ut_conns u ! c)"
    using assms(1,4) by (auto simp: moves_def tail_def)
  show "(k, c) \<in> set (ut_connTable u)" using assms by (force simp: moves_def)
qed

text \<open>An operation that makes no connection.\<close>

definition shrinks :: "utp \<Rightarrow> utp \<Rightarrow> bool" where
  "shrinks u v \<longleftrightarrow> moves u v \<and> table_ok v \<and> length (ut_conns v) = length (ut_conns u)"

lemma shrinks_closing:
  assumes "all_closing u" "shrinks u v"
  shows "all_closing v" "set (ut_connTable v) \<subseteq> set (ut_connTable u)" "socket_left v \<le> socket_left u"
    and "\<exists>e \<in> set (ut_connTable u). e \<notin> set (ut_connTable v) \<or> conn_left (ut_conns v ! snd e) < conn_left (ut_conns u ! snd e)
      \<Longrightarrow> socket_left v < socket_left u"
proof -
  let ?f = "\<lambda>w e. Suc (conn_left (ut_conns w ! snd e))"
  have m: "moves u v" "table_ok v" "length (ut_conns v) = length (ut_conns u)" using assms(2) by (simp_all add: shrinks_def)
  have len: "snd e < length (ut_conns u)" if "e \<in> set (ut_connTable v)" for e
    using that m(2,3) by (auto simp: table_ok_def live_entry_def)
  show sub: "set (ut_connTable v) \<subseteq> set (ut_connTable u)" using m(1) len by (auto simp: moves_def)
  have each: "cn_state (ut_conns v ! c) = CS_CLOSE_WAIT \<and> conn_left (ut_conns v ! c) \<le> conn_left (ut_conns u ! c)"
    if "(k, c) \<in> set (ut_connTable v)" for k c
    using moves_entry [OF m(1,2) that] len [OF that] closing_entry(2) [OF assms(1)] by auto
  then show "all_closing v" using m(2) by (auto simp: all_closing_def)
  have le: "(\<Sum>e \<in> set (ut_connTable v). ?f v e) \<le> (\<Sum>e \<in> set (ut_connTable v). ?f u e)"
    using each by (intro sum_mono) auto
  moreover have "(\<Sum>e \<in> set (ut_connTable v). ?f u e) \<le> (\<Sum>e \<in> set (ut_connTable u). ?f u e)"
    using sub by (intro sum_mono2) auto
  ultimately show "socket_left v \<le> socket_left u" by (simp add: socket_left_def)
  assume "\<exists>e \<in> set (ut_connTable u). e \<notin> set (ut_connTable v) \<or> conn_left (ut_conns v ! snd e) < conn_left (ut_conns u ! snd e)"
  then obtain e where e: "e \<in> set (ut_connTable u)"
    "e \<notin> set (ut_connTable v) \<or> conn_left (ut_conns v ! snd e) < conn_left (ut_conns u ! snd e)" by blast
  show "socket_left v < socket_left u"
  proof (cases "e \<in> set (ut_connTable v)")
    case True
    then have "(\<Sum>e \<in> set (ut_connTable v). ?f v e) < (\<Sum>e \<in> set (ut_connTable v). ?f u e)"
      using each e(2) by (intro sum_strict_mono_ex1) auto
    also have "\<dots> \<le> (\<Sum>e \<in> set (ut_connTable u). ?f u e)" using sub by (intro sum_mono2) auto
    finally show ?thesis by (simp add: socket_left_def)
  next
    case False
    then have "(\<Sum>e \<in> set (ut_connTable v). ?f u e) < (\<Sum>e \<in> set (ut_connTable u). ?f u e)"
      using sub e(1) by (intro sum_strict_mono2 [of _ _ e]) auto
    then show ?thesis using le by (simp add: socket_left_def)
  qed
qed

lemma shrinksI:
  assumes "obeys (\<lambda>u es v. moves u v) m" "obeys utp_hist m" "obeys (\<lambda>u es v. untouched UNIV u v) m" "table_ok u"
  shows "shrinks u (final (m u))"
  using obeysD [OF assms(1), of u] obeysD [OF assms(2), of u] obeysD [OF assms(3), of u] assms(4)
  by (simp add: shrinks_def utp_hist_def untouched_def)

subsection \<open>Checks that find something to do\<close>

lemma ripe_env: "ripe (conn_env env u) call s = ripe env call s"
  by (cases call) (simp_all add: ripe.simps conn_env_def closeElapsed_def split: option.split)

lemma addConnection_result: "result (utp_addConnection env c u) = Inr ()"
  by (simp add: utp_addConnection_def split_beta eff_parts forEach_result ofListener_result)

lemma runConn_parts:
  fixes u :: utp and env :: env and c :: nat and m :: "env \<Rightarrow> 'a conn_eff"
  defines "v \<equiv> final (onConn env c m u)"
  shows "final (runConn env c m u) = v \<or> final (runConn env c m u) = final (utp_addConnection env c v)"
    and "result (runConn env c m u) = result (m (conn_env env u) (ut_conns u ! c))"
proof -
  have "result (onConn env c m u) = result (m (conn_env env u) (ut_conns u ! c))"
    by (simp add: onConn_def Let_def split_beta)
  then show "final (runConn env c m u) = v \<or> final (runConn env c m u) = final (utp_addConnection env c v)"
    "result (runConn env c m u) = result (m (conn_env env u) (ut_conns u ! c))"
    unfolding runConn_def v_def
    by (auto simp: eff_parts addConnection_result split: sum.split)
qed

text \<open>A method of a closing connection that advances it takes from what the socket has to do.\<close>

lemma run_advances:
  fixes u :: utp and m :: "env \<Rightarrow> 'a conn_eff"
  assumes u: "all_closing u" "(k, c) \<in> set (ut_connTable u)"
    and m: "\<And>e. obeys conn_hist (m e)" "\<And>e. kept (m e)" "\<And>e. obeys (\<lambda>s es t. tail s t) (m e)"
    and adv: "advanced (ut_conns u ! c) (final (m (conn_env env u) (ut_conns u ! c)))"
  shows "socket_left (final (runConn env c m u)) < socket_left u"
proof -
  define v where "v = final (onConn env c m u)"
  let ?t = "final (m (conn_env env u) (ut_conns u ! c))"
  have P: "obeys (\<lambda>s es t. conn_hist s es t \<and> tail s t) (m e)" "obeys (\<lambda>s es t. conn_hist s es t \<and> keeps s t) (m e)" for e
    using m by (auto simp: obeys_def obeys_at_def)
  have uv: "shrinks u v"
    unfolding v_def using u(1)
    by (intro shrinksI moves.all_onConn sock.all_onConn onConn_untouched P) (simp_all add: all_closing_def)
  have v: "ut_conns v = (ut_conns u)[c := ?t]" by (simp add: v_def onConn_def Let_def split_beta absorb_frame)
  note c = closing_entry [OF u]
  have "(k, c) \<notin> set (ut_connTable v) \<or> conn_left (ut_conns v ! c) < conn_left (ut_conns u ! c)"
    using adv c(1) uv unfolding advanced_def by (auto simp: v shrinks_def table_ok_def live_entry_def)
  then have less: "socket_left v < socket_left u"
    using shrinks_closing(4) [OF u(1) uv] u(2) by force
  have "shrinks v (final (utp_addConnection env c v))"
    using uv by (intro shrinksI moves.all_addConnection sock.all_addConnection addConnection_untouched) (simp_all add: shrinks_def)
  then have "socket_left (final (utp_addConnection env c v)) \<le> socket_left v"
    by (rule shrinks_closing(3) [OF shrinks_closing(1) [OF u(1) uv]])
  then show ?thesis using less runConn_parts(1) [of env c m u, folded v_def] by auto
qed

lemma timeoutOne_untouched: "snd e \<in> D \<Longrightarrow> obeys (\<lambda>u es v. untouched D u v) (utp_timeoutOne env e)"
  unfolding utp_timeoutOne_def by (intro untouched.obeys_intros runConn_untouched)

lemma timeoutOne_shrinks: "all_closing u \<Longrightarrow> shrinks u (final (utp_timeoutOne env e u))"
  by (intro shrinksI moves.all_timeoutOne sock.all_timeoutOne timeoutOne_untouched) (simp_all add: all_closing_def)

lemma timeoutOne_cases:
  assumes u: "all_closing u"
  shows "(k, c) \<notin> set (ut_connTable u) \<Longrightarrow> utp_timeoutOne env (k, c) u = (u, [], Inr ())"
    and "(k, c) \<in> set (ut_connTable u) \<Longrightarrow>
      ripe env CallTimeoutCheck (ut_conns u ! c) \<or> (\<exists>err. result (utp_timeoutOne env (k, c) u) = Inl err)
      \<Longrightarrow> socket_left (final (utp_timeoutOne env (k, c) u)) < socket_left u"
proof -
  have f: "utp_findConn k u = Some c \<longleftrightarrow> (k, c) \<in> set (ut_connTable u)"
    using u by (simp add: utp_findConn_def wf_entry all_closing_def table_ok_def)
  show "(k, c) \<notin> set (ut_connTable u) \<Longrightarrow> utp_timeoutOne env (k, c) u = (u, [], Inr ())"
    by (simp add: utp_timeoutOne_def f eff_return_def)
  assume e: "(k, c) \<in> set (ut_connTable u)"
    and r: "ripe env CallTimeoutCheck (ut_conns u ! c) \<or> (\<exists>err. result (utp_timeoutOne env (k, c) u) = Inl err)"
  note c = closing_entry [OF u e]
  have t: "utp_timeoutOne env (k, c) u = runConn env c conn_timeoutCheck u"
    using c(2) e by (simp add: utp_timeoutOne_def f)
  have "advanced (ut_conns u ! c) (final (conn_timeoutCheck (conn_env env u) (ut_conns u ! c)))"
    using r timer_advances [OF c(2), of "conn_env env u"]
    by (auto simp: ripe_env t runConn_parts(2))
  then show "socket_left (final (utp_timeoutOne env (k, c) u)) < socket_left u"
    unfolding t by (intro run_advances [OF u e] obeys_timeoutCheck kept.all_timeoutCheck tail.all_timeoutCheck)
qed

lemma timer_round:
  assumes "all_closing u" "(k, c) \<in> set es" "(k, c) \<in> set (ut_connTable u)" "ripe env CallTimeoutCheck (ut_conns u ! c)"
  shows "socket_left (final (eff_forEach (utp_timeoutOne env) es u)) < socket_left u"
  using assms
proof (induction es arbitrary: u)
  case (Cons e es)
  let ?v = "final (utp_timeoutOne env e u)"
  let ?w = "final (eff_forEach (utp_timeoutOne env) es ?v)"
  have uv: "shrinks u ?v" by (rule timeoutOne_shrinks [OF Cons.prems(1)])
  note v = shrinks_closing [OF Cons.prems(1) uv]
  have "shrinks ?v ?w"
    using v(1)
    by (intro shrinksI moves.obeys_forEach moves.all_timeoutOne sock.obeys_forEach sock.all_timeoutOne
        untouched.obeys_forEach timeoutOne_untouched) (simp_all add: all_closing_def)
  then have vw: "socket_left ?w \<le> socket_left ?v" by (rule shrinks_closing(3) [OF v(1)])
  obtain k' c' where e: "e = (k', c')" by (cases e)
  note cases = timeoutOne_cases [OF Cons.prems(1), of k' c' env, folded e]
  have "socket_left ?v < socket_left u \<or> (\<exists>x. result (utp_timeoutOne env e u) = Inr x) \<and> socket_left ?w < socket_left u"
  proof (cases "(k', c') = (k, c)")
    case True
    then show ?thesis using cases(2) Cons.prems(3,4) by (auto simp: e)
  next
    case other: False
    then have es: "(k, c) \<in> set es" using Cons.prems(2) e by auto
    show ?thesis
    proof (cases "e \<in> set (ut_connTable u)")
      case False
      then have "utp_timeoutOne env e u = (u, [], Inr ())" using cases(1) e by simp
      then show ?thesis using Cons.IH [OF Cons.prems(1) es Cons.prems(3,4)] by simp
    next
      case True
      then have "c' \<noteq> c" using other closing_entry(3) [OF Cons.prems(1)] Cons.prems(3) e by auto
      moreover have "untouched {c'} u ?v" using obeysD [OF timeoutOne_untouched, of e "{c'}" u env] e by simp
      ultimately have same: "ut_conns ?v ! c = ut_conns u ! c" by (simp add: untouched_def)
      have "socket_left ?w < socket_left ?v" if "(k, c) \<in> set (ut_connTable ?v)"
        using Cons.IH [OF v(1) es that] Cons.prems(4) same by simp
      moreover have "socket_left ?v < socket_left u" if "(k, c) \<notin> set (ut_connTable ?v)"
        using v(4) that Cons.prems(3) by blast
      ultimately show ?thesis
        using v(3) cases(2) True e
        by (cases "result (utp_timeoutOne env e u)"; cases "(k, c) \<in> set (ut_connTable ?v)") auto
    qed
  qed
  then show ?case using vw by (auto simp: then_parts split: sum.split)
qed simp

lemma poll_round:
  assumes "all_closing u" "(k, c) \<in> set (ut_connTable u)" "ripe env CallClosePoll (ut_conns u ! c)"
  shows "socket_left (final (utp_do (OpConn env c CallClosePoll) u)) < socket_left u"
proof -
  have "advanced (ut_conns u ! c) (final (conn_do (conn_env env u) CallClosePoll (ut_conns u ! c)))"
    using poll_advances [OF closing_entry(2) [OF assms(1,2)], of "conn_env env u"] assms(3)
    by (simp add: ripe_env drop_result_def bind_parts split: sum.split)
  then show ?thesis
    unfolding utp_do.simps by (intro run_advances [OF assms(1,2)] obeys_do kept.every_do tail.every_do)
qed

subsection \<open>Closing a socket\<close>

text \<open>A turn of the close closes every connection that is not closing yet.\<close>

lemma tryClose_closes: "closes (env_perf env) u (final (utp_tryCloseSocket env u))"
proof (cases "ut_connTable u = []")
  case True
  then show ?thesis
    by (simp add: utp_tryCloseSocket_def utp_connSize_def utp_stopTimeoutCheck_def eff_parts closes_def)
next
  case False
  let ?cs = "filter (\<lambda>c. cn_state (ut_conns u ! c) \<notin> {CS_CLOSE_WAIT, CS_CLOSED}) (map snd (ut_connTable u))"
  have "final (utp_tryCloseSocket env u) = final (eff_forEach (closeConn env) ?cs u)"
    using False by (simp add: utp_tryCloseSocket_def utp_connSize_def eff_parts forEach_result closeConn_final(4))
  moreover have "closes (env_perf env) u (final (eff_forEach (closeConn env) ?cs u))"
    by (rule obeysD [OF closes.obeys_forEach [OF closeConn_closes]])
  ultimately show ?thesis by simp
qed

lemma tryClose_entry:
  fixes u :: utp and env :: env
  defines "v \<equiv> final (utp_tryCloseSocket env u)"
  assumes "(k, c) \<in> set (ut_connTable v)" "c < length (ut_conns u)" "early (ut_conns u ! c)"
  shows "closing (env_perf env) (ut_conns v ! c)"
proof -
  have e: "(k, c) \<in> set (ut_connTable u)" using tryClose_closes [of env u] assms(2) by (auto simp: v_def closes_def)
  let ?cs = "filter (\<lambda>c. cn_state (ut_conns u ! c) \<notin> {CS_CLOSE_WAIT, CS_CLOSED}) (map snd (ut_connTable u))"
  have "v = final (eff_forEach (closeConn env) ?cs u)"
    using e by (auto simp: v_def utp_tryCloseSocket_def utp_connSize_def eff_parts forEach_result closeConn_final(4))
  moreover have "c \<in> set ?cs" using e assms(4) by (force simp: early_def)
  ultimately show ?thesis using forEach_close [OF _ assms(3,4)] by simp
qed

text \<open>What \<open>close\<close> does before its first turn.\<close>

lemma close_prelude:
  fixes u :: utp
  assumes "ut_state u = US_ACTIVE"
  obtains u2 where "closes (env_perf env) u u2" "final (utp_close env u) = final (utp_tryCloseSocket env u2)"
proof -
  define l where "l = eff_read (\<lambda>u. li_close (ut_listener u)) (\<lambda>(l, outs).
      eff_then (eff_modify (\<lambda>u. u\<lparr>ut_listener := l\<rparr>)) (eff_forEach (ofListener env) outs))"
  define u1 where "u1 = u\<lparr>ut_state := US_CLOSE_WAIT\<rparr>"
  have "obeys (\<lambda>u es v. closes (env_perf env) u v) l"
    unfolding l_def
    by (intro closes.obeys_read) (auto split: prod.split intro!: closes.obeys_intros closes_modify ofListener_closes)
  from obeysD [OF this, of u1] have "closes (env_perf env) u (final (l u1))" by (simp add: closes_def u1_def)
  moreover have "result (l u1) = Inr ()"
    by (auto simp: l_def eff_parts forEach_result ofListener_result split: prod.split)
  then have "final (utp_close env u) = final (utp_tryCloseSocket env (final (l u1)))"
    using assms by (simp add: utp_close_def eff_parts u1_def [symmetric] l_def [symmetric])
  ultimately show ?thesis by (rule that)
qed

lemma turn_closing:
  fixes u :: utp and env :: env
  assumes ok: "table_ok u" and op: "op = OpClose env \<and> ut_state u = US_ACTIVE \<or> op = OpTryClose env"
  defines "v \<equiv> final (utp_do op u)"
  shows "all_closing v" "length (ut_conns v) = length (ut_conns u)"
    and "(k, c) \<in> set (ut_connTable v) \<Longrightarrow> early (ut_conns u ! c) \<Longrightarrow> closing (env_perf env) (ut_conns v ! c)"
proof -
  obtain u2 where u2: "closes (env_perf env) u u2" "v = final (utp_tryCloseSocket env u2)"
  proof (cases "op = OpTryClose env")
    case True
    then show ?thesis using that [OF closes.rel_refl] by (simp add: v_def bind_parts split: sum.split)
  next
    case False
    then obtain u2 where "closes (env_perf env) u u2" "final (utp_close env u) = final (utp_tryCloseSocket env u2)"
      using op close_prelude by blast
    moreover have "v = final (utp_close env u)" using False op by (simp add: v_def bind_parts split: sum.split)
    ultimately show ?thesis using that by simp
  qed
  have c3: "closes (env_perf env) u2 v" unfolding u2(2) by (rule tryClose_closes)
  then show len: "length (ut_conns v) = length (ut_conns u)" using u2(1) by (simp add: closes_def)
  have okv: "table_ok v" using obeysD [OF sock.all_do [of op], of u] ok by (simp add: v_def utp_hist_def)
  have cl: "closing (env_perf env) (ut_conns v ! c)"
    if e: "(k, c) \<in> set (ut_connTable v)" and "early (ut_conns u ! c)" for k c
  proof -
    have c: "c < length (ut_conns u)" "c < length (ut_conns u2)"
      using e okv len u2(1) by (auto simp: table_ok_def live_entry_def closes_def)
    then have "early (ut_conns u2 ! c) \<or> closing (env_perf env) (ut_conns u2 ! c)"
      using u2(1) that(2) by (simp add: closes_def)
    then show ?thesis using tryClose_entry [OF e [unfolded u2(2)] c(2)] c3 c(2) by (auto simp: u2(2) closes_def)
  qed
  then show "(k, c) \<in> set (ut_connTable v) \<Longrightarrow> early (ut_conns u ! c) \<Longrightarrow> closing (env_perf env) (ut_conns v ! c)" .
  have m: "moves u v" unfolding v_def by (rule obeysD [OF moves.all_do])
  have "cn_state (ut_conns v ! c) = CS_CLOSE_WAIT" if e: "(k, c) \<in> set (ut_connTable v)" for k c
  proof -
    have c: "c < length (ut_conns u)" using e okv len by (auto simp: table_ok_def live_entry_def)
    have "live_entry u (k, c)" using moves_entry(1) [OF m okv e c] ok by (auto simp: table_ok_def)
    then have "early (ut_conns u ! c) \<or> cn_state (ut_conns u ! c) = CS_CLOSE_WAIT"
      by (cases "cn_state (ut_conns u ! c)") (simp_all add: live_entry_def conn_over_def early_def)
    then show ?thesis using cl [OF e] moves_entry(2) [OF m okv e c] by (auto simp: closing_def)
  qed
  then show "all_closing v" using okv by (auto simp: all_closing_def)
qed

text \<open>
  What happens after a turn of the close: any operation; \<open>n\<close> counts the rounds of the socket's timer in
  which a connection of the table has something to do, and the polls of such connections.
\<close>

inductive closing_run :: "utp \<Rightarrow> nat \<Rightarrow> utp \<Rightarrow> bool" for v where
  closing_start: "closing_run v 0 v"
| closing_op: "closing_run v n w \<Longrightarrow> closing_run v n (final (utp_do op w))"
| closing_timer: "closing_run v n w \<Longrightarrow> (k, c) \<in> set (ut_connTable w) \<Longrightarrow> ripe env CallTimeoutCheck (ut_conns w ! c)
    \<Longrightarrow> closing_run v (Suc n) (final (utp_do (OpTimeoutCheck env) w))"
| closing_poll: "closing_run v n w \<Longrightarrow> (k, c) \<in> set (ut_connTable w) \<Longrightarrow> ripe env CallClosePoll (ut_conns w ! c)
    \<Longrightarrow> closing_run v (Suc n) (final (utp_do (OpConn env c CallClosePoll) w))"

definition closed_down :: "utp \<Rightarrow> nat \<Rightarrow> utp \<Rightarrow> bool" where
  "closed_down v n w \<longleftrightarrow> moves v w \<and> table_ok w
     \<and> (length (ut_conns w) = length (ut_conns v) \<longrightarrow> all_closing w \<and> n + socket_left w \<le> socket_left v)"

lemma closed_down_step:
  assumes "closed_down v n w" "k = 0 \<or> (all_closing w \<longrightarrow> socket_left (final (utp_do op w)) < socket_left w)" "k \<le> 1"
  shows "closed_down v (n + k) (final (utp_do op w))"
proof -
  let ?x = "final (utp_do op w)"
  have m: "moves w ?x" by (rule obeysD [OF moves.all_do])
  have ok: "table_ok ?x" using obeysD [OF sock.all_do [of op], of w] assms(1) by (simp add: closed_down_def utp_hist_def)
  show ?thesis
  proof (cases "length (ut_conns ?x) = length (ut_conns v)")
    case True
    then have l: "length (ut_conns w) = length (ut_conns v)" "length (ut_conns ?x) = length (ut_conns w)"
      using m assms(1) by (simp_all add: closed_down_def moves_def)
    then have w: "all_closing w" "n + socket_left w \<le> socket_left v" using assms(1) by (simp_all add: closed_down_def)
    have "shrinks w ?x" using m ok l(2) by (simp add: shrinks_def)
    note x = shrinks_closing [OF w(1) this]
    have "k + socket_left ?x \<le> socket_left w" using assms(2,3) w(1) x(3) by (cases "k = 0") auto
    then show ?thesis
      using assms(1) w(2) x(1) m ok moves_trans [of v w ?x] by (simp add: closed_down_def)
  next
    case False
    then show ?thesis using assms(1) m ok moves_trans [of v w ?x] by (simp add: closed_down_def)
  qed
qed

lemma closing_run_down: "closing_run v n w \<Longrightarrow> all_closing v \<Longrightarrow> closed_down v n w"
proof (induction rule: closing_run.induct)
  case closing_start
  then show ?case by (simp add: closed_down_def moves.hist_refl all_closing_def)
next
  case (closing_op n w op)
  then show ?case using closed_down_step [of v n w 0 op] by simp
next
  case (closing_timer n w k c env)
  have "all_closing w \<Longrightarrow> socket_left (final (utp_do (OpTimeoutCheck env) w)) < socket_left w"
    using timer_round [OF _ closing_timer.hyps(2,2,3)] by (simp add: utp_timeoutCheck_def)
  then show ?case using closed_down_step [of v n w 1 "OpTimeoutCheck env"] closing_timer by simp
next
  case (closing_poll n w k c env)
  have "all_closing w \<Longrightarrow> socket_left (final (utp_do (OpConn env c CallClosePoll) w)) < socket_left w"
    by (rule poll_round [OF _ closing_poll.hyps(2,3)])
  then show ?case using closed_down_step [of v n w 1 "OpConn env c CallClosePoll"] closing_poll by simp
qed

text \<open>
  C13. Closing a socket comes to an end. Take a turn of the close (\<open>close\<close> itself or a later turn of its
  interval) and let anything happen afterwards: datagrams, new connections, calls, timers, in any order
  and with any failing sends. Every connection that was there at the turn and is still in the table is
  in CLOSE-WAIT, and if the turn closed it, the start of its close is the time of the turn and never
  moves. Each round of the socket's timer in which a connection of the table has something to do (its
  limit has passed, its window is empty, or a packet is due), and each such poll, takes from a number
  that nothing adds to: when there were as many as the turn left to do and no connection was made, the
  table is empty. Time makes every check of the timer such a one. And the turn that finds the table
  empty closes the UDP socket and resolves the promise of \<open>close\<close>. A connection made after the turn is
  closed by the next one, to which all of this applies; so only a peer or a program that keeps opening
  connections keeps a socket from closing.
\<close>

theorem socket_close_ends:
  fixes env :: env and u :: utp
  assumes "utp_run utp_new es u" "ut_udpSocket u"
    and "op = OpClose env \<and> ut_state u = US_ACTIVE \<or> op = OpTryClose env"
  defines "v \<equiv> final (utp_do op u)"
  assumes "closing_run v n w"
  shows "(\<forall>(k, c) \<in> set (ut_connTable w). c < length (ut_conns v) \<longrightarrow>
        (k, c) \<in> set (ut_connTable u) \<and> cn_state (ut_conns w ! c) = CS_CLOSE_WAIT
        \<and> (cn_state (ut_conns u ! c) \<in> {CS_SYN_SENT, CS_SYN_RECV, CS_CONNECTED} \<longrightarrow>
             cn_closeStartTime (ut_conns w ! c) = Some (env_perf env)))
    \<and> (length (ut_conns w) = length (ut_conns v) \<longrightarrow> n + socket_left w \<le> socket_left v
        \<and> (socket_left v \<le> n \<longrightarrow> ut_connTable w = []))
    \<and> (\<forall>(k, c) \<in> set (ut_connTable w). \<exists>T. \<forall>env'. T \<le> env_now env' \<longrightarrow> ripe env' CallTimeoutCheck (ut_conns w ! c))
    \<and> (ut_connTable w = [] \<longrightarrow> result (utp_tryCloseSocket env'' w) = Inr True
        \<and> ut_state (final (utp_tryCloseSocket env'' w)) = US_CLOSED \<and> UdpClose \<in> set (events (utp_tryCloseSocket env'' w)))"
proof -
  note turn = turn_closing [OF run_table_ok [OF assms(1)] assms(3), folded v_def]
  have m: "moves v w" "table_ok w"
    and d: "length (ut_conns w) = length (ut_conns v) \<longrightarrow> n + socket_left w \<le> socket_left v"
    using closing_run_down [OF assms(5) turn(1)] by (simp_all add: closed_down_def)
  have uv: "moves u v" unfolding v_def by (rule obeysD [OF moves.all_do])
  have "(k, c) \<in> set (ut_connTable u) \<and> cn_state (ut_conns w ! c) = CS_CLOSE_WAIT
      \<and> (early (ut_conns u ! c) \<longrightarrow> cn_closeStartTime (ut_conns w ! c) = Some (env_perf env))"
    if e: "(k, c) \<in> set (ut_connTable w)" "c < length (ut_conns v)" for k c
  proof -
    have v: "(k, c) \<in> set (ut_connTable v)" by (rule moves_entry(1) [OF m e])
    then have s: "cn_state (ut_conns v ! c) = CS_CLOSE_WAIT" by (rule closing_entry(2) [OF turn(1)])
    have "(k, c) \<in> set (ut_connTable u)"
      using moves_entry(1) [OF uv _ v] turn(1,2) e(2) by (simp add: all_closing_def)
    then show ?thesis using moves_entry(2) [OF m e s] turn(3) [OF v] by (auto simp: closing_def)
  qed
  moreover have "ut_connTable w = []" if "socket_left w = 0"
    using that by (cases "ut_connTable w") (auto simp: socket_left_def)
  moreover have "ut_udpSocket w" using m(1) uv assms(2) by (simp add: moves_def)
  ultimately show ?thesis
    using d ripe_in_time
    by (auto simp: early_def utp_tryCloseSocket_def utp_connSize_def utp_stopTimeoutCheck_def eff_parts)
qed

text \<open>A connection that opens, and closes before it is CONNECTED, has sent its FIN and waits for nothing.\<close>

lemma close_window:
  assumes "early s" "cn_localFin s = None" shows "cn_sendWindow (final (conn_close env s)) = cn_sendWindow s"
proof -
  define s1 where "s1 = fst (set_localState CS_CLOSE_WAIT (s\<lparr>cn_closeStartTime := Some (env_perf env)\<rparr>))"
  have "cn_state s1 = CS_CLOSE_WAIT" "cn_sendWindow s1 = cn_sendWindow s"
    by (simp_all add: s1_def setState_parts)
  then have "cn_sendWindow (final (conn_sendFin env s1)) = cn_sendWindow s"
    by (simp add: sendFin_parts createFinPacket_def set_localSeqNr_def)
  then show ?thesis
    using assms \<open>cn_sendWindow s1 = cn_sendWindow s\<close> unfolding early_def conn_close_def
    by (auto simp: conn_isClosed_def eff_parts s1_def [symmetric] split: sum.split)
qed

lemma sample_close:
  defines "v \<equiv> final (utp_do (OpTryClose sample_env) sample_utp)"
  shows "socket_left v \<le> 1" "set (ut_connTable v) \<subseteq> set (ut_connTable sample_utp)"
    "closing (env_perf sample_env) (ut_conns v ! 0)"
proof -
  obtain s where s: "ut_conns sample_utp = [s]" "cn_state s = CS_SYN_SENT" "cn_localFin s = None" "cn_sendWindow s = sw_new"
    "\<exists>k. ut_connTable sample_utp = [(k, 0)]"
    using sample_utp_parts by auto
  let ?e = "conn_env sample_env sample_utp"
  have v: "v = final (closeConn sample_env 0 sample_utp)"
    using s by (auto simp: v_def utp_tryCloseSocket_def utp_connSize_def eff_parts closeConn_final(4))
  have c: "ut_conns v = [final (conn_close ?e s)]" by (simp add: v closeConn_final(1) s(1))
  show sub: "set (ut_connTable v) \<subseteq> set (ut_connTable sample_utp)" unfolding v by (rule closeConn_final(2))
  show "closing (env_perf sample_env) (ut_conns v ! 0)"
    using close_early [of s ?e] s(2) by (simp add: c early_def conn_env_def)
  have "conn_left (final (conn_close ?e s)) = 0"
    using s(2-4) close_window [of s ?e]
    by (simp add: conn_left_def close_parts early_def sw_left_def sw_outstanding_def bm_all_def sw_new_def bm_new_def)
  moreover obtain k where "set (ut_connTable v) \<subseteq> {(k, 0)}" using sub s(5) by auto
  then have "set (ut_connTable v) = {} \<or> set (ut_connTable v) = {(k, 0)}" by (rule subset_singletonD)
  ultimately show "socket_left v \<le> 1" unfolding socket_left_def c by (elim disjE) simp_all
qed

theorem socket_close_ends_witness:
  "let v = final (utp_do (OpTryClose sample_env) sample_utp);
       w = final (utp_do (OpConn late_env 0 CallClosePoll) v) in
   ut_connTable w = [] \<and> ut_state (final (utp_tryCloseSocket late_env w)) = US_CLOSED"
proof -
  define v where "v = final (utp_do (OpTryClose sample_env) sample_utp)"
  define w where "w = final (utp_do (OpConn late_env 0 CallClosePoll) v)"
  note c = sample_close [folded v_def]
  note ends = socket_close_ends [OF sample_utp_run _ disjI2 [OF refl], of sample_env, folded v_def]
  have sock: "ut_udpSocket sample_utp" using sample_utp_parts by auto
  have "fl (15000 :: rat) = 15000" by simp
  then have "fl (env_perf late_env - env_perf sample_env) > CLOSE_TIMEOUT_DURATION"
    by (simp add: late_env_def CLOSE_TIMEOUT_DURATION_def)
  then have ripe: "ripe late_env CallClosePoll (ut_conns v ! 0)" using c(3) by (simp add: ripe.simps closing_def)
  have len: "length (ut_conns w) = length (ut_conns v)"
    using obeysD [OF runConn_untouched [where D = UNIV]] by (simp add: w_def untouched_def)
  obtain n where n: "closing_run v n w" "socket_left v \<le> n"
  proof (cases "ut_connTable v")
    case Nil
    then show ?thesis
      using that closing_op [OF closing_start, of v "OpConn late_env 0 CallClosePoll"] by (simp add: w_def socket_left_def)
  next
    case (Cons e es)
    then have "(fst e, 0) \<in> set (ut_connTable v)" using c(2) sample_utp_parts by (cases e) auto
    from closing_poll [OF closing_start this ripe] show ?thesis using that c(1) by (simp add: w_def)
  qed
  have "ut_connTable w = []" using ends [OF sock n(1)] n(2) len by blast
  moreover from this have "ut_state (final (utp_tryCloseSocket late_env w)) = US_CLOSED"
    using ends [OF sock n(1)] by blast
  ultimately show ?thesis by (simp add: Let_def v_def w_def)
qed

end
