(* ===== verification/Spec2Isabelle.thy ===== *)
theory Spec2Isabelle
  imports ConnReorder Statistic TimerManager BlockingQueue Display ConnPromise ConnOver Ledger Repair DrawnIds SocketClose
begin

text \<open>
  A model of the micro transport protocol library in \<open>src/src\<close>: a reliable byte stream over UDP,
  after BEP 29.

  \<^bold>\<open>The program.\<close> A socket (\<open>utp_socket.ts\<close>, class \<open>Utp\<close>) owns one UDP socket, a table from
  identifiers (remote address, send id, receive id) to connections, and a listener. Its receive loop
  decodes each datagram (\<open>utp_packet.ts\<close> with the extensions of \<open>utp_ext_sack.ts\<close> and
  \<open>utp_ext_bits.ts\<close>) and dispatches it: a SYN makes a connection, which goes to the listener
  (\<open>utp_listener.ts\<close>) once established; any other packet goes to the connections found by two
  lookups. A connection (\<open>utp_conn.ts\<close>) is a state machine that keeps a queue of packets out of
  order (\<open>circular_queue.ts\<close>), a buffer for the application (\<open>blocking_buffer.ts\<close>), a send window
  (\<open>utp_send_window.ts\<close>) over a map whose writers wait for room (\<open>blocking_map.ts\<close>), with a
  round-trip estimator (\<open>utp_rtt_tracker.ts\<close>) and a congestion controller
  (\<open>utp_congestion_control.ts\<close>), and counters (\<open>statistic.ts\<close>). A timer of the socket
  (\<open>timer_manager.ts\<close>) checks the connections. \<open>utilt.ts\<close> has the 16-bit sequence arithmetic, the
  checks of host names and a string hash; \<open>utp_addr.ts\<close> the addresses.

  \<^bold>\<open>Theories.\<close> Each models the file it names; a definition has the name of the method, with a prefix
  for its class where several have the name.

  \<^item> \<open>Prelude\<close>: 32-bit operators of the language, reads and writes of a \<open>DataView\<close>, insertion-ordered
    maps (\<open>jm_\<close>), loops that emit (\<open>thread\<close>), errors. \<open>Effects\<close>: computations that change a state,
    emit events and return or throw, and the histories they satisfy. \<open>JsFloat\<close>: binary64 rounding.
  \<^item> \<open>Seq16\<close>, \<open>Addr\<close> (\<open>utilt.ts\<close>, \<open>utp_addr.ts\<close>, \<open>generateUniqueId\<close>), \<open>Sack\<close>, \<open>Packet\<close>.
  \<^item> \<open>CircularQueue\<close>, \<open>BlockingMap\<close>, \<open>BlockingBuffer\<close>, \<open>BlockingQueue\<close>: the containers. A call that
    waits is split at its \<open>await\<close>s, who waits is part of the state, and who is woken is an output.
  \<^item> \<open>RttTracker\<close>, \<open>Congestion\<close>, \<open>SendWindow\<close>, \<open>Statistic\<close>.
  \<^item> \<open>Conn\<close>: the connection as a record and its methods, whole, with every guard and throw.
    \<open>ConnReceive\<close>, \<open>ConnReorder\<close>: delivery. \<open>ConnFrame\<close>, \<open>ConnState\<close>: what each method leaves alone,
    the life of a connection; \<open>ConnSteps\<close>: histories of any kind from the parts of the methods, and
    runs of chosen calls; \<open>ConnType\<close>: its well-formedness and the speeds it reports; \<open>ConnClosing\<close>:
    what a closing connection has left to do; \<open>ConnPromise\<close>: the promise of \<open>connect\<close>; \<open>ConnOver\<close>:
    calls out of place, writes off CONNECTED and reads at a reset. \<open>ConnSend\<close>: what it sends.
    \<open>EndToEnd\<close>: two connections and a network; \<open>Repair\<close>: retransmission over it; \<open>Writers\<close>:
    overlapping writes, \<open>conn_writeChunk\<close> being the part of \<open>write\<close> between two \<open>await\<close>s.
    \<open>AckHonest\<close>: what a receiver acknowledges; \<open>WindowBooks\<close>, \<open>Ledger\<close>: two connections with
    acknowledgements going back.
  \<^item> \<open>Listener\<close>, \<open>TimerManager\<close>, \<open>Logging\<close> (\<open>logger.ts\<close>, \<open>utp_context.ts\<close>); \<open>Display\<close>: the methods
    that print or turn a value into text.
  \<^item> \<open>Socket\<close>: the socket, with connections in a store and named by their place in it, since table,
    listener and application share them. \<open>SocketSteps\<close>: runs of the socket, and histories of any
    kind from the steps of its operations; \<open>SocketTable\<close>: what runs preserve. \<open>SocketAccept\<close>: new
    connections. \<open>SocketRoute\<close>: whom a packet reaches. \<open>SocketClose\<close>: the end of a socket.
    \<open>Handshake\<close>: two sockets, from \<open>connect\<close> to a pair of connections and what the accepting one
    receives; \<open>DrawnIds\<close>: the random numbers they use.

  \<^bold>\<open>What is shown.\<close> Stream: the sender's data packets carry the bytes written, in order
  (\<open>sender_stream\<close>); the receiver delivers a prefix of the peer's stream in order under any loss,
  repetition and reordering (\<open>rx_in_order\<close>), and delivers what is due (\<open>rx_progress\<close>); both through
  the codec give \<open>end_to_end\<close>, and a lost packet that is due is sent again and extends what was
  delivered (\<open>loss_repaired\<close>). With the acknowledgements in the picture, no packet leaves the
  sender's window unless it arrived or was sent four times (\<open>no_silent_loss\<close>). The stream premises
  are those the handshake establishes at the connecting side (\<open>handshake\<close>); the accepting side
  starts with the first data packet to arrive (\<open>accepted_stream\<close>). Overlapping writes interleave by
  chunks (\<open>concurrent_writes\<close>). Codec: round trips of packets and selective acknowledgements, the
  exact acceptance condition, and the datagrams on which it throws. Connection: its parts stay well
  formed, states move forward only, a dead connection has left the table, a close ends, at most one
  FIN, the promise of \<open>connect\<close> is settled at most once, and a change of state while its packet is
  sent is missed (\<open>connect_promise\<close>); what goes wrong off CONNECTED (\<open>write_outside_connected\<close>,
  \<open>reset_strands_reads\<close>). Send window: an acknowledgement removes exactly what it acknowledges, its
  size, Karn's rule, at most three retransmissions. Socket: the table is sound, routing is by
  identity, other connections are untouched, a SYN makes one connection, a closed socket is silent,
  closing one ends, whatever arrives meanwhile, but for a connection that a late SYN adds
  (\<open>socket_close_ends\<close>). Containers: order and bounds under any interleaving. Estimators: bounds
  under rounding.

  \<^bold>\<open>Interfaces as locales.\<close> \<open>rounding\<close> (\<open>JsFloat\<close>), \<open>fifo_release\<close> (\<open>Prelude\<close>), \<open>preorder_rel\<close> and
  \<open>history\<close> (\<open>Effects\<close>) state contracts once; the components interpret them on their own operations:
  the histories of a connection (\<open>still\<close>, \<open>life\<close>, \<open>calm\<close>) and of a socket (\<open>untouched\<close>, \<open>closes\<close>)
  are instances of one contract, and every method is shown to satisfy one from the parts it is
  composed of. \<open>removal_loop\<close> (\<open>SendWindow\<close>) is the contract of an acknowledgement loop.
  \<open>send_steps\<close>, \<open>conn_steps\<close> and \<open>connecting_steps\<close> (\<open>ConnSteps\<close>) ask of a history only the small
  updates a connection makes, and give it for every method and call: \<open>kept\<close>, \<open>tail\<close>, \<open>promise\<close> and
  \<open>stranded\<close> are their interpretations. \<open>socket_steps\<close> (\<open>SocketSteps\<close>) does the same for a socket,
  over a history of its connections: \<open>sock\<close> and \<open>moves\<close> are its interpretations.

  \<^bold>\<open>Bounds.\<close> No definition uses fuel: loops run over lists fixed at their start, or decrease a
  measure (the bytes left in \<open>fromBytes\<close>, the mask in \<open>Sack\<close>). The stream theorems are for fewer
  than 49152 packets of one connection, three quarters of the number space, so that a late
  repetition is not taken for a new packet; \<open>no_silent_loss\<close> for fewer than 32768, half of it, so
  that a late acknowledgement is not taken for a new one. Its runs let the data flow one way and
  leave out the receiver's own timer. Numbers drawn at random, clocks and what the UDP socket
  answers to a send or to being opened are parameters.

  \<^bold>\<open>Abstractions.\<close> A method of a connection runs uninterrupted up to its end or to the one \<open>await\<close>
  that waits for another event, room in the send window; of the interleavings inside other \<open>await\<close>s
  (of a send), those of \<open>write\<close> (\<open>Writers\<close>) and of \<open>waitForConnecting\<close> (\<open>conn_connectSend\<close>, then
  \<open>conn_awaitConnected\<close>) with other calls are modelled; \<open>handleFin\<close> sends its FIN and goes on in one
  step, and so does \<open>connect\<close> of the socket with its SYN. A promise that is not awaited and rejects
  is an event, \<open>EvUnhandled\<close>. All reads of one clock in a method call are equal. Strings are code
  units below 256. The binary64 numbers do not overflow to infinity.

  \<^bold>\<open>Not modelled.\<close> The debug prints inside the methods, \<open>printState\<close> of the congestion controller (a
  debug print of binary64 numbers), and fields nothing reads (\<open>offsetTime\<close>, \<open>listening\<close>). The UDP
  socket, the timers and the clocks of the runtime, which are not part of the source.
\<close>

end
